(* ===== verification/Ledger_Prelude.thy ===== *)
theory Ledger_Prelude
  imports Complex_Main "HOL-Library.Word" "HOL-Library.List_Lexorder"
begin

text \<open>
  Shared vocabulary of the development: what the components use of the Rust language and of its
  standard library, and the generic lemmas their proofs share.

  \<^item> \<open>result\<close> is Rust's \<open>Result<T, E>\<close> with a third value for a panic, so that an arithmetic
    overflow inside a crate or an out-of-range index is visible in the model;
    \<open>and_then\<close> is the \<open>?\<close> operator.
  \<^item> \<open>str\<close> is a Rust string: the list of its Unicode scalar values. \<open>chars().count()\<close> is the
    length of that list, \<open>len()\<close> and \<open>as_bytes()\<close> go through its UTF-8 encoding \<open>utf8\<close>.
  \<^item> the list lemmas are about tables: rows looked up by a key that is unique.
\<close>

section \<open>Automation shared by the components\<close>

named_theorems result_simps \<open>evaluation of the result monad\<close>
named_theorems table_simps \<open>effect of a write on the tables and on what is read from them\<close>
named_theorems step_defs \<open>definitions of the statements a session runs\<close>

section \<open>Results, panics and the question mark operator\<close>

datatype ('e, 'a) result = Ok 'a | Err 'e | Panic

fun and_then :: "('e, 'a) result \<Rightarrow> ('a \<Rightarrow> ('e, 'b) result) \<Rightarrow> ('e, 'b) result" where
  "and_then (Ok x) f = f x"
| "and_then (Err e) f = Err e"
| "and_then Panic f = Panic"

fun map_err :: "('e \<Rightarrow> 'f) \<Rightarrow> ('e, 'a) result \<Rightarrow> ('f, 'a) result" where
  "map_err f (Ok x) = Ok x"
| "map_err f (Err e) = Err (f e)"
| "map_err f Panic = Panic"

fun ok_or :: "'a option \<Rightarrow> 'e \<Rightarrow> ('e, 'a) result" where
  "ok_or (Some x) e = Ok x"
| "ok_or None e = Err e"

text \<open>Indexing that panics when the element is missing (\<open>map[&key]\<close>, \<open>vec[0]\<close>).\<close>

fun ok_or_panic :: "'a option \<Rightarrow> ('e, 'a) result" where
  "ok_or_panic (Some x) = Ok x"
| "ok_or_panic None = Panic"

text \<open>\<open>collect::<Result<Vec<_>, _>>()\<close>: the first failure wins.\<close>

fun collect :: "('e, 'a) result list \<Rightarrow> ('e, 'a list) result" where
  "collect [] = Ok []"
| "collect (r # rs) = and_then r (\<lambda>x. and_then (collect rs) (\<lambda>xs. Ok (x # xs)))"

lemma and_then_assoc: "and_then r (\<lambda>x. and_then (f x) g) = and_then (and_then r f) g"
  by (cases r) simp_all

lemma and_then_eq_Ok [result_simps]:
  "and_then r f = Ok y \<longleftrightarrow> (\<exists>x. r = Ok x \<and> f x = Ok y)"
  by (cases r) auto

lemma and_then_eq_Err [result_simps]:
  "and_then r f = Err e \<longleftrightarrow> r = Err e \<or> (\<exists>x. r = Ok x \<and> f x = Err e)"
  by (cases r) auto

lemma and_then_eq_Panic [result_simps]:
  "and_then r f = Panic \<longleftrightarrow> r = Panic \<or> (\<exists>x. r = Ok x \<and> f x = Panic)"
  by (cases r) auto

lemma map_err_eq_Ok [result_simps]: "map_err f r = Ok x \<longleftrightarrow> r = Ok x"
  by (cases r) auto

lemma map_err_eq_Err [result_simps]: "map_err f r = Err e \<longleftrightarrow> (\<exists>d. r = Err d \<and> e = f d)"
  by (cases r) auto

lemma map_err_eq_Panic [result_simps]: "map_err f r = Panic \<longleftrightarrow> r = Panic"
  by (cases r) auto

lemma ok_or_eq_Ok [result_simps]: "ok_or opt e = Ok x \<longleftrightarrow> opt = Some x"
  by (cases opt) auto

lemma ok_or_eq_Err [result_simps]: "ok_or opt e = Err d \<longleftrightarrow> opt = None \<and> d = e"
  by (cases opt) auto

lemma ok_or_not_Panic [simp]: "ok_or opt e \<noteq> Panic"
  by (cases opt) auto

lemma ok_or_panic_eq_Ok [result_simps]: "ok_or_panic opt = Ok x \<longleftrightarrow> opt = Some x"
  by (cases opt) auto

lemma ok_or_panic_eq_Panic [result_simps]: "ok_or_panic opt = Panic \<longleftrightarrow> opt = None"
  by (cases opt) auto

lemma ok_or_panic_not_Err [simp]: "ok_or_panic opt \<noteq> Err e"
  by (cases opt) auto

section \<open>Strings\<close>

type_synonym byte = "8 word"
type_synonym str = "nat list"

definition lit :: "string \<Rightarrow> str" where
  "lit s = map of_char s"

lemma length_lit [simp]: "length (lit s) = length s"
  by (simp add: lit_def)

lemma lit_inject [simp]: "lit s = lit t \<longleftrightarrow> s = t"
  by (simp add: lit_def inj_def inj_map_eq_map)

lemma lit_bound: "c \<in> set (lit s) \<Longrightarrow> c < 256"
  by (auto simp: lit_def)

text \<open>A byte string literal \<open>b"..."\<close>.\<close>

definition bstr :: "string \<Rightarrow> byte list" where
  "bstr s = map of_char s"

lemma length_bstr [simp]: "length (bstr s) = length s"
  by (simp add: bstr_def)

text \<open>\<open>Display\<close> of an unsigned integer.\<close>

fun nat_digits :: "nat \<Rightarrow> str" where
  "nat_digits n = (if n < 10 then [48 + n] else nat_digits (n div 10) @ [48 + n mod 10])"

declare nat_digits.simps [simp del]

text \<open>The last \<open>k\<close> decimal digits, with leading zeros.\<close>

primrec frac_digits :: "nat \<Rightarrow> nat \<Rightarrow> str" where
  "frac_digits 0 n = []"
| "frac_digits (Suc k) n = frac_digits k (n div 10) @ [48 + n mod 10]"

text \<open>Unicode scalar values, what a Rust \<open>char\<close> ranges over.\<close>

definition is_scalar :: "nat \<Rightarrow> bool" where
  "is_scalar c \<longleftrightarrow> c < 0xD800 \<or> 0xE000 \<le> c \<and> c < 0x110000"

abbreviation valid_str :: "str \<Rightarrow> bool" where
  "valid_str s \<equiv> list_all is_scalar s"

text \<open>The UTF-8 encoding, first with the bytes as numbers.\<close>

definition utf8_nats :: "nat \<Rightarrow> nat list" where
  "utf8_nats c =
     (if c < 0x80 then [c]
      else if c < 0x800 then [0xC0 + c div 64, 0x80 + c mod 64]
      else if c < 0x10000 then [0xE0 + c div 4096, 0x80 + c div 64 mod 64, 0x80 + c mod 64]
      else [0xF0 + c div 262144, 0x80 + c div 4096 mod 64, 0x80 + c div 64 mod 64,
            0x80 + c mod 64])"

definition utf8 :: "str \<Rightarrow> byte list" where
  "utf8 s = map of_nat (concat (map utf8_nats s))"

lemma utf8_Nil [simp]: "utf8 [] = []"
  by (simp add: utf8_def)

lemma utf8_append [simp]: "utf8 (s @ t) = utf8 s @ utf8 t"
  by (simp add: utf8_def)

lemma utf8_nats_bound: "is_scalar c \<Longrightarrow> b \<in> set (utf8_nats c) \<Longrightarrow> b < 256"
  by (auto simp: utf8_nats_def is_scalar_def split: if_splits)

text \<open>Only the ASCII characters contribute a byte below 128, and they contribute themselves.\<close>

lemma utf8_nats_ascii: "b \<in> set (utf8_nats c) \<Longrightarrow> b < 128 \<Longrightarrow> c = b"
  by (auto simp: utf8_nats_def split: if_splits)

text \<open>The lead byte of a character tells how many bytes follow, so the encoding is prefix free.\<close>

lemma recompose3: "(c::nat) = (c div 4096) * 4096 + (c div 64 mod 64) * 64 + c mod 64"
proof -
  have "c div 64 div 64 = c div 4096"
    by (simp add: div_mult2_eq [symmetric])
  then have "c div 64 = c div 4096 * 64 + c div 64 mod 64"
    using div_mult_mod_eq [of "c div 64" 64] by simp
  then show ?thesis
    using div_mult_mod_eq [of c 64] by linarith
qed

lemma recompose4:
  "(c::nat) = (c div 262144) * 262144 + (c div 4096 mod 64) * 4096 + (c div 64 mod 64) * 64
     + c mod 64"
proof -
  have "c div 4096 div 64 = c div 262144"
    by (simp add: div_mult2_eq [symmetric])
  then have "c div 4096 = c div 262144 * 64 + c div 4096 mod 64"
    using div_mult_mod_eq [of "c div 4096" 64] by simp
  then show ?thesis
    using recompose3 [of c] by linarith
qed

lemma utf8_nats_lead:
  assumes "is_scalar c"
  shows "length (utf8_nats c) = (let b = hd (utf8_nats c) in
    if b < 0x80 then 1 else if b < 0xE0 then 2 else if b < 0xF0 then 3 else 4)"
  using assms by (auto simp: utf8_nats_def is_scalar_def)

lemma utf8_nats_inj:
  assumes "utf8_nats c = utf8_nats d" and "is_scalar c" and "is_scalar d"
  shows "c = d"
proof -
  have "length (utf8_nats c) = length (utf8_nats d)"
    using assms(1) by simp
  then consider "c < 0x80" "d < 0x80"
    | "\<not> c < 0x80" "c < 0x800" "\<not> d < 0x80" "d < 0x800"
    | "\<not> c < 0x800" "c < 0x10000" "\<not> d < 0x800" "d < 0x10000"
    | "\<not> c < 0x10000" "\<not> d < 0x10000"
    by (auto simp: utf8_nats_def split: if_splits)
  then show ?thesis
  proof cases
    case 1
    then show ?thesis using assms(1) by (simp add: utf8_nats_def)
  next
    case 2
    then have "c div 64 = d div 64" "c mod 64 = d mod 64"
      using assms(1) by (simp_all add: utf8_nats_def)
    then show ?thesis
      by (metis div_mult_mod_eq)
  next
    case 3
    then have "c div 4096 = d div 4096" "c div 64 mod 64 = d div 64 mod 64" "c mod 64 = d mod 64"
      using assms(1) by (simp_all add: utf8_nats_def)
    then show ?thesis
      using recompose3 [of c] recompose3 [of d] by simp
  next
    case 4
    then have "c div 262144 = d div 262144" "c div 4096 mod 64 = d div 4096 mod 64"
      "c div 64 mod 64 = d div 64 mod 64" "c mod 64 = d mod 64"
      using assms(1) by (simp_all add: utf8_nats_def)
    then show ?thesis
      using recompose4 [of c] recompose4 [of d] by simp
  qed
qed

lemma utf8_nats_not_Nil [simp]: "utf8_nats c \<noteq> []"
  by (simp add: utf8_nats_def)

lemma utf8_nats_prefix_free:
  assumes eq: "utf8_nats c @ x = utf8_nats d @ y" and "is_scalar c" and "is_scalar d"
  shows "c = d \<and> x = y"
proof -
  have "hd (utf8_nats c) = hd (utf8_nats d)"
    using eq by (metis hd_append2 utf8_nats_not_Nil)
  then have "length (utf8_nats c) = length (utf8_nats d)"
    using assms(2,3) by (simp add: utf8_nats_lead)
  then have "utf8_nats c = utf8_nats d" "x = y"
    using eq by auto
  with utf8_nats_inj assms(2,3) show ?thesis by blast
qed

lemma concat_utf8_nats_inj:
  "concat (map utf8_nats s) = concat (map utf8_nats t) \<Longrightarrow> valid_str s \<Longrightarrow> valid_str t \<Longrightarrow> s = t"
proof (induction s arbitrary: t)
  case Nil
  then show ?case by (cases t) auto
next
  case (Cons c s)
  then obtain d t' where t: "t = d # t'"
    by (cases t) auto
  with Cons.prems have "c = d \<and> concat (map utf8_nats s) = concat (map utf8_nats t')"
    by (auto dest: utf8_nats_prefix_free)
  with Cons t show ?case by auto
qed

lemma map_of_nat_byte_inj:
  assumes "map of_nat xs = (map of_nat ys :: byte list)"
    and "\<forall>b \<in> set xs. b < 256" and "\<forall>b \<in> set ys. b < 256"
  shows "xs = ys"
proof -
  have "unat (of_nat a :: byte) = a" if "a < 256" for a
    using that by (simp add: unat_of_nat)
  then have "inj_on (of_nat :: nat \<Rightarrow> byte) {b. b < 256}"
    by (metis (mono_tags, lifting) inj_onI mem_Collect_eq)
  then have "inj_on (of_nat :: nat \<Rightarrow> byte) (set xs \<union> set ys)"
    using assms(2,3) by (auto intro: inj_on_subset)
  with assms(1) show ?thesis
    by (simp add: inj_on_map_eq_map)
qed

lemma utf8_inj:
  assumes "utf8 s = utf8 t" and "valid_str s" and "valid_str t"
  shows "s = t"
proof (rule concat_utf8_nats_inj)
  show "concat (map utf8_nats s) = concat (map utf8_nats t)"
  proof (rule map_of_nat_byte_inj)
    show "map of_nat (concat (map utf8_nats s)) = (map of_nat (concat (map utf8_nats t)) :: byte list)"
      using assms(1) by (simp add: utf8_def)
  qed (use assms(2,3) utf8_nats_bound in \<open>auto simp: list_all_iff\<close>)
qed (use assms in auto)

text \<open>\<open>as_bytes\<close> of an ASCII byte occurs in the encoding exactly where the character does.\<close>

lemma ascii_byte_in_utf8:
  assumes "valid_str s" and "b < 128" and "of_nat b \<in> set (utf8 s)"
  shows "b \<in> set s"
proof -
  from assms(3) obtain c n where c: "c \<in> set s" "n \<in> set (utf8_nats c)"
    and eq: "of_nat b = (of_nat n :: byte)"
    by (auto simp: utf8_def)
  with assms(1) have "n < 256"
    by (auto simp: list_all_iff dest: utf8_nats_bound)
  then have "b = n"
    using map_of_nat_byte_inj [of "[b]" "[n]"] eq assms(2) by simp
  with c assms(2) show ?thesis
    using utf8_nats_ascii by blast
qed

text \<open>\<open>str::trim\<close> strips the characters with the Unicode property \<open>White_Space\<close> on both sides.\<close>

definition is_whitespace :: "nat \<Rightarrow> bool" where
  "is_whitespace c \<longleftrightarrow>
     9 \<le> c \<and> c \<le> 13 \<or> c = 32 \<or> c = 0x85 \<or> c = 0xA0 \<or> c = 0x1680 \<or>
     0x2000 \<le> c \<and> c \<le> 0x200A \<or> c = 0x2028 \<or> c = 0x2029 \<or> c = 0x202F \<or> c = 0x205F \<or>
     c = 0x3000"

definition trim :: "str \<Rightarrow> str" where
  "trim s = rev (dropWhile is_whitespace (rev (dropWhile is_whitespace s)))"

lemma dropWhile_hd: "dropWhile P xs \<noteq> [] \<Longrightarrow> \<not> P (hd (dropWhile P xs))"
  by (induction xs) auto

lemma dropWhile_id: "xs = [] \<or> \<not> P (hd xs) \<Longrightarrow> dropWhile P xs = xs"
  by (cases xs) auto

lemma trim_last: "trim s \<noteq> [] \<Longrightarrow> \<not> is_whitespace (last (trim s))"
  unfolding trim_def by (metis dropWhile_hd last_rev rev_is_Nil_conv)

lemma hd_dropWhile_rev:
  assumes "dropWhile P (rev xs) \<noteq> []"
  shows "hd (rev (dropWhile P (rev xs))) = hd xs"
proof -
  have "rev xs = takeWhile P (rev xs) @ dropWhile P (rev xs)"
    by simp
  then have "xs = rev (dropWhile P (rev xs)) @ rev (takeWhile P (rev xs))"
    by (metis rev_append rev_rev_ident)
  then show ?thesis
    using assms by (metis hd_append2 rev_is_Nil_conv)
qed

lemma trim_hd:
  assumes "trim s \<noteq> []"
  shows "\<not> is_whitespace (hd (trim s))"
proof -
  let ?t = "dropWhile is_whitespace s"
  have ne: "dropWhile is_whitespace (rev ?t) \<noteq> []"
    using assms unfolding trim_def by blast
  then have "?t \<noteq> []"
    by force
  then show ?thesis
    using hd_dropWhile_rev [OF ne] dropWhile_hd [of is_whitespace s] by (simp add: trim_def)
qed

lemma trim_Nil [simp]: "trim [] = []"
  by (simp add: trim_def)

lemma trim_trim [simp]: "trim (trim s) = trim s"
proof (cases "trim s = []")
  case True
  then show ?thesis by simp
next
  case False
  then have "dropWhile is_whitespace (trim s) = trim s"
    using trim_hd dropWhile_id by blast
  moreover have "dropWhile is_whitespace (rev (trim s)) = rev (trim s)"
    using False trim_last dropWhile_id hd_rev by metis
  ultimately show ?thesis
    unfolding trim_def [of "trim s"] by simp
qed

lemma length_trim: "length (trim s) \<le> length s"
  unfolding trim_def
  by (metis length_dropWhile_le length_rev order_trans)

lemma set_trim: "set (trim s) \<subseteq> set s"
  unfolding trim_def by (metis (no_types, lifting) set_dropWhileD set_rev subsetI)

text \<open>A separator that occurs in neither prefix splits a text in one way only.\<close>

lemma append_separator_inj:
  assumes "x \<notin> set s" and "x \<notin> set t" and "s @ x # u = t @ x # v"
  shows "s = t \<and> u = v"
proof -
  have "takeWhile (\<lambda>y. y \<noteq> x) (s @ x # u) = s" "takeWhile (\<lambda>y. y \<noteq> x) (t @ x # v) = t"
    using assms(1,2) by (auto simp: takeWhile_append)
  with assms(3) show ?thesis by auto
qed

section \<open>Tables\<close>

text \<open>Rows are kept in insertion order; a primary key is a projection that is distinct.\<close>

definition row :: "('r \<Rightarrow> 'k) \<Rightarrow> 'r list \<Rightarrow> 'k \<Rightarrow> 'r option" where
  "row key rs k = find (\<lambda>r. key r = k) rs"

lemma row_Some: "row key rs k = Some r \<Longrightarrow> r \<in> set rs \<and> key r = k"
  by (auto simp: row_def find_Some_iff)

lemma row_None: "row key rs k = None \<longleftrightarrow> k \<notin> key ` set rs"
  by (auto simp: row_def find_None_iff)

lemma row_append:
  "row key (rs @ qs) k = (case row key rs k of None \<Rightarrow> row key qs k | Some r \<Rightarrow> Some r)"
  by (induction rs) (auto simp: row_def)

lemma row_single [simp]: "row key [r] k = (if key r = k then Some r else None)"
  by (simp add: row_def)

lemma row_Nil [simp]: "row key [] k = None"
  by (simp add: row_def)

lemma row_unique:
  "distinct (map key rs) \<Longrightarrow> r \<in> set rs \<Longrightarrow> row key rs (key r) = Some r"
  by (induction rs) (auto simp: row_def)

text \<open>\<open>UPDATE\<close> of the rows with a given key, the key itself unchanged.\<close>

definition update_rows :: "('r \<Rightarrow> 'k) \<Rightarrow> 'k \<Rightarrow> ('r \<Rightarrow> 'r) \<Rightarrow> 'r list \<Rightarrow> 'r list" where
  "update_rows key k f rs = map (\<lambda>r. if key r = k then f r else r) rs"

lemma update_rows_keys:
  "(\<And>r. key (f r) = key r) \<Longrightarrow> map key (update_rows key k f rs) = map key rs"
  by (simp add: update_rows_def)

lemma update_rows_map:
  "(\<And>r. g (f r) = g r) \<Longrightarrow> map g (update_rows key k f rs) = map g rs"
  by (simp add: update_rows_def)

lemma length_update_rows [simp]: "length (update_rows key k f rs) = length rs"
  by (simp add: update_rows_def)

lemma row_update_rows:
  "(\<And>r. key (f r) = key r) \<Longrightarrow>
   row key (update_rows key k f rs) j =
     (if j = k then map_option f (row key rs k) else row key rs j)"
  by (induction rs) (auto simp: row_def update_rows_def)

section \<open>Invariants of step relations\<close>

locale step_invariant =
  fixes init :: "'s \<Rightarrow> bool" and step :: "'s \<Rightarrow> 's \<Rightarrow> bool" and inv :: "'s \<Rightarrow> bool"
  assumes init_inv: "init s \<Longrightarrow> inv s" and step_inv: "inv s \<Longrightarrow> step s t \<Longrightarrow> inv t"
begin

lemma steps_inv: "step\<^sup>*\<^sup>* s t \<Longrightarrow> inv s \<Longrightarrow> inv t"
  by (induction rule: rtranclp_induct) (auto intro: step_inv)

lemma invariant: "init s \<Longrightarrow> step\<^sup>*\<^sup>* s t \<Longrightarrow> inv t"
  using init_inv steps_inv by blast

end

end
