(* ===== verification/Crates.thy ===== *)
theory Crates
  imports Ledger_Prelude
begin

text \<open>
  The crates the program calls and that are not part of the repository: \<open>rust_decimal\<close>, \<open>sha2\<close>,
  \<open>uuid\<close> and the error type of \<open>sqlx\<close>. Every definition of the development that uses one of them takes its operations as
  an argument, a \<open>decimal_api\<close> or the larger \<open>crates\<close> record; the locales \<open>rust_decimal\<close> and
  \<open>crate_contracts\<close> collect what the code relies on of their documented behaviour, and the lemmas
  between their \<open>begin\<close> and \<open>end\<close> are proved once from that. The last part gives an
  implementation of the contract (a 96-bit mantissa with a decimal scale) and interprets the
  locales on it, so that the contract is known to be satisfiable and witnesses can compute.
\<close>

section \<open>The interface\<close>

type_synonym uuid = "128 word"

datatype ordering = Less | Equal | Greater

text \<open>
  \<open>rust_decimal::Decimal\<close>. A value is \<open>mantissa() / 10 ^ scale()\<close>. Addition and subtraction
  panic on overflow (\<open>None\<close>). \<open>d_of_numeric\<close> decodes a \<open>NUMERIC(20, 8)\<close> column, given in
  units of \<open>10 ^ -8\<close>.
\<close>

record 'd decimal_api =
  d_mantissa :: "'d \<Rightarrow> int"
  d_scale :: "'d \<Rightarrow> nat"
  d_normalize :: "'d \<Rightarrow> 'd"
  d_abs :: "'d \<Rightarrow> 'd"
  d_neg :: "'d \<Rightarrow> 'd"
  d_add :: "'d \<Rightarrow> 'd \<Rightarrow> 'd option"
  d_sub :: "'d \<Rightarrow> 'd \<Rightarrow> 'd option"
  d_cmp :: "'d \<Rightarrow> 'd \<Rightarrow> ordering"
  d_zero :: 'd
  d_from_i64 :: "int \<Rightarrow> 'd"
  d_to_string :: "'d \<Rightarrow> str"
  d_of_numeric :: "int \<Rightarrow> 'd"

text \<open>
  \<open>sqlx::Error\<close>: an error the database reported, with its SQLSTATE code and the name of the
  constraint where it has them, or any failure of the driver (connection, pool, decoding).
\<close>

datatype sqlx_error = SqlxDatabase "string option" "string option" | SqlxOther str

record 'd crates = "'d decimal_api" +
  sha256 :: "byte list \<Rightarrow> byte list"
  uuid_bytes :: "uuid \<Rightarrow> byte list"
  uuid_to_string :: "uuid \<Rightarrow> str"
  sqlx_to_string :: "sqlx_error \<Rightarrow> str"

definition dval :: "('d, 'm) decimal_api_scheme \<Rightarrow> 'd \<Rightarrow> rat" where
  "dval D a = of_int (d_mantissa D a) / 10 ^ d_scale D a"

text \<open>The comparison operators of \<open>Decimal\<close>, all derived from \<open>Ord::cmp\<close>.\<close>

definition d_lt :: "('d, 'm) decimal_api_scheme \<Rightarrow> 'd \<Rightarrow> 'd \<Rightarrow> bool" where
  "d_lt D a b \<longleftrightarrow> d_cmp D a b = Less"

definition d_gt :: "('d, 'm) decimal_api_scheme \<Rightarrow> 'd \<Rightarrow> 'd \<Rightarrow> bool" where
  "d_gt D a b \<longleftrightarrow> d_cmp D a b = Greater"

definition d_ge :: "('d, 'm) decimal_api_scheme \<Rightarrow> 'd \<Rightarrow> 'd \<Rightarrow> bool" where
  "d_ge D a b \<longleftrightarrow> d_cmp D a b \<noteq> Less"

definition d_eq :: "('d, 'm) decimal_api_scheme \<Rightarrow> 'd \<Rightarrow> 'd \<Rightarrow> bool" where
  "d_eq D a b \<longleftrightarrow> d_cmp D a b = Equal"

section \<open>The contracts\<close>

definition decimal_chars :: "str" where
  "decimal_chars = lit ''-.0123456789''"

lemma decimal_chars_eq: "decimal_chars = [45, 46, 48, 49, 50, 51, 52, 53, 54, 55, 56, 57]"
  by code_simp

locale rust_decimal =
  fixes D :: "('d, 'm) decimal_api_scheme"
  assumes cmp_val: "d_cmp D a b =
      (if dval D a < dval D b then Less else if dval D a = dval D b then Equal else Greater)"
    and normalize_val: "dval D (d_normalize D a) = dval D a"
    and normalize_least: "dval D a * 10 ^ n \<in> \<int> \<Longrightarrow> d_scale D (d_normalize D a) \<le> n"
    and abs_val: "dval D (d_abs D a) = \<bar>dval D a\<bar>"
    and neg_val: "dval D (d_neg D a) = - dval D a"
    and neg_scale: "d_scale D (d_neg D a) = d_scale D a"
    and add_exact: "\<bar>dval D a + dval D b\<bar> * 10 ^ max (d_scale D a) (d_scale D b) < 2 ^ 96 \<Longrightarrow>
      \<exists>c. d_add D a b = Some c \<and> dval D c = dval D a + dval D b \<and>
          d_scale D c \<le> max (d_scale D a) (d_scale D b)"
    and sub_exact: "\<bar>dval D a - dval D b\<bar> * 10 ^ max (d_scale D a) (d_scale D b) < 2 ^ 96 \<Longrightarrow>
      \<exists>c. d_sub D a b = Some c \<and> dval D c = dval D a - dval D b \<and>
          d_scale D c \<le> max (d_scale D a) (d_scale D b)"
    and zero_val: "dval D (d_zero D) = 0"
    and zero_scale: "d_scale D (d_zero D) = 0"
    and from_i64_val: "- (2 ^ 63) \<le> i \<Longrightarrow> i < 2 ^ 63 \<Longrightarrow> dval D (d_from_i64 D i) = of_int i"
    and to_string_chars: "set (d_to_string D a) \<subseteq> set decimal_chars"
    and to_string_normalize:
      "d_to_string D (d_normalize D a) = d_to_string D (d_normalize D b) \<longleftrightarrow> dval D a = dval D b"
    and of_numeric_val: "\<bar>u\<bar> < 10 ^ 20 \<Longrightarrow> dval D (d_of_numeric D u) = of_int u / 10 ^ 8"
begin

lemma lt_val: "d_lt D a b \<longleftrightarrow> dval D a < dval D b"
  by (simp add: d_lt_def cmp_val)

lemma gt_val: "d_gt D a b \<longleftrightarrow> dval D b < dval D a"
  by (auto simp: d_gt_def cmp_val)

lemma ge_val: "d_ge D a b \<longleftrightarrow> dval D b \<le> dval D a"
  by (auto simp: d_ge_def cmp_val)

lemma eq_val: "d_eq D a b \<longleftrightarrow> dval D a = dval D b"
  by (simp add: d_eq_def cmp_val)

lemmas vals = lt_val gt_val ge_val eq_val normalize_val abs_val neg_val zero_val

lemma val_multiple: "d_scale D a \<le> n \<Longrightarrow> dval D a * 10 ^ n \<in> \<int>"
proof -
  assume "d_scale D a \<le> n"
  then have "dval D a * 10 ^ n = of_int (d_mantissa D a * 10 ^ (n - d_scale D a))"
    by (simp add: dval_def field_simps flip: power_add)
  then show ?thesis
    using Ints_of_int by metis
qed

lemma normalize_scale_iff: "d_scale D (d_normalize D a) \<le> n \<longleftrightarrow> dval D a * 10 ^ n \<in> \<int>"
  using normalize_least val_multiple [of "d_normalize D a" n] normalize_val by auto

end

text \<open>
  All three crates together. \<open>Sha256\<close> returns 32 bytes; \<open>Uuid::as_bytes\<close> is the 16 byte form
  of the value.
\<close>

locale crate_contracts = rust_decimal C for C :: "'d crates" +
  assumes sha256_length: "length (sha256 C bs) = 32"
    and uuid_bytes_length: "length (uuid_bytes C u) = 16"
    and uuid_bytes_inj: "uuid_bytes C u = uuid_bytes C v \<Longrightarrow> u = v"

section \<open>An implementation of the contracts\<close>

datatype rdec = RDec (rd_mantissa: int) (rd_scale: nat)

primrec rd_strip :: "nat \<Rightarrow> int \<Rightarrow> rdec" where
  "rd_strip 0 m = RDec m 0"
| "rd_strip (Suc s) m = (if m mod 10 = 0 then rd_strip s (m div 10) else RDec m (Suc s))"

definition rd_normalize :: "rdec \<Rightarrow> rdec" where
  "rd_normalize a = rd_strip (rd_scale a) (rd_mantissa a)"

definition rd_at :: "nat \<Rightarrow> rdec \<Rightarrow> int" where
  "rd_at k a = rd_mantissa a * 10 ^ (k - rd_scale a)"

definition rd_fit :: "int \<Rightarrow> nat \<Rightarrow> rdec option" where
  "rd_fit m s = (if \<bar>m\<bar> < 2 ^ 96 then Some (RDec m s) else None)"

definition rd_add :: "rdec \<Rightarrow> rdec \<Rightarrow> rdec option" where
  "rd_add a b = (let k = max (rd_scale a) (rd_scale b) in rd_fit (rd_at k a + rd_at k b) k)"

definition rd_sub :: "rdec \<Rightarrow> rdec \<Rightarrow> rdec option" where
  "rd_sub a b = (let k = max (rd_scale a) (rd_scale b) in rd_fit (rd_at k a - rd_at k b) k)"

definition rd_cmp :: "rdec \<Rightarrow> rdec \<Rightarrow> ordering" where
  "rd_cmp a b = (let k = max (rd_scale a) (rd_scale b) in
     if rd_at k a < rd_at k b then Less else if rd_at k a = rd_at k b then Equal else Greater)"

definition rd_to_string :: "rdec \<Rightarrow> str" where
  "rd_to_string a =
     (let m = nat \<bar>rd_mantissa a\<bar>; s = rd_scale a in
      (if rd_mantissa a < 0 then [45] else []) @ nat_digits (m div 10 ^ s) @
      (if s = 0 then [] else 46 # frac_digits s (m mod 10 ^ s)))"

definition mix_bytes :: "byte list \<Rightarrow> nat" where
  "mix_bytes bs = foldl (\<lambda>h b. (h * 257 + unat b + 1) mod 2 ^ 256) 0 bs"

definition mix256 :: "byte list \<Rightarrow> byte list" where
  "mix256 bs = (let h = mix_bytes bs in map (\<lambda>i. of_nat (h div 256 ^ i)) (rev [0..<32]))"

definition be_bytes :: "uuid \<Rightarrow> byte list" where
  "be_bytes u = map (\<lambda>i. ucast (drop_bit (8 * i) u)) (rev [0..<16])"

text \<open>The hyphenated form of a UUID: 32 lower case hexadecimal digits in groups of 8, 4, 4, 4 and 12.\<close>

primrec hex_digits :: "nat \<Rightarrow> nat \<Rightarrow> str" where
  "hex_digits 0 n = []"
| "hex_digits (Suc k) n = hex_digits k (n div 16) @ [if n mod 16 < 10 then 48 + n mod 16 else 87 + n mod 16]"

definition hyphenated :: "uuid \<Rightarrow> str" where
  "hyphenated u =
     (let h = hex_digits 32 (unat u) in
      take 8 h @ 45 # take 4 (drop 8 h) @ 45 # take 4 (drop 12 h) @ 45 # take 4 (drop 16 h) @ 45 # drop 20 h)"

definition ref_crates :: "rdec crates" where
  "ref_crates = \<lparr>
     d_mantissa = rd_mantissa, d_scale = rd_scale, d_normalize = rd_normalize,
     d_abs = (\<lambda>a. RDec \<bar>rd_mantissa a\<bar> (rd_scale a)),
     d_neg = (\<lambda>a. RDec (- rd_mantissa a) (rd_scale a)),
     d_add = rd_add, d_sub = rd_sub, d_cmp = rd_cmp,
     d_zero = RDec 0 0, d_from_i64 = (\<lambda>i. RDec i 0),
     d_to_string = rd_to_string, d_of_numeric = (\<lambda>u. RDec u 8),
     sha256 = mix256, uuid_bytes = be_bytes, uuid_to_string = hyphenated,
     sqlx_to_string = (\<lambda>e. case e of SqlxOther s \<Rightarrow> s | SqlxDatabase _ _ \<Rightarrow> [])\<rparr>"

lemma ref_crates_simps [simp]:
  "d_mantissa ref_crates = rd_mantissa" "d_scale ref_crates = rd_scale"
  "d_normalize ref_crates = rd_normalize" "d_abs ref_crates a = RDec \<bar>rd_mantissa a\<bar> (rd_scale a)"
  "d_neg ref_crates a = RDec (- rd_mantissa a) (rd_scale a)" "d_add ref_crates = rd_add"
  "d_sub ref_crates = rd_sub" "d_cmp ref_crates = rd_cmp" "d_zero ref_crates = RDec 0 0"
  "d_from_i64 ref_crates i = RDec i 0" "d_to_string ref_crates = rd_to_string"
  "d_of_numeric ref_crates i = RDec i 8"
  "sha256 ref_crates = mix256" "uuid_bytes ref_crates = be_bytes"
  "uuid_to_string ref_crates = hyphenated"
  by (simp_all add: ref_crates_def)

lemma dval_ref: "dval ref_crates a = of_int (rd_mantissa a) / 10 ^ rd_scale a"
  by (simp add: dval_def)

subsection \<open>Arithmetic\<close>

lemma rd_at_val: "rd_scale a \<le> k \<Longrightarrow> of_int (rd_at k a) = dval ref_crates a * 10 ^ k"
  by (simp add: rd_at_def dval_ref field_simps flip: power_add)

lemma rd_strip_val: "dval ref_crates (rd_strip s m) = of_int m / 10 ^ s"
proof (induction s arbitrary: m)
  case 0
  show ?case by (simp add: dval_ref)
next
  case (Suc s)
  show ?case
  proof (cases "m mod 10 = 0")
    case True
    then have "of_int m = (10::rat) * of_int (m div 10)"
      by (metis add.right_neutral mult_div_mod_eq of_int_mult of_int_numeral)
    with True Suc show ?thesis by simp
  qed (simp add: dval_ref)
qed

lemma rd_strip_least:
  "of_int m / 10 ^ s * 10 ^ n \<in> (\<int> :: rat set) \<Longrightarrow> rd_scale (rd_strip s m) \<le> n"
proof (induction s arbitrary: m)
  case 0
  show ?case by simp
next
  case (Suc s)
  show ?case
  proof (cases "m mod 10 = 0")
    case True
    then have "of_int m = (10::rat) * of_int (m div 10)"
      by (metis add.right_neutral mult_div_mod_eq of_int_mult of_int_numeral)
    with True Suc show ?thesis by simp
  next
    case False
    have "Suc s \<le> n"
    proof (rule ccontr)
      assume "\<not> Suc s \<le> n"
      then obtain d where d: "Suc s = n + Suc d"
        by (metis add_Suc_right less_imp_Suc_add not_le)
      from Suc.prems obtain k where "of_int m / 10 ^ Suc s * 10 ^ n = (of_int k :: rat)"
        by (auto elim: Ints_cases)
      then have "of_int m = (of_int (k * 10 ^ Suc d) :: rat)"
        unfolding d by (simp add: field_simps power_add)
      then have "m = k * 10 ^ Suc d"
        using of_int_eq_iff by blast
      with False show False by simp
    qed
    with False show ?thesis by simp
  qed
qed

lemma rd_cmp_val: "rd_cmp a b =
    (if dval ref_crates a < dval ref_crates b then Less
     else if dval ref_crates a = dval ref_crates b then Equal else Greater)"
proof -
  define k where "k = max (rd_scale a) (rd_scale b)"
  have "of_int (rd_at k a) = dval ref_crates a * 10 ^ k"
    "of_int (rd_at k b) = dval ref_crates b * 10 ^ k"
    by (simp_all add: k_def rd_at_val)
  then have "rd_at k a < rd_at k b \<longleftrightarrow> dval ref_crates a < dval ref_crates b"
    "rd_at k a = rd_at k b \<longleftrightarrow> dval ref_crates a = dval ref_crates b"
    by (metis mult_less_cancel_right_pos of_int_less_iff zero_less_power zero_less_numeral)
       (metis \<open>of_int (rd_at k a) = _\<close> \<open>of_int (rd_at k b) = _\<close> mult_right_cancel of_int_eq_iff
         power_eq_0_iff zero_neq_numeral)
  then show ?thesis
    by (simp add: rd_cmp_def k_def [symmetric] Let_def)
qed

lemma rd_fit_val:
  assumes "of_int m = v * 10 ^ k" and "\<bar>v\<bar> * 10 ^ k < 2 ^ 96"
  shows "\<exists>c. rd_fit m k = Some c \<and> dval ref_crates c = v \<and> rd_scale c \<le> k"
proof -
  have "of_int \<bar>m\<bar> < (of_int (2 ^ 96) :: rat)"
    using assms by (simp add: abs_mult)
  then have "\<bar>m\<bar> < 2 ^ 96"
    using of_int_less_iff by blast
  with assms(1) show ?thesis
    by (simp add: rd_fit_def dval_ref)
qed

lemma rd_add_exact:
  assumes "\<bar>dval ref_crates a + dval ref_crates b\<bar> * 10 ^ max (rd_scale a) (rd_scale b) < 2 ^ 96"
  shows "\<exists>c. rd_add a b = Some c \<and> dval ref_crates c = dval ref_crates a + dval ref_crates b \<and>
    rd_scale c \<le> max (rd_scale a) (rd_scale b)"
  unfolding rd_add_def Let_def
  by (rule rd_fit_val [OF _ assms]) (simp add: rd_at_val algebra_simps)

lemma rd_sub_exact:
  assumes "\<bar>dval ref_crates a - dval ref_crates b\<bar> * 10 ^ max (rd_scale a) (rd_scale b) < 2 ^ 96"
  shows "\<exists>c. rd_sub a b = Some c \<and> dval ref_crates c = dval ref_crates a - dval ref_crates b \<and>
    rd_scale c \<le> max (rd_scale a) (rd_scale b)"
  unfolding rd_sub_def Let_def
  by (rule rd_fit_val [OF _ assms]) (simp add: rd_at_val algebra_simps)

subsection \<open>Rendering\<close>

text \<open>What a reader recovers from a rendering: the digits, the number of decimals, the sign.\<close>

definition digit_step :: "nat \<Rightarrow> nat \<Rightarrow> nat" where
  "digit_step h c = (if 48 \<le> c then 10 * h + (c - 48) else h)"

definition read_digits :: "nat \<Rightarrow> str \<Rightarrow> nat" where
  "read_digits = foldl digit_step"

lemma read_digits_append [simp]: "read_digits h (s @ t) = read_digits (read_digits h s) t"
  by (simp add: read_digits_def)

lemma read_digits_Cons [simp]: "read_digits h (c # s) = read_digits (digit_step h c) s"
  by (simp add: read_digits_def)

lemma read_digits_Nil [simp]: "read_digits h [] = h"
  by (simp add: read_digits_def)

lemma read_nat_digits: "read_digits 0 (nat_digits n) = n"
proof (induction n rule: nat_digits.induct)
  case (1 n)
  then show ?case
    by (subst nat_digits.simps) (auto simp: digit_step_def)
qed

lemma read_frac_digits: "n < 10 ^ k \<Longrightarrow> read_digits h (frac_digits k n) = h * 10 ^ k + n"
proof (induction k arbitrary: n)
  case 0
  then show ?case by simp
next
  case (Suc k)
  then have "n div 10 < 10 ^ k"
    by (simp add: less_mult_imp_div_less mult.commute)
  with Suc.IH show ?case
    by (simp add: digit_step_def algebra_simps)
qed

lemma set_nat_digits: "set (nat_digits n) \<subseteq> {48..57}"
proof (induction n rule: nat_digits.induct)
  case (1 n)
  then show ?case
    by (subst nat_digits.simps) auto
qed

lemma set_frac_digits: "set (frac_digits k n) \<subseteq> {48..57}"
  by (induction k arbitrary: n) auto

lemma length_frac_digits [simp]: "length (frac_digits k n) = k"
  by (induction k arbitrary: n) auto

lemma nat_digits_not_Nil [simp]: "nat_digits n \<noteq> []"
  by (subst nat_digits.simps) simp

lemma dropWhile_all: "\<forall>x \<in> set xs. P x \<Longrightarrow> dropWhile P (xs @ ys) = dropWhile P ys"
  by (induction xs) auto

lemma rd_to_string_digits: "read_digits 0 (rd_to_string a) = nat \<bar>rd_mantissa a\<bar>"
proof -
  define m s where "m = nat \<bar>rd_mantissa a\<bar>" and "s = rd_scale a"
  have "read_digits h (46 # frac_digits s (m mod 10 ^ s)) = h * 10 ^ s + m mod 10 ^ s" for h
    by (simp add: digit_step_def read_frac_digits)
  moreover have "m div 10 ^ s * 10 ^ s + m mod 10 ^ s = m"
    by (rule div_mult_mod_eq)
  ultimately have "read_digits 0 (rd_to_string a) = m"
    unfolding rd_to_string_def m_def [symmetric] s_def [symmetric] Let_def
    by (simp add: digit_step_def read_nat_digits)
  then show ?thesis by (simp add: m_def)
qed

lemma rd_to_string_decimals: "length (dropWhile (\<lambda>c. c \<noteq> 46) (rd_to_string a)) - 1 = rd_scale a"
proof -
  let ?m = "nat \<bar>rd_mantissa a\<bar>" and ?s = "rd_scale a"
  have "\<forall>c \<in> set (nat_digits (?m div 10 ^ ?s)). c \<noteq> 46"
    using set_nat_digits by fastforce
  then have "dropWhile (\<lambda>c. c \<noteq> 46) (nat_digits (?m div 10 ^ ?s) @ ys) =
      dropWhile (\<lambda>c. c \<noteq> 46) ys" for ys
    by (rule dropWhile_all)
  from this [of "[]"] this show ?thesis
    by (auto simp: rd_to_string_def Let_def)
qed

lemma rd_to_string_sign: "hd (rd_to_string a) = 45 \<longleftrightarrow> rd_mantissa a < 0"
proof -
  have "hd (nat_digits n) \<noteq> 45" for n
    using set_nat_digits [of n] hd_in_set [OF nat_digits_not_Nil, of n] by fastforce
  then show ?thesis
    by (simp add: rd_to_string_def Let_def)
qed

lemma rd_to_string_inj: "rd_to_string a = rd_to_string b \<Longrightarrow> a = b"
proof -
  assume eq: "rd_to_string a = rd_to_string b"
  have "nat \<bar>rd_mantissa a\<bar> = nat \<bar>rd_mantissa b\<bar>" "rd_scale a = rd_scale b"
    "rd_mantissa a < 0 \<longleftrightarrow> rd_mantissa b < 0"
    using rd_to_string_digits rd_to_string_decimals rd_to_string_sign eq by metis+
  then show "a = b"
    by (intro rdec.expand) auto
qed

lemma rd_to_string_chars: "set (rd_to_string a) \<subseteq> set decimal_chars"
proof -
  note chars = decimal_chars_eq
  have digits: "c \<in> set decimal_chars" if "48 \<le> c" "c \<le> 57" for c
    using that unfolding chars by simp presburger
  have "c \<in> set decimal_chars" if "c \<in> set (nat_digits n) \<or> c \<in> set (frac_digits k n)" for c n k
    using that set_nat_digits [of n] set_frac_digits [of k n] by (fastforce intro: digits)
  moreover have "45 \<in> set decimal_chars" "46 \<in> set decimal_chars"
    by (simp_all add: chars)
  ultimately show ?thesis
    by (auto simp: rd_to_string_def Let_def)
qed

lemma rd_normalize_val: "dval ref_crates (rd_normalize a) = dval ref_crates a"
  by (simp add: rd_normalize_def rd_strip_val) (simp add: dval_ref)

lemma rd_normalize_least: "dval ref_crates a * 10 ^ n \<in> \<int> \<Longrightarrow> rd_scale (rd_normalize a) \<le> n"
  by (simp add: rd_normalize_def dval_ref rd_strip_least)

lemma rd_normalize_eq_iff:
  "rd_normalize a = rd_normalize b \<longleftrightarrow> dval ref_crates a = dval ref_crates b"
proof
  assume "rd_normalize a = rd_normalize b"
  then show "dval ref_crates a = dval ref_crates b"
    using rd_normalize_val by metis
next
  assume eq: "dval ref_crates a = dval ref_crates b"
  let ?a = "rd_normalize a" and ?b = "rd_normalize b"
  have mult: "dval ref_crates c * 10 ^ rd_scale (rd_normalize c) \<in> \<int>" for c
    by (subst rd_normalize_val [symmetric]) (simp add: dval_ref)
  have scale: "rd_scale ?a = rd_scale ?b"
    using mult [of a] mult [of b] rd_normalize_least eq by (metis le_antisym)
  have "dval ref_crates ?a = dval ref_crates ?b"
    using eq by (simp add: rd_normalize_val)
  with scale have "rd_mantissa ?a = rd_mantissa ?b"
    by (simp add: dval_ref)
  with scale show "?a = ?b"
    by (intro rdec.expand) simp
qed

subsection \<open>Identifiers and digests\<close>

lemma be_bytes_inj:
  assumes "be_bytes u = be_bytes v"
  shows "u = v"
proof (rule bit_word_eqI)
  fix n assume "n < LENGTH(128)"
  then have "n div 8 \<in> set (rev [0..<16])" and eq: "8 * (n div 8) + n mod 8 = n"
    by auto
  then have "(ucast (drop_bit (8 * (n div 8)) u) :: byte) = ucast (drop_bit (8 * (n div 8)) v)"
    using assms unfolding be_bytes_def map_eq_conv by blast
  then have "bit (ucast (drop_bit (8 * (n div 8)) u) :: byte) (n mod 8) =
      bit (ucast (drop_bit (8 * (n div 8)) v) :: byte) (n mod 8)"
    by simp
  then show "bit u n = bit v n"
    by (simp add: bit_ucast_iff bit_drop_bit_eq eq)
qed

text \<open>Reading the digits back.\<close>

definition read_hex :: "nat \<Rightarrow> str \<Rightarrow> nat" where
  "read_hex = foldl (\<lambda>h c. if c = 45 then h else 16 * h + (if c < 87 then c - 48 else c - 87))"

lemma read_hex_append [simp]: "read_hex h (s @ t) = read_hex (read_hex h s) t"
  by (simp add: read_hex_def)

lemma read_hex_Cons [simp]:
  "read_hex h (c # s) = read_hex (if c = 45 then h else 16 * h + (if c < 87 then c - 48 else c - 87)) s"
  by (simp add: read_hex_def)

lemma read_hex_Nil [simp]: "read_hex h [] = h"
  by (simp add: read_hex_def)

lemma read_hex_digits: "n < 16 ^ k \<Longrightarrow> read_hex h (hex_digits k n) = h * 16 ^ k + n"
proof (induction k arbitrary: n)
  case (Suc k)
  then have "n div 16 < 16 ^ k"
    by (simp add: less_mult_imp_div_less mult.commute)
  then have "read_hex h (hex_digits (Suc k) n) = 16 * (h * 16 ^ k + n div 16) + n mod 16"
    using Suc.IH by simp
  then show ?case by (simp add: algebra_simps)
qed simp

lemma read_hex_hyphenated: "read_hex 0 (hyphenated u) = unat u"
proof -
  define h where "h = hex_digits 32 (unat u)"
  have "read_hex 0 (hyphenated u) = read_hex 0 (take 8 h @ take 4 (drop 8 h) @ take 4 (drop 12 h) @ take 4 (drop 16 h) @ drop 20 h)"
    by (simp add: hyphenated_def h_def [symmetric] Let_def)
  also have "take 8 h @ take 4 (drop 8 h) @ take 4 (drop 12 h) @ take 4 (drop 16 h) @ drop 20 h = h"
    using append_take_drop_id [of 8 h] append_take_drop_id [of 4 "drop 8 h"]
      append_take_drop_id [of 4 "drop 12 h"] append_take_drop_id [of 4 "drop 16 h"]
    by simp
  also have "read_hex 0 h = unat u"
    using read_hex_digits [of "unat u" 32 0] unsigned_less [of u] by (simp add: h_def)
  finally show ?thesis .
qed

interpretation ref: crate_contracts ref_crates
proof unfold_locales
  fix a b :: rdec
  show "d_to_string ref_crates (d_normalize ref_crates a) =
      d_to_string ref_crates (d_normalize ref_crates b) \<longleftrightarrow> dval ref_crates a = dval ref_crates b"
    using rd_to_string_inj rd_normalize_eq_iff by (auto simp: rd_normalize_eq_iff [symmetric])
qed (simp_all add: rd_cmp_val rd_normalize_val rd_normalize_least rd_add_exact rd_sub_exact
    rd_to_string_chars mix256_def be_bytes_inj,
    simp_all add: dval_ref be_bytes_def)

end
