(* ===== verification/Money.thy ===== *)
theory Money
  imports Crates
begin

text \<open>
  \<open>src/domain/money.rs\<close>: currencies validated against the ISO 4217 table, amounts that the
  \<open>NUMERIC(20, 8)\<close> columns can store exactly, and arithmetic that refuses to mix currencies.
  The lemmas give \<open>Money::new\<close> its specification (it accepts exactly the storable values, with
  the value unchanged), the checked operations theirs (no panic, no wrong number), the currency
  lookup its (the binary search decides membership in the table), and show that the canonical
  text is a complete invariant of value and currency.
\<close>

section \<open>Slice search of the standard library\<close>

text \<open>\<open>slice::binary_search_by\<close>: the loop keeps a window of \<open>len\<close> elements from \<open>base\<close>.\<close>

function search_window :: "('a \<Rightarrow> ordering) \<Rightarrow> 'a list \<Rightarrow> nat \<Rightarrow> nat \<Rightarrow> nat" where
  "search_window f xs base len =
     (if 1 < len then
        let half = len div 2; mid = base + half in
        search_window f xs (if f (xs ! mid) = Greater then base else mid) (len - half)
      else base)"
  by pat_completeness auto
termination
  by (relation "measure (\<lambda>(f, xs, base, len). len)") auto

declare search_window.simps [simp del]

definition binary_search_by :: "('a \<Rightarrow> ordering) \<Rightarrow> 'a list \<Rightarrow> (nat, nat) result" where
  "binary_search_by f xs =
     (if xs = [] then Err 0
      else let base = search_window f xs 0 (length xs); c = f (xs ! base) in
           if c = Equal then Ok base else Err (base + (if c = Less then 1 else 0)))"

definition str_cmp :: "str \<Rightarrow> str \<Rightarrow> ordering" where
  "str_cmp s t = (if utf8 s < utf8 t then Less else if utf8 s = utf8 t then Equal else Greater)"

definition binary_search :: "str list \<Rightarrow> str \<Rightarrow> (nat, nat) result" where
  "binary_search xs x = binary_search_by (\<lambda>p. str_cmp p x) xs"

section \<open>Currencies\<close>

definition MAX_SCALE :: nat where
  "MAX_SCALE = 8"

definition MAX_INTEGER_DIGITS :: nat where
  "MAX_INTEGER_DIGITS = 12"

definition max_magnitude :: "('d, 'm) decimal_api_scheme \<Rightarrow> 'd" where
  "max_magnitude D = d_from_i64 D 1000000000000"

datatype currency = Currency (as_str: str)

datatype money_error =
    TooManyDecimalPlaces nat
  | MagnitudeTooLarge
  | CurrencyMismatch currency currency
  | UnknownCurrency str

definition ISO_4217 :: "str list" where
  "ISO_4217 = map lit [
    ''AED'', ''AFN'', ''ALL'', ''AMD'', ''ANG'', ''AOA'', ''ARS'', ''AUD'', ''AWG'', ''AZN'', ''BAM'', ''BBD'', ''BDT'',
    ''BGN'', ''BHD'', ''BIF'', ''BMD'', ''BND'', ''BOB'', ''BOV'', ''BRL'', ''BSD'', ''BTN'', ''BWP'', ''BYN'', ''BZD'',
    ''CAD'', ''CDF'', ''CHE'', ''CHF'', ''CHW'', ''CLF'', ''CLP'', ''CNY'', ''COP'', ''COU'', ''CRC'', ''CUP'', ''CVE'',
    ''CZK'', ''DJF'', ''DKK'', ''DOP'', ''DZD'', ''EGP'', ''ERN'', ''ETB'', ''EUR'', ''FJD'', ''FKP'', ''GBP'', ''GEL'',
    ''GHS'', ''GIP'', ''GMD'', ''GNF'', ''GTQ'', ''GYD'', ''HKD'', ''HNL'', ''HTG'', ''HUF'', ''IDR'', ''ILS'', ''INR'',
    ''IQD'', ''IRR'', ''ISK'', ''JMD'', ''JOD'', ''JPY'', ''KES'', ''KGS'', ''KHR'', ''KMF'', ''KPW'', ''KRW'', ''KWD'',
    ''KYD'', ''KZT'', ''LAK'', ''LBP'', ''LKR'', ''LRD'', ''LSL'', ''LYD'', ''MAD'', ''MDL'', ''MGA'', ''MKD'', ''MMK'',
    ''MNT'', ''MOP'', ''MRU'', ''MUR'', ''MVR'', ''MWK'', ''MXN'', ''MXV'', ''MYR'', ''MZN'', ''NAD'', ''NGN'', ''NIO'',
    ''NOK'', ''NPR'', ''NZD'', ''OMR'', ''PAB'', ''PEN'', ''PGK'', ''PHP'', ''PKR'', ''PLN'', ''PYG'', ''QAR'', ''RON'',
    ''RSD'', ''RUB'', ''RWF'', ''SAR'', ''SBD'', ''SCR'', ''SDG'', ''SEK'', ''SGD'', ''SHP'', ''SLE'', ''SOS'', ''SRD'',
    ''SSP'', ''STN'', ''SVC'', ''SYP'', ''SZL'', ''THB'', ''TJS'', ''TMT'', ''TND'', ''TOP'', ''TRY'', ''TTD'', ''TWD'',
    ''TZS'', ''UAH'', ''UGX'', ''USD'', ''USN'', ''UYI'', ''UYU'', ''UYW'', ''UZS'', ''VED'', ''VES'', ''VND'', ''VUV'',
    ''WST'', ''XAF'', ''XAG'', ''XAU'', ''XBA'', ''XBB'', ''XBC'', ''XBD'', ''XCD'', ''XCG'', ''XDR'', ''XOF'', ''XPD'',
    ''XPF'', ''XPT'', ''XSU'', ''XTS'', ''XUA'', ''XXX'', ''YER'', ''ZAR'', ''ZMW'', ''ZWG'']"

definition currency_try_from :: "str \<Rightarrow> (money_error, currency) result" where
  "currency_try_from value =
     (case binary_search ISO_4217 value of
        Ok _ \<Rightarrow> Ok (Currency value)
      | _ \<Rightarrow> Err (UnknownCurrency value))"

definition currency_from_str :: "str \<Rightarrow> (money_error, currency) result" where
  "currency_from_str s = currency_try_from s"

definition currency_to_string :: "currency \<Rightarrow> str" where
  "currency_to_string c = as_str c"

section \<open>Amounts\<close>

record 'd money =
  m_amount :: 'd
  m_currency :: currency

text \<open>
  \<open>Money::new\<close> calls itself on the normalized amount, whose scale is then within bounds, so the
  second call does not recur.
\<close>

function money_new ::
  "('d, 'm) decimal_api_scheme \<Rightarrow> 'd \<Rightarrow> currency \<Rightarrow> (money_error, 'd money) result" where
  "money_new D amount cur =
     (if d_scale D amount > MAX_SCALE then
        let normalized = d_normalize D amount in
        if d_scale D normalized > MAX_SCALE
        then Err (TooManyDecimalPlaces (d_scale D normalized))
        else money_new D normalized cur
      else if d_ge D (d_abs D amount) (max_magnitude D) then Err MagnitudeTooLarge
      else Ok \<lparr>m_amount = amount, m_currency = cur\<rparr>)"
  by pat_completeness auto
termination
  by (relation "measure (\<lambda>(D, amount, cur). if d_scale D amount > MAX_SCALE then 1 else 0)") auto

declare money_new.simps [simp del]

definition money_zero :: "('d, 'm) decimal_api_scheme \<Rightarrow> currency \<Rightarrow> 'd money" where
  "money_zero D cur = \<lparr>m_amount = d_zero D, m_currency = cur\<rparr>"

definition is_positive :: "('d, 'm) decimal_api_scheme \<Rightarrow> 'd money \<Rightarrow> bool" where
  "is_positive D m \<longleftrightarrow> d_gt D (m_amount m) (d_zero D)"

definition is_negative :: "('d, 'm) decimal_api_scheme \<Rightarrow> 'd money \<Rightarrow> bool" where
  "is_negative D m \<longleftrightarrow> d_lt D (m_amount m) (d_zero D)"

definition require_same_currency :: "'d money \<Rightarrow> 'd money \<Rightarrow> (money_error, unit) result" where
  "require_same_currency a b =
     (if m_currency a = m_currency b then Ok ()
      else Err (CurrencyMismatch (m_currency a) (m_currency b)))"

definition checked_add ::
  "('d, 'm) decimal_api_scheme \<Rightarrow> 'd money \<Rightarrow> 'd money \<Rightarrow> (money_error, 'd money) result" where
  "checked_add D a b =
     and_then (require_same_currency a b) (\<lambda>_.
     and_then (ok_or_panic (d_add D (m_amount a) (m_amount b))) (\<lambda>s.
     money_new D s (m_currency a)))"

definition checked_sub ::
  "('d, 'm) decimal_api_scheme \<Rightarrow> 'd money \<Rightarrow> 'd money \<Rightarrow> (money_error, 'd money) result" where
  "checked_sub D a b =
     and_then (require_same_currency a b) (\<lambda>_.
     and_then (ok_or_panic (d_sub D (m_amount a) (m_amount b))) (\<lambda>s.
     money_new D s (m_currency a)))"

definition checked_lt ::
  "('d, 'm) decimal_api_scheme \<Rightarrow> 'd money \<Rightarrow> 'd money \<Rightarrow> (money_error, bool) result" where
  "checked_lt D a b =
     and_then (require_same_currency a b) (\<lambda>_. Ok (d_lt D (m_amount a) (m_amount b)))"

definition canonical :: "('d, 'm) decimal_api_scheme \<Rightarrow> 'd money \<Rightarrow> str" where
  "canonical D m =
     d_to_string D (d_normalize D (m_amount m)) @ lit '' '' @ currency_to_string (m_currency m)"

definition money_to_string :: "('d, 'm) decimal_api_scheme \<Rightarrow> 'd money \<Rightarrow> str" where
  "money_to_string D m =
     d_to_string D (m_amount m) @ lit '' '' @ currency_to_string (m_currency m)"

section \<open>What the columns store\<close>

text \<open>
  A \<open>NUMERIC(20, 8)\<close> column holds a whole number of units of \<open>10 ^ -8\<close>, below \<open>10 ^ 20\<close> in
  magnitude. Assigning a value rounds it half away from zero, and an overflow is an error
  (\<open>None\<close>).
\<close>

definition numeric_20_8 :: "rat \<Rightarrow> int option" where
  "numeric_20_8 x =
     (let units = (if x < 0 then - \<lfloor>- x * 10 ^ 8 + 1 / 2\<rfloor> else \<lfloor>x * 10 ^ 8 + 1 / 2\<rfloor>) in
      if \<bar>units\<bar> < 10 ^ 20 then Some units else None)"

definition storable :: "rat \<Rightarrow> bool" where
  "storable x \<longleftrightarrow> x * 10 ^ 8 \<in> \<int> \<and> \<bar>x\<bar> < 10 ^ 12"

definition units :: "rat \<Rightarrow> int" where
  "units x = \<lfloor>x * 10 ^ 8\<rfloor>"

definition money_ok :: "('d, 'm) decimal_api_scheme \<Rightarrow> 'd money \<Rightarrow> bool" where
  "money_ok D m \<longleftrightarrow> d_scale D (m_amount m) \<le> MAX_SCALE \<and> \<bar>dval D (m_amount m)\<bar> < 10 ^ 12"

section \<open>The currency table\<close>

lemma search_window_bounds:
  "1 \<le> len \<Longrightarrow> base \<le> search_window f xs base len \<and> search_window f xs base len < base + len"
proof (induction f xs base len rule: search_window.induct)
  case (1 f xs base len)
  show ?case
  proof (cases "1 < len")
    case True
    let ?mid = "base + len div 2"
    let ?base = "if f (xs ! ?mid) = Greater then base else ?mid"
    have "?base \<le> search_window f xs ?base (len - len div 2) \<and>
        search_window f xs ?base (len - len div 2) < ?base + (len - len div 2)"
      using "1.IH" True by simp
    moreover have "search_window f xs base len = search_window f xs ?base (len - len div 2)"
      using True by (simp add: search_window.simps [of f xs base len] Let_def)
    moreover have "base \<le> ?base" "?base + (len - len div 2) \<le> base + len"
      by auto
    ultimately show ?thesis by linarith
  next
    case False
    with "1.prems" show ?thesis by (simp add: search_window.simps [of f xs base len])
  qed
qed

lemma search_window_hit:
  assumes below: "\<And>j. j < i \<Longrightarrow> f (xs ! j) = Less" and at: "f (xs ! i) = Equal"
    and above: "\<And>j. i < j \<Longrightarrow> j < length xs \<Longrightarrow> f (xs ! j) = Greater"
  shows "base \<le> i \<Longrightarrow> i < base + len \<Longrightarrow> base + len \<le> length xs \<Longrightarrow>
    search_window f xs base len = i"
proof (induction len arbitrary: base rule: less_induct)
  case (less len)
  show ?case
  proof (cases "1 < len")
    case False
    with less.prems show ?thesis
      by (simp add: search_window.simps [of f xs base len])
  next
    case True
    let ?mid = "base + len div 2"
    let ?base = "if f (xs ! ?mid) = Greater then base else ?mid"
    have mid: "?mid < length xs"
      using True less.prems by linarith
    have "f (xs ! ?mid) = Greater \<longleftrightarrow> i < ?mid"
      using below [of ?mid] at above [of ?mid] mid
      by (metis linorder_neqE_nat ordering.distinct(3,5) ordering.distinct(6))
    then have "?base \<le> i" "i < ?base + (len - len div 2)" "?base + (len - len div 2) \<le> length xs"
      using less.prems by (auto simp: not_less)
    then have "search_window f xs ?base (len - len div 2) = i"
      using True less.IH by simp
    with True show ?thesis
      by (simp add: search_window.simps [of f xs base len] Let_def)
  qed
qed

lemma binary_search_iff:
  assumes "successively (<) (map utf8 xs)"
  shows "(\<exists>i. binary_search xs x = Ok i) \<longleftrightarrow> utf8 x \<in> utf8 ` set xs"
proof
  assume "\<exists>i. binary_search xs x = Ok i"
  then obtain i where i: "i = search_window (\<lambda>p. str_cmp p x) xs 0 (length xs)" "xs \<noteq> []"
    "str_cmp (xs ! i) x = Equal"
    by (auto simp: binary_search_def binary_search_by_def Let_def split: if_splits)
  then have "i < length xs"
    using search_window_bounds [of "length xs" 0] by (simp add: Suc_leI)
  moreover have "utf8 (xs ! i) = utf8 x"
    using i(3) by (simp add: str_cmp_def split: if_splits)
  ultimately show "utf8 x \<in> utf8 ` set xs"
    by (metis image_eqI nth_mem)
next
  assume "utf8 x \<in> utf8 ` set xs"
  then obtain i where i: "i < length xs" "utf8 (xs ! i) = utf8 x"
    by (metis imageE in_set_conv_nth)
  have sorted: "sorted_wrt (<) (map utf8 xs)"
    using assms by (simp add: successively_conv_sorted_wrt)
  let ?f = "\<lambda>p. str_cmp p x"
  have "search_window ?f xs 0 (length xs) = i"
  proof (rule search_window_hit)
    fix j
    show "j < i \<Longrightarrow> ?f (xs ! j) = Less"
      using sorted_wrt_nth_less [OF sorted, of j i] i by (simp add: str_cmp_def)
    show "i < j \<Longrightarrow> j < length xs \<Longrightarrow> ?f (xs ! j) = Greater"
      using sorted_wrt_nth_less [OF sorted, of i j] i by (auto simp: str_cmp_def)
  qed (use i in \<open>auto simp: str_cmp_def\<close>)
  then have "binary_search xs x = Ok i"
    using i by (auto simp: binary_search_def binary_search_by_def Let_def str_cmp_def)
  then show "\<exists>i. binary_search xs x = Ok i" ..
qed

lemma ISO_4217_ascending: "successively (<) (map utf8 ISO_4217)"
  unfolding ISO_4217_def by code_simp

lemma ISO_4217_shape: "list_all (\<lambda>s. length s = 3 \<and> list_all (\<lambda>c. 65 \<le> c \<and> c \<le> 90) s) ISO_4217"
  unfolding ISO_4217_def by code_simp

lemma ISO_4217_valid: "s \<in> set ISO_4217 \<Longrightarrow> valid_str s"
  using ISO_4217_shape by (fastforce simp: list_all_iff is_scalar_def)

lemma currency_try_from_eq:
  assumes "valid_str s"
  shows "currency_try_from s = (if s \<in> set ISO_4217 then Ok (Currency s) else Err (UnknownCurrency s))"
proof -
  have "utf8 s \<in> utf8 ` set ISO_4217 \<longleftrightarrow> s \<in> set ISO_4217"
    using ISO_4217_valid utf8_inj assms by blast
  then have "(\<exists>i. binary_search ISO_4217 s = Ok i) \<longleftrightarrow> s \<in> set ISO_4217"
    using binary_search_iff [OF ISO_4217_ascending, of s] by simp
  then show ?thesis
    by (cases "binary_search ISO_4217 s") (auto simp: currency_try_from_def)
qed

section \<open>Storable values\<close>

lemma units_exact: "x * 10 ^ 8 \<in> \<int> \<Longrightarrow> of_int (units x) = x * 10 ^ 8"
  by (auto simp: units_def elim!: Ints_cases)

lemma storable_units: "storable x \<Longrightarrow> \<bar>units x\<bar> < 10 ^ 20"
proof -
  assume st: "storable x"
  then have "of_int \<bar>units x\<bar> = \<bar>x\<bar> * 10 ^ 8"
    by (simp add: storable_def units_exact abs_mult)
  also have "\<dots> < 10 ^ 12 * 10 ^ 8"
    using st by (simp add: storable_def)
  finally have "of_int \<bar>units x\<bar> < (of_int (10 ^ 20) :: rat)"
    by simp
  then show ?thesis
    using of_int_less_iff by blast
qed

lemma floor_half: "\<lfloor>(of_int n :: rat) + 1 / 2\<rfloor> = n"
  by (simp add: floor_unique)

lemma numeric_20_8_storable:
  assumes "storable x"
  shows "numeric_20_8 x = Some (units x)"
proof -
  have u: "x * 10 ^ 8 = of_int (units x)"
    using assms by (simp add: storable_def units_exact)
  then have "- x * 10 ^ 8 = of_int (- units x)"
    by simp
  with u have "(if x < 0 then - \<lfloor>- x * 10 ^ 8 + 1 / 2\<rfloor> else \<lfloor>x * 10 ^ 8 + 1 / 2\<rfloor>) = units x"
    by (simp only: floor_half) simp
  then show ?thesis
    using storable_units [OF assms] by (simp add: numeric_20_8_def Let_def)
qed

lemma units_storable: "\<bar>u\<bar> < 10 ^ 20 \<Longrightarrow> storable (of_int u / 10 ^ 8 :: rat)"
proof -
  assume "\<bar>u\<bar> < 10 ^ 20"
  then have "of_int \<bar>u\<bar> < (of_int (10 ^ 20) :: rat)"
    using of_int_less_iff by blast
  then show ?thesis
    by (simp add: storable_def field_simps)
qed

lemma numeric_20_8_of_units:
  "numeric_20_8 (of_int n / 10 ^ 8) = (if \<bar>n\<bar> < 10 ^ 20 then Some n else None)"
proof -
  have "of_int n / 10 ^ 8 * 10 ^ 8 = (of_int n :: rat)"
    "- (of_int n / 10 ^ 8) * 10 ^ 8 = (of_int (- n) :: rat)"
    by simp_all
  then show ?thesis
    unfolding numeric_20_8_def Let_def by (simp only: floor_half minus_minus if_cancel)
qed

lemma numeric_20_8_exact_iff:
  "(\<exists>u. numeric_20_8 x = Some u \<and> of_int u / 10 ^ 8 = x) \<longleftrightarrow> storable x"
proof
  assume "storable x"
  then show "\<exists>u. numeric_20_8 x = Some u \<and> of_int u / 10 ^ 8 = x"
    by (auto simp: numeric_20_8_storable units_exact storable_def)
next
  assume "\<exists>u. numeric_20_8 x = Some u \<and> of_int u / 10 ^ 8 = x"
  then obtain u where u: "x = of_int u / 10 ^ 8" "\<bar>u\<bar> < 10 ^ 20"
    by (metis numeric_20_8_of_units option.distinct(1))
  show "storable x"
    unfolding u(1) by (rule units_storable [OF u(2)])
qed

section \<open>Amounts over the decimal contract\<close>

context rust_decimal
begin

lemma max_magnitude_val: "dval D (max_magnitude D) = 10 ^ 12"
  by (simp add: max_magnitude_def from_i64_val)

lemma too_large_iff: "d_ge D (d_abs D a) (max_magnitude D) \<longleftrightarrow> 10 ^ 12 \<le> \<bar>dval D a\<bar>"
  by (simp only: ge_val abs_val max_magnitude_val)

text \<open>\<open>Money::new\<close> on every input, in terms of the value alone.\<close>

lemma money_new_spec:
  "money_new D a c =
     (if dval D a * 10 ^ 8 \<notin> \<int> then Err (TooManyDecimalPlaces (d_scale D (d_normalize D a)))
      else if 10 ^ 12 \<le> \<bar>dval D a\<bar> then Err MagnitudeTooLarge
      else Ok \<lparr>m_amount = (if d_scale D a \<le> 8 then a else d_normalize D a), m_currency = c\<rparr>)"
proof -
  have small: "money_new D b c =
      (if 10 ^ 12 \<le> \<bar>dval D b\<bar> then Err MagnitudeTooLarge
       else Ok \<lparr>m_amount = b, m_currency = c\<rparr>)" if "d_scale D b \<le> 8" for b
    using that by (subst money_new.simps) (simp add: MAX_SCALE_def too_large_iff)
  show ?thesis
  proof (cases "d_scale D a \<le> 8")
    case True
    then show ?thesis
      using val_multiple [of a 8] small by simp
  next
    case False
    then show ?thesis
      using small [of "d_normalize D a"] normalize_scale_iff [of a 8]
      by (subst money_new.simps) (auto simp: MAX_SCALE_def Let_def normalize_val not_le)
  qed
qed

lemma money_new_Ok_iff:
  "(\<exists>m. money_new D a c = Ok m) \<longleftrightarrow> storable (dval D a)"
  by (auto simp: money_new_spec storable_def)

lemma money_new_OkD:
  assumes "money_new D a c = Ok m"
  shows "dval D (m_amount m) = dval D a" and "m_currency m = c" and "money_ok D m"
  using assms normalize_scale_iff [of a 8]
  by (auto simp: money_new_spec money_ok_def MAX_SCALE_def normalize_val split: if_splits)

lemma money_new_not_Panic: "money_new D a c \<noteq> Panic"
  by (simp add: money_new_spec)

lemma money_ok_storable: "money_ok D m \<Longrightarrow> storable (dval D (m_amount m))"
  using val_multiple [of "m_amount m" 8] by (simp add: money_ok_def storable_def MAX_SCALE_def)

lemma money_ok_new: "money_ok D m \<Longrightarrow> money_new D (m_amount m) (m_currency m) = Ok m"
  using money_ok_storable [of m]
  by (simp add: money_new_spec storable_def money_ok_def MAX_SCALE_def)

text \<open>Two amounts in range add up inside the 96-bit mantissa, so the operators never panic.\<close>

lemma fits_mantissa:
  assumes "money_ok D a" "money_ok D b" "\<bar>v\<bar> \<le> \<bar>dval D (m_amount a)\<bar> + \<bar>dval D (m_amount b)\<bar>"
  shows "\<bar>v\<bar> * 10 ^ max (d_scale D (m_amount a)) (d_scale D (m_amount b)) < 2 ^ 96"
proof -
  have "\<bar>v\<bar> < 2 * 10 ^ 12"
    using assms by (simp add: money_ok_def)
  moreover have "(10::rat) ^ max (d_scale D (m_amount a)) (d_scale D (m_amount b)) \<le> 10 ^ 8"
    using assms by (intro power_increasing) (auto simp: money_ok_def MAX_SCALE_def)
  ultimately have "\<bar>v\<bar> * 10 ^ max (d_scale D (m_amount a)) (d_scale D (m_amount b))
      \<le> (2 * 10 ^ 12) * 10 ^ 8"
    by (intro mult_mono) auto
  then show ?thesis by simp
qed

lemma checked_add_spec:
  assumes "money_ok D a" and "money_ok D b"
  shows "m_currency a \<noteq> m_currency b \<Longrightarrow>
      checked_add D a b = Err (CurrencyMismatch (m_currency a) (m_currency b))"
    and "m_currency a = m_currency b \<Longrightarrow>
      10 ^ 12 \<le> \<bar>dval D (m_amount a) + dval D (m_amount b)\<bar> \<Longrightarrow>
      checked_add D a b = Err MagnitudeTooLarge"
    and "m_currency a = m_currency b \<Longrightarrow>
      \<bar>dval D (m_amount a) + dval D (m_amount b)\<bar> < 10 ^ 12 \<Longrightarrow>
      \<exists>m. checked_add D a b = Ok m \<and> money_ok D m \<and> m_currency m = m_currency a \<and>
          dval D (m_amount m) = dval D (m_amount a) + dval D (m_amount b)"
proof -
  show "m_currency a \<noteq> m_currency b \<Longrightarrow>
      checked_add D a b = Err (CurrencyMismatch (m_currency a) (m_currency b))"
    by (simp add: checked_add_def require_same_currency_def)
  obtain s where s: "d_add D (m_amount a) (m_amount b) = Some s"
    "dval D s = dval D (m_amount a) + dval D (m_amount b)" "d_scale D s \<le> 8"
    using add_exact [OF fits_mantissa [OF assms abs_triangle_ineq]] assms
    by (auto simp: money_ok_def MAX_SCALE_def)
  then show "m_currency a = m_currency b \<Longrightarrow>
      10 ^ 12 \<le> \<bar>dval D (m_amount a) + dval D (m_amount b)\<bar> \<Longrightarrow>
      checked_add D a b = Err MagnitudeTooLarge"
    and "m_currency a = m_currency b \<Longrightarrow>
      \<bar>dval D (m_amount a) + dval D (m_amount b)\<bar> < 10 ^ 12 \<Longrightarrow>
      \<exists>m. checked_add D a b = Ok m \<and> money_ok D m \<and> m_currency m = m_currency a \<and>
          dval D (m_amount m) = dval D (m_amount a) + dval D (m_amount b)"
    using val_multiple [of s 8]
    by (auto simp: checked_add_def require_same_currency_def money_new_spec money_ok_def MAX_SCALE_def)
qed

lemma checked_sub_spec:
  assumes "money_ok D a" and "money_ok D b"
  shows "m_currency a \<noteq> m_currency b \<Longrightarrow>
      checked_sub D a b = Err (CurrencyMismatch (m_currency a) (m_currency b))"
    and "m_currency a = m_currency b \<Longrightarrow>
      10 ^ 12 \<le> \<bar>dval D (m_amount a) - dval D (m_amount b)\<bar> \<Longrightarrow>
      checked_sub D a b = Err MagnitudeTooLarge"
    and "m_currency a = m_currency b \<Longrightarrow>
      \<bar>dval D (m_amount a) - dval D (m_amount b)\<bar> < 10 ^ 12 \<Longrightarrow>
      \<exists>m. checked_sub D a b = Ok m \<and> money_ok D m \<and> m_currency m = m_currency a \<and>
          dval D (m_amount m) = dval D (m_amount a) - dval D (m_amount b)"
proof -
  show "m_currency a \<noteq> m_currency b \<Longrightarrow>
      checked_sub D a b = Err (CurrencyMismatch (m_currency a) (m_currency b))"
    by (simp add: checked_sub_def require_same_currency_def)
  obtain s where s: "d_sub D (m_amount a) (m_amount b) = Some s"
    "dval D s = dval D (m_amount a) - dval D (m_amount b)" "d_scale D s \<le> 8"
    using sub_exact [OF fits_mantissa [OF assms abs_triangle_ineq4]] assms
    by (auto simp: money_ok_def MAX_SCALE_def)
  then show "m_currency a = m_currency b \<Longrightarrow>
      10 ^ 12 \<le> \<bar>dval D (m_amount a) - dval D (m_amount b)\<bar> \<Longrightarrow>
      checked_sub D a b = Err MagnitudeTooLarge"
    and "m_currency a = m_currency b \<Longrightarrow>
      \<bar>dval D (m_amount a) - dval D (m_amount b)\<bar> < 10 ^ 12 \<Longrightarrow>
      \<exists>m. checked_sub D a b = Ok m \<and> money_ok D m \<and> m_currency m = m_currency a \<and>
          dval D (m_amount m) = dval D (m_amount a) - dval D (m_amount b)"
    using val_multiple [of s 8]
    by (auto simp: checked_sub_def require_same_currency_def money_new_spec money_ok_def MAX_SCALE_def)
qed

text \<open>The separator of the canonical text does not occur in a rendered number.\<close>

lemma to_string_no_space: "32 \<notin> set (d_to_string D a)"
proof -
  have "32 \<notin> set decimal_chars"
    by (simp add: decimal_chars_eq)
  then show ?thesis
    using to_string_chars by blast
qed

lemma canonical_eq_iff:
  "canonical D a = canonical D b \<longleftrightarrow>
     dval D (m_amount a) = dval D (m_amount b) \<and> m_currency a = m_currency b"
proof -
  let ?n = "\<lambda>m. d_to_string D (d_normalize D (m_amount m))" and ?c = "\<lambda>m. as_str (m_currency m)"
  have "lit '' '' = [32]"
    by code_simp
  then have "canonical D a = canonical D b \<longleftrightarrow> ?n a @ 32 # ?c a = ?n b @ 32 # ?c b"
    by (simp add: canonical_def currency_to_string_def)
  also have "\<dots> \<longleftrightarrow> ?n a = ?n b \<and> ?c a = ?c b"
    using append_separator_inj [OF to_string_no_space to_string_no_space] by metis
  also have "\<dots> \<longleftrightarrow> dval D (m_amount a) = dval D (m_amount b) \<and> m_currency a = m_currency b"
    by (simp only: to_string_normalize currency.expand) (metis currency.expand)
  finally show ?thesis .
qed

end

section \<open>Properties\<close>

text \<open>
  C20: \<open>Money::new\<close> accepts an amount exactly when a \<open>NUMERIC(20, 8)\<close> column stores it without
  rounding or overflow; it never panics, and what it accepts keeps its value and its currency.
\<close>

theorem money_new_exact:
  assumes "rust_decimal D"
  shows "((\<exists>m. money_new D a c = Ok m) \<longleftrightarrow>
      (\<exists>u. numeric_20_8 (dval D a) = Some u \<and> of_int u / 10 ^ 8 = dval D a)) \<and>
    money_new D a c \<noteq> Panic \<and>
    (\<forall>m. money_new D a c = Ok m \<longrightarrow>
      dval D (m_amount m) = dval D a \<and> m_currency m = c \<and> d_scale D (m_amount m) \<le> MAX_SCALE)"
  using rust_decimal.money_new_Ok_iff [OF assms] rust_decimal.money_new_OkD [OF assms]
    rust_decimal.money_new_not_Panic [OF assms] numeric_20_8_exact_iff
  by (auto simp: money_ok_def)

theorem money_new_exact_witness:
  "(\<exists>m. money_new ref_crates (RDec 12345000000000 14) (Currency (lit ''EUR'')) = Ok m) \<longleftrightarrow>
     (\<exists>u. numeric_20_8 (dval ref_crates (RDec 12345000000000 14)) = Some u \<and>
        of_int u / 10 ^ 8 = dval ref_crates (RDec 12345000000000 14))"
  using money_new_exact [OF ref.rust_decimal_axioms,
      of "RDec 12345000000000 14" "Currency (lit ''EUR'')"] by blast

text \<open>
  What \<open>Money::new\<close> reports when it refuses: the significant decimals of an amount with more
  than eight of them, and otherwise a magnitude of \<open>10 ^ 12\<close> or more; trailing zeros are no reason
  to refuse.
\<close>

lemma money_new_errors:
  assumes "rust_decimal D"
  shows "money_new D a c = Err e \<longleftrightarrow>
    (if dval D a * 10 ^ MAX_SCALE \<notin> \<int> then e = TooManyDecimalPlaces (d_scale D (d_normalize D a))
     else 10 ^ MAX_INTEGER_DIGITS \<le> \<bar>dval D a\<bar> \<and> e = MagnitudeTooLarge)"
  using rust_decimal.money_new_spec [OF assms, of a c]
  by (auto simp: MAX_SCALE_def MAX_INTEGER_DIGITS_def)

lemma money_new_errors_example:
  "money_new ref_crates (RDec 1000000000000 0) (Currency (lit ''EUR'')) = Err MagnitudeTooLarge"
  using money_new_errors [OF ref.rust_decimal_axioms, of "RDec 1000000000000 0"]
  by (simp add: dval_ref MAX_INTEGER_DIGITS_def)

text \<open>
  C38: adding two valid amounts never panics. It refuses different currencies, and in one currency
  it returns the exact sum or reports that the sum does not fit.
\<close>

theorem checked_add_exact:
  assumes "rust_decimal D" and "money_ok D a" and "money_ok D b"
  shows "case checked_add D a b of
      Panic \<Rightarrow> False
    | Err e \<Rightarrow>
        (if m_currency a \<noteq> m_currency b then e = CurrencyMismatch (m_currency a) (m_currency b)
         else 10 ^ 12 \<le> \<bar>dval D (m_amount a) + dval D (m_amount b)\<bar> \<and> e = MagnitudeTooLarge)
    | Ok m \<Rightarrow> m_currency a = m_currency b \<and> money_ok D m \<and> m_currency m = m_currency a \<and>
        dval D (m_amount m) = dval D (m_amount a) + dval D (m_amount b)"
  using rust_decimal.checked_add_spec [OF assms]
  by (cases "m_currency a = m_currency b";
      cases "10 ^ 12 \<le> \<bar>dval D (m_amount a) + dval D (m_amount b)\<bar>")
     (auto simp: not_le)

theorem checked_add_exact_witness:
  "case checked_add ref_crates \<lparr>m_amount = RDec 99999999999999999999 8, m_currency = Currency (lit ''EUR'')\<rparr>
     \<lparr>m_amount = RDec 1 8, m_currency = Currency (lit ''EUR'')\<rparr> of
     Panic \<Rightarrow> False | Err e \<Rightarrow> e = MagnitudeTooLarge | Ok m \<Rightarrow> False"
  using checked_add_exact [OF ref.rust_decimal_axioms,
      of "\<lparr>m_amount = RDec 99999999999999999999 8, m_currency = Currency (lit ''EUR'')\<rparr>"
         "\<lparr>m_amount = RDec 1 8, m_currency = Currency (lit ''EUR'')\<rparr>"]
  by (auto simp: money_ok_def dval_ref [of "RDec n k" for n k] MAX_SCALE_def split: result.splits)

text \<open>Subtraction of valid amounts is exact or refused, like addition.\<close>

lemma checked_sub_exact:
  assumes "rust_decimal D" and "money_ok D a" and "money_ok D b"
  shows "case checked_sub D a b of
      Panic \<Rightarrow> False
    | Err e \<Rightarrow>
        (if m_currency a \<noteq> m_currency b then e = CurrencyMismatch (m_currency a) (m_currency b)
         else 10 ^ 12 \<le> \<bar>dval D (m_amount a) - dval D (m_amount b)\<bar> \<and> e = MagnitudeTooLarge)
    | Ok m \<Rightarrow> m_currency a = m_currency b \<and> money_ok D m \<and> m_currency m = m_currency a \<and>
        dval D (m_amount m) = dval D (m_amount a) - dval D (m_amount b)"
  using rust_decimal.checked_sub_spec [OF assms]
  by (cases "m_currency a = m_currency b";
      cases "10 ^ 12 \<le> \<bar>dval D (m_amount a) - dval D (m_amount b)\<bar>")
     (auto simp: not_le)

lemma checked_sub_exact_example:
  "case checked_sub ref_crates \<lparr>m_amount = RDec 30 2, m_currency = Currency (lit ''EUR'')\<rparr>
     \<lparr>m_amount = RDec 1 1, m_currency = Currency (lit ''EUR'')\<rparr> of
     Panic \<Rightarrow> False | Err e \<Rightarrow> False | Ok m \<Rightarrow> dval ref_crates (m_amount m) = 1 / 5"
  using checked_sub_exact [OF ref.rust_decimal_axioms,
      of "\<lparr>m_amount = RDec 30 2, m_currency = Currency (lit ''EUR'')\<rparr>"
         "\<lparr>m_amount = RDec 1 1, m_currency = Currency (lit ''EUR'')\<rparr>"]
  by (auto simp: money_ok_def dval_ref [of "RDec n k" for n k] MAX_SCALE_def split: result.splits)

text \<open>
  A currency is accepted exactly when its code is in the table, byte for byte (so lower case,
  padding and unknown codes are refused), and the refusal names the offending text: the binary
  search over the table decides membership.
\<close>

lemma currency_lookup:
  assumes "valid_str s"
  shows "currency_from_str s =
    (if s \<in> set ISO_4217 then Ok (Currency s) else Err (UnknownCurrency s))"
  using currency_try_from_eq [OF assms] by (simp add: currency_from_str_def)

lemma currency_lookup_example:
  "currency_from_str (lit ''USD'') = Ok (Currency (lit ''USD''))"
proof -
  have "valid_str (lit ''USD'')"
    by (simp add: lit_def is_scalar_def)
  moreover have "lit ''USD'' \<in> set ISO_4217"
    by (simp add: ISO_4217_def)
  ultimately show ?thesis
    using currency_lookup [of "lit ''USD''"] by simp
qed

text \<open>
  The canonical text of two amounts is equal exactly when value and currency are: \<open>10.5\<close> and
  \<open>10.50\<close> agree, and no two different amounts ever do.
\<close>

lemma canonical_complete:
  assumes "rust_decimal D"
  shows "canonical D a = canonical D b \<longleftrightarrow>
    dval D (m_amount a) = dval D (m_amount b) \<and> m_currency a = m_currency b"
  by (rule rust_decimal.canonical_eq_iff [OF assms])

lemma canonical_complete_example:
  "canonical ref_crates \<lparr>m_amount = RDec 105 1, m_currency = Currency (lit ''EUR'')\<rparr> =
   canonical ref_crates \<lparr>m_amount = RDec 1050 2, m_currency = Currency (lit ''EUR'')\<rparr>"
  using canonical_complete [OF ref.rust_decimal_axioms] by (simp add: dval_ref)

end
