(* ===== verification/Domain.thy ===== *)
theory Domain
  imports Money
begin

text \<open>
  \<open>src/domain/mod.rs\<close>: accounts, entries, transactions, the in-memory balance check of a
  transaction, and the fingerprint of a transfer request. The lemmas show what the balance check
  decides and that it cannot panic, and that the bytes fed to the hash determine the request.
\<close>

section \<open>The shape of the ledger\<close>

type_synonym timestamp = int

datatype direction = Debit | Credit

fun signed :: "('d, 'm) decimal_api_scheme \<Rightarrow> direction \<Rightarrow> 'd \<Rightarrow> 'd" where
  "signed D Debit amount = amount"
| "signed D Credit amount = d_neg D amount"

record 'd account =
  account_id :: uuid
  account_name :: str
  account_balance :: "'d money"
  account_allows_negative_balance :: bool
  account_created_at :: timestamp

definition account_currency :: "'d account \<Rightarrow> currency" where
  "account_currency a = m_currency (account_balance a)"

record 'd entry =
  entry_id :: uuid
  entry_transaction_id :: uuid
  entry_account_id :: uuid
  entry_direction :: direction
  entry_amount :: "'d money"
  entry_created_at :: timestamp

definition signed_amount :: "('d, 'm) decimal_api_scheme \<Rightarrow> 'd entry \<Rightarrow> 'd" where
  "signed_amount D e = signed D (entry_direction e) (m_amount (entry_amount e))"

record transaction =
  txn_id :: uuid
  txn_idempotency_key :: str
  txn_description :: str
  txn_created_at :: timestamp

record 'd transaction_detail =
  td_transaction :: transaction
  td_entries :: "'d entry list"

text \<open>\<open>Iterator::sum::<Decimal>()\<close> folds the panicking addition from zero.\<close>

fun decimal_sum :: "('d, 'm) decimal_api_scheme \<Rightarrow> 'd \<Rightarrow> 'd list \<Rightarrow> (money_error, 'd) result" where
  "decimal_sum D acc [] = Ok acc"
| "decimal_sum D acc (x # xs) =
     and_then (ok_or_panic (d_add D acc x)) (\<lambda>s. decimal_sum D s xs)"

definition is_balanced ::
  "('d, 'm) decimal_api_scheme \<Rightarrow> 'd transaction_detail \<Rightarrow> (money_error, bool) result" where
  "is_balanced D td =
     (case td_entries td of
        e0 # e1 # es \<Rightarrow>
          if \<forall>e \<in> set (td_entries td). m_currency (entry_amount e) = m_currency (entry_amount e0)
          then and_then (decimal_sum D (d_zero D) (map (signed_amount D) (td_entries td)))
                 (\<lambda>s. Ok (d_eq D s (d_zero D)))
          else Ok False
      | _ \<Rightarrow> Ok False)"

section \<open>Transfer requests\<close>

record 'd transfer_intent =
  from_account_id :: uuid
  to_account_id :: uuid
  intent_amount :: "'d money"
  intent_description :: str

datatype transfer_outcome = Created | Replayed

definition newline :: string where
  "newline = [CHR 0x0A]"

text \<open>The concatenation of everything passed to \<open>hasher.update\<close>.\<close>

definition request_payload :: "'d crates \<Rightarrow> 'd transfer_intent \<Rightarrow> byte list" where
  "request_payload C i =
     bstr (''ledger-rs/transfer/v1'' @ newline) @
     bstr ''from='' @ uuid_bytes C (from_account_id i) @
     bstr (newline @ ''to='') @ uuid_bytes C (to_account_id i) @
     bstr (newline @ ''amount='') @ utf8 (canonical C (intent_amount i)) @
     bstr (newline @ ''description='') @ utf8 (intent_description i) @
     bstr newline"

definition request_hash :: "'d crates \<Rightarrow> 'd transfer_intent \<Rightarrow> byte list" where
  "request_hash C i = sha256 C (request_payload C i)"

text \<open>Two requests ask for the same thing: same accounts, same money, same description.\<close>

definition same_request :: "'d crates \<Rightarrow> 'd transfer_intent \<Rightarrow> 'd transfer_intent \<Rightarrow> bool" where
  "same_request C i j \<longleftrightarrow>
     from_account_id i = from_account_id j \<and> to_account_id i = to_account_id j \<and>
     dval C (m_amount (intent_amount i)) = dval C (m_amount (intent_amount j)) \<and>
     m_currency (intent_amount i) = m_currency (intent_amount j) \<and>
     intent_description i = intent_description j"

definition well_formed_intent :: "'d crates \<Rightarrow> 'd transfer_intent \<Rightarrow> bool" where
  "well_formed_intent C i \<longleftrightarrow>
     money_ok C (intent_amount i) \<and> as_str (m_currency (intent_amount i)) \<in> set ISO_4217 \<and>
     valid_str (intent_description i)"

section \<open>The balance check\<close>

definition entry_value :: "('d, 'm) decimal_api_scheme \<Rightarrow> 'd entry \<Rightarrow> rat" where
  "entry_value D e =
     (case entry_direction e of Debit \<Rightarrow> dval D (m_amount (entry_amount e))
      | Credit \<Rightarrow> - dval D (m_amount (entry_amount e)))"

text \<open>What it means for postings to balance: at least two, one currency, net zero.\<close>

definition balanced_entries :: "('d, 'm) decimal_api_scheme \<Rightarrow> 'd entry list \<Rightarrow> bool" where
  "balanced_entries D es \<longleftrightarrow>
     2 \<le> length es \<and>
     (\<forall>e \<in> set es. \<forall>f \<in> set es. m_currency (entry_amount e) = m_currency (entry_amount f)) \<and>
     sum_list (map (entry_value D) es) = 0"

context rust_decimal
begin

lemma signed_amount_val: "dval D (signed_amount D e) = entry_value D e"
  by (cases "entry_direction e") (simp_all add: signed_amount_def entry_value_def neg_val)

lemma signed_amount_scale: "d_scale D (signed_amount D e) = d_scale D (m_amount (entry_amount e))"
  by (cases "entry_direction e") (simp_all add: signed_amount_def neg_scale)

lemma entry_value_bound: "money_ok D (entry_amount e) \<Longrightarrow> \<bar>entry_value D e\<bar> < 10 ^ 12"
  by (simp add: entry_value_def money_ok_def split: direction.split)

text \<open>Summing \<open>n\<close> amounts stays inside the mantissa as long as \<open>n \<le> 10 ^ 8\<close>.\<close>

lemma decimal_sum_exact:
  assumes "\<forall>e \<in> set es. money_ok D (entry_amount e)"
    and "d_scale D acc \<le> 8" and "\<bar>dval D acc\<bar> \<le> of_nat k * 10 ^ 12" and "k + length es \<le> 10 ^ 8"
  shows "\<exists>s. decimal_sum D acc (map (signed_amount D) es) = Ok s \<and>
    dval D s = dval D acc + sum_list (map (entry_value D) es)"
  using assms
proof (induction es arbitrary: acc k)
  case Nil
  then show ?case by simp
next
  case (Cons e es)
  let ?x = "signed_amount D e"
  have ok: "money_ok D (entry_amount e)"
    using Cons.prems(1) by simp
  have "\<bar>dval D acc + dval D ?x\<bar> \<le> \<bar>dval D acc\<bar> + \<bar>entry_value D e\<bar>"
    by (simp add: signed_amount_val)
  also have "\<dots> \<le> of_nat (Suc k) * 10 ^ 12"
    using Cons.prems(3) entry_value_bound [OF ok] by simp
  finally have bound: "\<bar>dval D acc + dval D ?x\<bar> \<le> of_nat (Suc k) * 10 ^ 12" .
  have sc: "max (d_scale D acc) (d_scale D ?x) \<le> 8"
    using Cons.prems(2) ok by (simp add: signed_amount_scale money_ok_def MAX_SCALE_def)
  have "Suc k \<le> 10 ^ 8"
    using Cons.prems(4) by simp
  then have "of_nat (Suc k) * 10 ^ 12 \<le> (10 ^ 8 * 10 ^ 12 :: rat)"
    by (simp only: of_nat_le_iff [symmetric, where 'a = rat]) simp
  moreover have "(10::rat) ^ max (d_scale D acc) (d_scale D ?x) \<le> 10 ^ 8"
    by (rule power_increasing [OF sc]) simp
  ultimately have "\<bar>dval D acc + dval D ?x\<bar> * 10 ^ max (d_scale D acc) (d_scale D ?x)
      \<le> (10 ^ 8 * 10 ^ 12) * 10 ^ 8"
    using bound by (intro mult_mono) auto
  then have "\<bar>dval D acc + dval D ?x\<bar> * 10 ^ max (d_scale D acc) (d_scale D ?x) < 2 ^ 96"
    by simp
  then obtain s where s: "d_add D acc ?x = Some s" "dval D s = dval D acc + dval D ?x"
    "d_scale D s \<le> 8"
    using add_exact sc by (meson order_trans)
  have "\<exists>t. decimal_sum D s (map (signed_amount D) es) = Ok t \<and>
      dval D t = dval D s + sum_list (map (entry_value D) es)"
    by (rule Cons.IH [where k = "Suc k"]) (use Cons.prems s bound in auto)
  with s show ?case
    by (auto simp: signed_amount_val add.assoc)
qed

lemma is_balanced_spec:
  assumes "\<forall>e \<in> set (td_entries td). money_ok D (entry_amount e)"
    and "length (td_entries td) \<le> 10 ^ 8"
  shows "is_balanced D td = Ok (balanced_entries D (td_entries td))"
proof (cases "2 \<le> length (td_entries td)")
  case False
  then show ?thesis
    by (auto simp: is_balanced_def balanced_entries_def split: list.split)
next
  case True
  then obtain e0 e1 es where es: "td_entries td = e0 # e1 # es"
    by (metis One_nat_def Suc_1 Suc_le_length_iff)
  obtain s where "decimal_sum D (d_zero D) (map (signed_amount D) (td_entries td)) = Ok s"
    and "dval D s = sum_list (map (entry_value D) (td_entries td))"
    using decimal_sum_exact [OF assms(1), of "d_zero D" 0] assms(2)
    by (auto simp: zero_scale zero_val)
  then show ?thesis
    by (auto simp: is_balanced_def balanced_entries_def es eq_val zero_val
        simp del: decimal_sum.simps list.map)
qed

end

section \<open>The request fingerprint\<close>

lemma newline_bytes: "bstr newline = [10]"
  by code_simp

lemma ISO_4217_no_newline: "s \<in> set ISO_4217 \<Longrightarrow> 10 \<notin> set s"
  using ISO_4217_shape by (fastforce simp: list_all_iff)

context crate_contracts
begin

lemma canonical_chars:
  assumes "as_str (m_currency m) \<in> set ISO_4217"
  shows "valid_str (canonical C m)" and "10 \<notin> set (canonical C m)"
proof -
  have chars: "\<forall>c \<in> set decimal_chars. is_scalar c \<and> c \<noteq> 10" "lit '' '' = [32]" "is_scalar 32"
    by (simp_all add: decimal_chars_eq is_scalar_def lit_def)
  then have number: "\<forall>c \<in> set (d_to_string C a). is_scalar c \<and> c \<noteq> 10" for a
    using to_string_chars by blast
  have "\<forall>c \<in> set (as_str (m_currency m)). is_scalar c \<and> c \<noteq> 10"
    using ISO_4217_valid [OF assms] ISO_4217_no_newline [OF assms] by (metis list_all_iff)
  with number chars have "\<forall>c \<in> set (canonical C m). is_scalar c \<and> c \<noteq> 10"
    by (auto simp: canonical_def currency_to_string_def)
  then show "valid_str (canonical C m)" "10 \<notin> set (canonical C m)"
    by (auto simp: list_all_iff)
qed

lemma canonical_no_newline_byte:
  assumes "as_str (m_currency m) \<in> set ISO_4217"
  shows "10 \<notin> set (utf8 (canonical C m))"
  using ascii_byte_in_utf8 [of "canonical C m" 10] canonical_chars [OF assms] by auto

lemma request_payload_eq_iff:
  assumes "well_formed_intent C i" and "well_formed_intent C j"
  shows "request_payload C i = request_payload C j \<longleftrightarrow> same_request C i j"
proof
  assume "same_request C i j"
  then show "request_payload C i = request_payload C j"
    using canonical_eq_iff [of "intent_amount i" "intent_amount j"]
    by (simp add: same_request_def request_payload_def)
next
  assume eq: "request_payload C i = request_payload C j"
  have wf: "as_str (m_currency (intent_amount i)) \<in> set ISO_4217"
    "as_str (m_currency (intent_amount j)) \<in> set ISO_4217"
    "valid_str (intent_description i)" "valid_str (intent_description j)"
    using assms by (simp_all add: well_formed_intent_def)
  have nl: "bstr (newline @ s) = 10 # bstr s" for s
    using newline_bytes by (simp add: bstr_def)
  have ids: "uuid_bytes C (from_account_id i) = uuid_bytes C (from_account_id j)"
    "uuid_bytes C (to_account_id i) = uuid_bytes C (to_account_id j)"
    and rest: "utf8 (canonical C (intent_amount i)) @ 10 # (bstr ''description='' @
        utf8 (intent_description i) @ bstr newline) =
      utf8 (canonical C (intent_amount j)) @ 10 # (bstr ''description='' @
        utf8 (intent_description j) @ bstr newline)"
    using eq by (auto simp: request_payload_def nl uuid_bytes_length)
  from append_separator_inj [OF canonical_no_newline_byte canonical_no_newline_byte rest, OF wf(1,2)]
  have "utf8 (canonical C (intent_amount i)) = utf8 (canonical C (intent_amount j))"
    "utf8 (intent_description i) = utf8 (intent_description j)"
    by auto
  then have "canonical C (intent_amount i) = canonical C (intent_amount j)"
    "intent_description i = intent_description j"
    using utf8_inj canonical_chars(1) wf by metis+
  with ids show "same_request C i j"
    by (simp add: same_request_def canonical_eq_iff uuid_bytes_inj)
qed

end

section \<open>Properties\<close>

text \<open>
  The in-memory balance check of a transaction decides exactly whether it has at least two
  postings in one currency that net to zero, and its summation cannot panic, for any number of
  valid postings up to \<open>10 ^ 8\<close>.
\<close>

lemma is_balanced_decides:
  assumes "rust_decimal D" and "\<forall>e \<in> set (td_entries td). money_ok D (entry_amount e)"
    and "length (td_entries td) \<le> 10 ^ 8"
  shows "is_balanced D td = Ok (balanced_entries D (td_entries td))"
  by (rule rust_decimal.is_balanced_spec [OF assms])

definition sample_entry :: "direction \<Rightarrow> int \<Rightarrow> rdec entry" where
  "sample_entry dir u =
     \<lparr>entry_id = 1, entry_transaction_id = 2, entry_account_id = 3, entry_direction = dir,
      entry_amount = \<lparr>m_amount = RDec u 8, m_currency = Currency (lit ''EUR'')\<rparr>,
      entry_created_at = 0\<rparr>"

definition sample_detail :: "rdec entry list \<Rightarrow> rdec transaction_detail" where
  "sample_detail es =
     \<lparr>td_transaction = \<lparr>txn_id = 2, txn_idempotency_key = lit ''k'', txn_description = [],
        txn_created_at = 0\<rparr>, td_entries = es\<rparr>"

lemma is_balanced_decides_example:
  "is_balanced ref_crates (sample_detail [sample_entry Credit 5, sample_entry Debit 5]) = Ok True \<and>
   is_balanced ref_crates (sample_detail [sample_entry Credit 5, sample_entry Debit 4]) = Ok False"
  using is_balanced_decides [OF ref.rust_decimal_axioms,
      of "sample_detail [sample_entry Credit 5, sample_entry Debit 5]"]
    is_balanced_decides [OF ref.rust_decimal_axioms,
      of "sample_detail [sample_entry Credit 5, sample_entry Debit 4]"]
  by (simp add: sample_detail_def sample_entry_def money_ok_def balanced_entries_def
      entry_value_def dval_ref MAX_SCALE_def)

text \<open>
  C19: the bytes fed to the request hash determine the request: two valid requests give the same
  bytes exactly when they name the same accounts, the same value and currency (however the amount
  is written) and the same description. No choice of description or amount can imitate another
  request across the field separators.
\<close>

theorem request_payload_faithful:
  assumes "crate_contracts C" and "well_formed_intent C i" and "well_formed_intent C j"
  shows "request_payload C i = request_payload C j \<longleftrightarrow> same_request C i j"
  by (rule crate_contracts.request_payload_eq_iff [OF assms])

definition sample_intent :: "rdec \<Rightarrow> str \<Rightarrow> rdec transfer_intent" where
  "sample_intent a descr =
     \<lparr>from_account_id = 1, to_account_id = 2,
      intent_amount = \<lparr>m_amount = a, m_currency = Currency (lit ''EUR'')\<rparr>,
      intent_description = descr\<rparr>"

theorem request_payload_faithful_witness:
  "request_payload ref_crates (sample_intent (RDec 105 1) []) =
     request_payload ref_crates (sample_intent (RDec 1050 2) []) \<and>
   request_payload ref_crates (sample_intent (RDec 105 1) []) \<noteq>
     request_payload ref_crates (sample_intent (RDec 105 2) [])"
proof -
  have "lit ''EUR'' \<in> set ISO_4217"
    by (simp add: ISO_4217_def)
  then have wf: "well_formed_intent ref_crates (sample_intent (RDec 105 1) [])"
    "well_formed_intent ref_crates (sample_intent (RDec 1050 2) [])"
    "well_formed_intent ref_crates (sample_intent (RDec 105 2) [])"
    by (simp_all add: well_formed_intent_def sample_intent_def money_ok_def dval_ref MAX_SCALE_def)
  show ?thesis
    using request_payload_faithful [OF ref.crate_contracts_axioms wf(1,2)]
      request_payload_faithful [OF ref.crate_contracts_axioms wf(1,3)]
    by (simp add: same_request_def sample_intent_def dval_ref)
qed

end
