(* ===== verification/Ledger_Error.thy ===== *)
theory Ledger_Error
  imports Domain
begin

text \<open>
  \<open>src/error.rs\<close>: the failure taxonomy, its mapping onto HTTP and the classification of database
  errors by SQLSTATE code and constraint name.
\<close>

section \<open>The taxonomy\<close>

datatype ledger_error =
    AccountNotFound uuid
  | TransactionNotFound uuid
  | InsufficientFunds uuid
  | AccountCurrencyMismatch uuid str str
  | SelfTransfer
  | NonPositiveAmount
  | FundingAccountCreationDisabled
  | MissingIdempotencyKey
  | IdempotencyKeyConflict str
  | Validation str
  | MoneyError money_error
  | Database sqlx_error

fun code :: "ledger_error \<Rightarrow> string" where
  "code (AccountNotFound _) = ''account_not_found''"
| "code (TransactionNotFound _) = ''transaction_not_found''"
| "code (InsufficientFunds _) = ''insufficient_funds''"
| "code (AccountCurrencyMismatch _ _ _) = ''currency_mismatch''"
| "code SelfTransfer = ''self_transfer''"
| "code NonPositiveAmount = ''non_positive_amount''"
| "code FundingAccountCreationDisabled = ''funding_account_creation_disabled''"
| "code MissingIdempotencyKey = ''missing_idempotency_key''"
| "code (IdempotencyKeyConflict _) = ''idempotency_key_conflict''"
| "code (Validation _) = ''validation_failed''"
| "code (MoneyError _) = ''invalid_amount''"
| "code (Database _) = ''internal_error''"

fun status :: "ledger_error \<Rightarrow> nat" where
  "status (AccountNotFound _) = 404"
| "status (TransactionNotFound _) = 404"
| "status MissingIdempotencyKey = 400"
| "status FundingAccountCreationDisabled = 403"
| "status (IdempotencyKeyConflict _) = 409"
| "status (InsufficientFunds _) = 422"
| "status (AccountCurrencyMismatch _ _ _) = 422"
| "status SelfTransfer = 422"
| "status NonPositiveAmount = 422"
| "status (Validation _) = 422"
| "status (MoneyError _) = 422"
| "status (Database _) = 500"

section \<open>Display and responses\<close>

fun money_error_to_string :: "money_error \<Rightarrow> str" where
  "money_error_to_string (TooManyDecimalPlaces scale) =
     lit ''amount has '' @ nat_digits scale @ lit '' decimal places but at most '' @
     nat_digits MAX_SCALE @ lit '' are representable; storing it would silently round''"
| "money_error_to_string MagnitudeTooLarge =
     lit ''amount magnitude exceeds the '' @ nat_digits MAX_INTEGER_DIGITS @
     lit '' integer digits available''"
| "money_error_to_string (CurrencyMismatch lhs rhs) =
     lit ''cannot combine '' @ currency_to_string lhs @ lit '' and '' @ currency_to_string rhs @
     lit '': amounts in different currencies are not comparable''"
| "money_error_to_string (UnknownCurrency s) =
     [39] @ s @ [39] @ lit '' is not a recognised ISO 4217 currency code''"

fun error_to_string :: "'d crates \<Rightarrow> ledger_error \<Rightarrow> str" where
  "error_to_string C (AccountNotFound i) =
     lit ''account '' @ uuid_to_string C i @ lit '' does not exist''"
| "error_to_string C (TransactionNotFound i) =
     lit ''transaction '' @ uuid_to_string C i @ lit '' does not exist''"
| "error_to_string C (InsufficientFunds i) =
     lit ''account '' @ uuid_to_string C i @ lit '' has insufficient funds for this transfer''"
| "error_to_string C (AccountCurrencyMismatch i acc_cur transfer_cur) =
     lit ''account '' @ uuid_to_string C i @ lit '' is denominated in '' @ acc_cur @
     lit '', but the transfer is in '' @ transfer_cur"
| "error_to_string C SelfTransfer =
     lit ''a transfer must move money between two different accounts''"
| "error_to_string C NonPositiveAmount = lit ''transfer amount must be greater than zero''"
| "error_to_string C FundingAccountCreationDisabled =
     lit (''opening an account exempt from the non-negative balance constraint is disabled; '' @
          ''it is an operator decision, not a caller'' @ [CHR 39] @ ''s'')"
| "error_to_string C MissingIdempotencyKey =
     lit ''the Idempotency-Key header is required for this endpoint''"
| "error_to_string C (IdempotencyKeyConflict key) =
     lit ''idempotency key '' @ [39] @ key @ [39] @ lit '' was already used with a different payload''"
| "error_to_string C (Validation s) = s"
| "error_to_string C (MoneyError e) = money_error_to_string e"
| "error_to_string C (Database e) = lit ''database error: '' @ sqlx_to_string C e"

record error_response =
  resp_status :: nat
  resp_code :: string
  resp_message :: str

definition error_into_response :: "'d crates \<Rightarrow> ledger_error \<Rightarrow> error_response" where
  "error_into_response C e =
     \<lparr>resp_status = status e, resp_code = code e,
      resp_message = (case e of Database _ \<Rightarrow> lit ''an internal error occurred''
                      | other \<Rightarrow> error_to_string C other)\<rparr>"

section \<open>Database errors\<close>

definition UNIQUE_VIOLATION :: string where "UNIQUE_VIOLATION = ''23505''"
definition CHECK_VIOLATION :: string where "CHECK_VIOLATION = ''23514''"
definition RESTRICT_VIOLATION :: string where "RESTRICT_VIOLATION = ''23001''"
definition FOREIGN_KEY_VIOLATION :: string where "FOREIGN_KEY_VIOLATION = ''23503''"
definition SERIALIZATION_FAILURE :: string where "SERIALIZATION_FAILURE = ''40001''"
definition DEADLOCK_DETECTED :: string where "DEADLOCK_DETECTED = ''40P01''"

lemmas sqlstate_defs = UNIQUE_VIOLATION_def CHECK_VIOLATION_def RESTRICT_VIOLATION_def
  FOREIGN_KEY_VIOLATION_def SERIALIZATION_FAILURE_def DEADLOCK_DETECTED_def

fun constraint_failure :: "sqlx_error \<Rightarrow> (string \<times> string option) option" where
  "constraint_failure (SqlxDatabase (Some c) constr) = Some (c, constr)"
| "constraint_failure (SqlxDatabase None constr) = None"
| "constraint_failure (SqlxOther _) = None"

definition is_idempotency_key_collision :: "sqlx_error \<Rightarrow> bool" where
  "is_idempotency_key_collision e =
     (case constraint_failure e of
        Some (c, Some constr) \<Rightarrow> c = UNIQUE_VIOLATION \<and> constr = ''transactions_idempotency_key_key''
      | _ \<Rightarrow> False)"

definition is_retryable_conflict :: "sqlx_error \<Rightarrow> bool" where
  "is_retryable_conflict e =
     (case constraint_failure e of
        Some (c, _) \<Rightarrow> c = SERIALIZATION_FAILURE \<or> c = DEADLOCK_DETECTED
      | None \<Rightarrow> False)"

definition is_overdraft_violation :: "sqlx_error \<Rightarrow> bool" where
  "is_overdraft_violation e =
     (case constraint_failure e of
        Some (c, Some constr) \<Rightarrow> c = CHECK_VIOLATION \<and> constr = ''accounts_balance_non_negative''
      | _ \<Rightarrow> False)"

text \<open>The classes are disjoint: no error is both retried and reported as a business outcome.\<close>

lemma conflict_classes_disjoint:
  "is_retryable_conflict e \<Longrightarrow> \<not> is_overdraft_violation e \<and> \<not> is_idempotency_key_collision e"
  by (cases e rule: constraint_failure.cases)
     (auto simp: is_retryable_conflict_def is_overdraft_violation_def
       is_idempotency_key_collision_def sqlstate_defs split: option.splits)

lemma code_inj_status: "code e = code d \<Longrightarrow> status e = status d"
  by (cases e; cases d; simp)

section \<open>Properties\<close>

text \<open>
  The mapping of failures onto responses. The machine-readable code determines the status; the
  status is 500 exactly for a database error, whose message never reaches the caller; every other
  failure is a 4xx with its own message.
\<close>

lemma error_response_total:
  "(code e = code e' \<longrightarrow> status e = status e') \<and>
   (resp_status (error_into_response C e) = 500 \<longleftrightarrow> (\<exists>err. e = Database err)) \<and>
   resp_message (error_into_response C (Database err)) = resp_message (error_into_response C (Database err')) \<and>
   (resp_status (error_into_response C e) \<noteq> 500 \<longrightarrow>
      400 \<le> resp_status (error_into_response C e) \<and> resp_status (error_into_response C e) < 500 \<and>
      resp_message (error_into_response C e) = error_to_string C e)"
proof (intro conjI)
  show "code e = code e' \<longrightarrow> status e = status e'"
    using code_inj_status by blast
qed (cases e; simp add: error_into_response_def)+

lemma error_response_total_example:
  "resp_status (error_into_response ref_crates (InsufficientFunds 7)) = 422 \<and>
   resp_message (error_into_response ref_crates (InsufficientFunds 7)) =
     error_to_string ref_crates (InsufficientFunds 7)"
  using error_response_total [of "InsufficientFunds 7" "InsufficientFunds 7" ref_crates]
  by (simp add: error_into_response_def)

text \<open>
  An error that makes the transfer loop retry is never one that is reported as a business
  outcome (an overdraft) or as a lost race for the idempotency key, and those two exclude each other.
\<close>

lemma conflict_classes_exclusive:
  "\<not> (is_retryable_conflict e \<and> is_overdraft_violation e) \<and>
   \<not> (is_retryable_conflict e \<and> is_idempotency_key_collision e) \<and>
   \<not> (is_overdraft_violation e \<and> is_idempotency_key_collision e)"
  using conflict_classes_disjoint [of e]
  by (cases e rule: constraint_failure.cases)
     (auto simp: is_overdraft_violation_def is_idempotency_key_collision_def sqlstate_defs
       split: option.splits)

end
