(* ===== verification/Schema.thy ===== *)
theory Schema
  imports Ledger_Error
begin

text \<open>
  \<open>migrations/0001_init.sql\<close>: the three tables, their constraints and triggers, and the statements
  the service runs against them. A statement is evaluated on the rows its session sees and either
  fails with the SQLSTATE code and constraint name the database reports, or yields the \<open>write\<close> it
  makes; \<open>apply_write\<close> performs it. Deferred triggers run in \<open>sql_commit\<close>.

  Monetary columns are \<open>NUMERIC(20, 8)\<close> and are kept as whole units of \<open>10 ^ -8\<close>.
\<close>

section \<open>Tables\<close>

type_synonym xid = nat

record accounts_row =
  a_id :: uuid
  a_name :: str
  a_currency :: str
  a_balance :: int
  a_allows_negative_balance :: bool
  a_created_at :: timestamp

record transactions_row =
  t_id :: uuid
  t_idempotency_key :: str
  t_request_hash :: "byte list"
  t_description :: str
  t_created_xid :: xid
  t_created_at :: timestamp

record entries_row =
  e_id :: uuid
  e_transaction_id :: uuid
  e_account_id :: uuid
  e_direction :: direction
  e_amount :: int
  e_currency :: str
  e_created_at :: timestamp

record db =
  accounts :: "accounts_row list"
  transactions :: "transactions_row list"
  entries :: "entries_row list"

datatype "write" =
    InsertAccount accounts_row
  | InsertTransaction transactions_row
  | InsertEntry entries_row
  | SetBalance uuid int

fun apply_write :: "write \<Rightarrow> db \<Rightarrow> db" where
  "apply_write (InsertAccount r) d = d\<lparr>accounts := accounts d @ [r]\<rparr>"
| "apply_write (InsertTransaction r) d = d\<lparr>transactions := transactions d @ [r]\<rparr>"
| "apply_write (InsertEntry r) d = d\<lparr>entries := entries d @ [r]\<rparr>"
| "apply_write (SetBalance i b) d =
     d\<lparr>accounts := update_rows a_id i (\<lambda>r. r\<lparr>a_balance := b\<rparr>) (accounts d)\<rparr>"

definition apply_writes :: "write list \<Rightarrow> db \<Rightarrow> db" where
  "apply_writes ws d = fold apply_write ws d"

definition empty_db :: db where
  "empty_db = \<lparr>accounts = [], transactions = [], entries = []\<rparr>"

definition account_row :: "db \<Rightarrow> uuid \<Rightarrow> accounts_row option" where
  "account_row d i = row a_id (accounts d) i"

definition transaction_row :: "db \<Rightarrow> uuid \<Rightarrow> transactions_row option" where
  "transaction_row d i = row t_id (transactions d) i"

definition key_row :: "db \<Rightarrow> str \<Rightarrow> transactions_row option" where
  "key_row d k = row t_idempotency_key (transactions d) k"

fun signed_units :: "direction \<Rightarrow> int \<Rightarrow> int" where
  "signed_units Debit u = u"
| "signed_units Credit u = - u"

definition e_signed :: "entries_row \<Rightarrow> int" where
  "e_signed e = signed_units (e_direction e) (e_amount e)"

definition net_of :: "entries_row list \<Rightarrow> int" where
  "net_of es = sum_list (map e_signed es)"

definition entries_of :: "db \<Rightarrow> uuid \<Rightarrow> entries_row list" where
  "entries_of d t = filter (\<lambda>e. e_transaction_id e = t) (entries d)"

section \<open>Errors the database reports\<close>

definition pg_error :: "string \<Rightarrow> string option \<Rightarrow> sqlx_error" where
  "pg_error c constr = SqlxDatabase (Some c) constr"

definition check_violation :: "string \<Rightarrow> sqlx_error" where
  "check_violation constr = pg_error CHECK_VIOLATION (Some constr)"

definition unique_violation :: "string \<Rightarrow> sqlx_error" where
  "unique_violation constr = pg_error UNIQUE_VIOLATION (Some constr)"

text \<open>\<open>numeric_value_out_of_range\<close>, and \<open>character_not_in_repertoire\<close> for a zero byte in a text.\<close>

definition numeric_overflow :: sqlx_error where
  "numeric_overflow = pg_error ''22003'' None"

definition invalid_text :: sqlx_error where
  "invalid_text = pg_error ''22021'' None"

definition text_ok :: "str \<Rightarrow> bool" where
  "text_ok s \<longleftrightarrow> 0 \<notin> set s"

section \<open>Constraints and triggers\<close>

text \<open>\<open>currency ~ '^[A-Z]{3}$'\<close>\<close>

definition currency_shape :: "str \<Rightarrow> bool" where
  "currency_shape s \<longleftrightarrow> length s = 3 \<and> list_all (\<lambda>c. 65 \<le> c \<and> c \<le> 90) s"

text \<open>The first violated \<open>CHECK\<close> of \<open>accounts\<close>; they are evaluated in the order of their names.\<close>

definition accounts_check :: "accounts_row \<Rightarrow> string option" where
  "accounts_check r =
     (if \<not> (a_allows_negative_balance r \<or> 0 \<le> a_balance r) then Some ''accounts_balance_non_negative''
      else if \<not> currency_shape (a_currency r) then Some ''accounts_currency_check''
      else if \<not> (1 \<le> length (a_name r) \<and> length (a_name r) \<le> 255) then Some ''accounts_name_check''
      else None)"

definition transactions_check :: "transactions_row \<Rightarrow> string option" where
  "transactions_check r =
     (if length (t_request_hash r) \<noteq> 32 then Some ''transactions_request_hash_check'' else None)"

definition entries_check :: "entries_row \<Rightarrow> string option" where
  "entries_check r = (if \<not> 0 < e_amount r then Some ''entries_amount_check'' else None)"

text \<open>\<open>assert_transaction_balanced\<close>, run at commit for every inserted entry.\<close>

definition assert_transaction_balanced :: "db \<Rightarrow> uuid \<Rightarrow> string option" where
  "assert_transaction_balanced d t =
     (let es = entries_of d t;
          net = net_of es;
          entry_count = length es;
          currency_count = length (remdups (map e_currency es)) in
      if entry_count < 2 then Some ''transaction_min_two_entries''
      else if currency_count \<noteq> 1 then Some ''transaction_single_currency''
      else if net \<noteq> 0 then Some ''transaction_balanced''
      else None)"

text \<open>\<open>assert_entry_in_parent_xact\<close>, run before every insert into \<open>entries\<close>.\<close>

definition assert_entry_in_parent_xact :: "xid \<Rightarrow> db \<Rightarrow> uuid \<Rightarrow> (sqlx_error, unit) result" where
  "assert_entry_in_parent_xact x d t =
     (case transaction_row d t of
        None \<Rightarrow> Err (pg_error FOREIGN_KEY_VIOLATION None)
      | Some r \<Rightarrow> if t_created_xid r \<noteq> x then Err (check_violation ''entries_written_with_parent'')
                  else Ok ())"

text \<open>
  \<open>reject_mutation\<close>, run before every \<open>UPDATE\<close> or \<open>DELETE\<close> of a row of \<open>transactions\<close> or \<open>entries\<close>,
  and the two branches of \<open>reject_account_mutation\<close>, run before those of a row of \<open>accounts\<close>.
\<close>

definition reject_mutation :: "'r \<Rightarrow> (sqlx_error, unit) result" where
  "reject_mutation old = Err (pg_error RESTRICT_VIOLATION None)"

definition reject_account_delete :: "accounts_row \<Rightarrow> (sqlx_error, unit) result" where
  "reject_account_delete old = Err (pg_error RESTRICT_VIOLATION None)"

definition reject_account_update :: "accounts_row \<Rightarrow> accounts_row \<Rightarrow> (sqlx_error, unit) result" where
  "reject_account_update old new =
     (if a_id new \<noteq> a_id old \<or> a_name new \<noteq> a_name old \<or> a_currency new \<noteq> a_currency old \<or>
         a_allows_negative_balance new \<noteq> a_allows_negative_balance old \<or>
         a_created_at new \<noteq> a_created_at old
      then Err (pg_error RESTRICT_VIOLATION None) else Ok ())"

section \<open>Statements\<close>

text \<open>\<open>INSERT INTO accounts\<close> of a complete row.\<close>

definition insert_accounts_row :: "accounts_row \<Rightarrow> db \<Rightarrow> (sqlx_error, write list) result" where
  "insert_accounts_row r d =
     (if \<not> (text_ok (a_name r) \<and> text_ok (a_currency r)) then Err invalid_text
      else if \<not> \<bar>a_balance r\<bar> < 10 ^ 20 then Err numeric_overflow
      else case accounts_check r of
             Some constr \<Rightarrow> Err (check_violation constr)
           | None \<Rightarrow> if account_row d (a_id r) \<noteq> None then Err (unique_violation ''accounts_pkey'')
                     else Ok [InsertAccount r])"

definition insert_transactions_row :: "transactions_row \<Rightarrow> db \<Rightarrow> (sqlx_error, write list) result" where
  "insert_transactions_row r d =
     (if \<not> (text_ok (t_idempotency_key r) \<and> text_ok (t_description r)) then Err invalid_text
      else case transactions_check r of
             Some constr \<Rightarrow> Err (check_violation constr)
           | None \<Rightarrow>
               if transaction_row d (t_id r) \<noteq> None then Err (unique_violation ''transactions_pkey'')
               else if key_row d (t_idempotency_key r) \<noteq> None
                    then Err (unique_violation ''transactions_idempotency_key_key'')
               else Ok [InsertTransaction r])"

text \<open>
  The amount is cast to the column type, then the row trigger runs, then \<open>CHECK\<close>s and the primary
  key, and at the end of the statement the two foreign keys. \<open>x\<close> is the current transaction id.
\<close>

definition insert_entries_row ::
  "xid \<Rightarrow> entries_row \<Rightarrow> rat \<Rightarrow> db \<Rightarrow> (sqlx_error, write list) result" where
  "insert_entries_row x e amount d =
     (if \<not> text_ok (e_currency e) then Err invalid_text
      else case numeric_20_8 amount of
        None \<Rightarrow> Err numeric_overflow
      | Some u \<Rightarrow>
          and_then (assert_entry_in_parent_xact x d (e_transaction_id e)) (\<lambda>_.
            let r = e\<lparr>e_amount := u\<rparr> in
            case entries_check r of
              Some constr \<Rightarrow> Err (check_violation constr)
            | None \<Rightarrow>
                if row e_id (entries d) (e_id r) \<noteq> None then Err (unique_violation ''entries_pkey'')
                else if transaction_row d (e_transaction_id r) = None
                     then Err (pg_error FOREIGN_KEY_VIOLATION (Some ''entries_transaction_id_fkey''))
                else if map_option a_currency (account_row d (e_account_id r)) \<noteq> Some (e_currency r)
                     then Err (pg_error FOREIGN_KEY_VIOLATION (Some ''entries_account_currency_fkey''))
                else Ok [InsertEntry r]))"

text \<open>
  \<open>UPDATE accounts SET ... WHERE ...\<close>: each matching row is computed (a numeric result out of range
  is \<open>None\<close>), passes the row trigger, which lets only \<open>balance\<close> change, and the \<open>CHECK\<close>s. The result
  pairs each row with the one that replaces it.
\<close>

definition update_accounts_row ::
  "(accounts_row \<Rightarrow> accounts_row option) \<Rightarrow> accounts_row \<Rightarrow>
   (sqlx_error, accounts_row \<times> accounts_row) result" where
  "update_accounts_row f r =
     (case f r of
        None \<Rightarrow> Err numeric_overflow
      | Some r' \<Rightarrow>
          if \<not> \<bar>a_balance r'\<bar> < 10 ^ 20 then Err numeric_overflow
          else and_then (reject_account_update r r') (\<lambda>_.
            case accounts_check r' of
              Some constr \<Rightarrow> Err (check_violation constr)
            | None \<Rightarrow> Ok (r, r')))"

definition update_accounts ::
  "(accounts_row \<Rightarrow> bool) \<Rightarrow> (accounts_row \<Rightarrow> accounts_row option) \<Rightarrow> db \<Rightarrow>
   (sqlx_error, (accounts_row \<times> accounts_row) list) result" where
  "update_accounts p f d = collect (map (update_accounts_row f) (filter p (accounts d)))"

text \<open>
  \<open>UPDATE\<close> or \<open>DELETE\<close> on a table whose rows may not be mutated: the \<open>BEFORE\<close> trigger runs for each
  matching row, and the change \<open>c r\<close> of the row is made where it lets the row through.
\<close>

definition mutate_rows ::
  "('r \<Rightarrow> (sqlx_error, unit) result) \<Rightarrow> ('r \<Rightarrow> 'c) \<Rightarrow> ('r \<Rightarrow> bool) \<Rightarrow> 'r list \<Rightarrow>
   (sqlx_error, 'c list) result" where
  "mutate_rows trigger c p rs =
     collect (map (\<lambda>r. and_then (trigger r) (\<lambda>_. Ok (c r))) (filter p rs))"

text \<open>
  \<open>COMMIT\<close>: the deferred constraint trigger runs once per entry the transaction inserted, in the
  order of insertion, on everything the transaction wrote.
\<close>

fun sql_commit :: "entries_row list \<Rightarrow> db \<Rightarrow> (sqlx_error, unit) result" where
  "sql_commit [] d = Ok ()"
| "sql_commit (e # es) d =
     (case assert_transaction_balanced d (e_transaction_id e) of
        Some constr \<Rightarrow> Err (check_violation constr)
      | None \<Rightarrow> sql_commit es d)"

section \<open>The statements of the service\<close>

text \<open>
  \<open>INSERT INTO accounts (id, name, currency, allows_negative_balance)\<close>, the other columns taking
  their defaults.
\<close>

definition sql_insert_account ::
  "timestamp \<Rightarrow> uuid \<Rightarrow> str \<Rightarrow> str \<Rightarrow> bool \<Rightarrow> db \<Rightarrow> (sqlx_error, write list) result" where
  "sql_insert_account now i name cur allows d =
     insert_accounts_row
       \<lparr>a_id = i, a_name = name, a_currency = cur, a_balance = 0,
        a_allows_negative_balance = allows, a_created_at = now\<rparr> d"

definition sql_insert_transaction ::
  "xid \<Rightarrow> timestamp \<Rightarrow> uuid \<Rightarrow> str \<Rightarrow> byte list \<Rightarrow> str \<Rightarrow> db \<Rightarrow> (sqlx_error, write list) result"
  where
  "sql_insert_transaction x now i key hash descr d =
     insert_transactions_row
       \<lparr>t_id = i, t_idempotency_key = key, t_request_hash = hash, t_description = descr,
        t_created_xid = x, t_created_at = now\<rparr> d"

definition sql_insert_entry ::
  "xid \<Rightarrow> timestamp \<Rightarrow> uuid \<Rightarrow> uuid \<Rightarrow> uuid \<Rightarrow> direction \<Rightarrow> rat \<Rightarrow> str \<Rightarrow> db \<Rightarrow>
   (sqlx_error, write list) result" where
  "sql_insert_entry x now i t a dir amount cur d =
     insert_entries_row x
       \<lparr>e_id = i, e_transaction_id = t, e_account_id = a, e_direction = dir, e_amount = 0,
        e_currency = cur, e_created_at = now\<rparr> amount d"

text \<open>\<open>UPDATE accounts SET balance = balance + $1 WHERE id = $2\<close>\<close>

definition add_to_balance :: "rat \<Rightarrow> accounts_row \<Rightarrow> accounts_row option" where
  "add_to_balance delta r =
     map_option (\<lambda>u. r\<lparr>a_balance := u\<rparr>) (numeric_20_8 (of_int (a_balance r) / 10 ^ 8 + delta))"

definition sql_adjust_balance :: "uuid \<Rightarrow> rat \<Rightarrow> db \<Rightarrow> (sqlx_error, write list) result" where
  "sql_adjust_balance i delta d =
     and_then (update_accounts (\<lambda>r. a_id r = i) (add_to_balance delta) d) (\<lambda>rs.
     Ok (map (\<lambda>(r, r'). SetBalance (a_id r) (a_balance r')) rs))"

section \<open>Arbitrary sessions\<close>

text \<open>
  What a client of the database may send of \<open>INSERT\<close>, \<open>UPDATE\<close> and \<open>DELETE\<close>, with any row values, any
  \<open>WHERE\<close> predicate and any \<open>SET\<close> clause. Such a client can ask for more than the service's \<open>write\<close>s:
  a \<open>change\<close> also replaces or removes the row with a given id, and \<open>apply_change\<close> does so. Only the
  triggers above stand in the way. \<open>TRUNCATE\<close> fires no row trigger and is not among the statements; it
  is \<open>sql_truncate\<close> of the theory \<open>Reconciliation\<close>.
\<close>

datatype change =
    Written "write"
  | PutAccount uuid accounts_row
  | RemoveAccount uuid
  | PutTransaction uuid transactions_row
  | RemoveTransaction uuid
  | PutEntry uuid entries_row
  | RemoveEntry uuid

definition remove_rows :: "('r \<Rightarrow> 'k) \<Rightarrow> 'k \<Rightarrow> 'r list \<Rightarrow> 'r list" where
  "remove_rows key k rs = filter (\<lambda>r. key r \<noteq> k) rs"

fun apply_change :: "change \<Rightarrow> db \<Rightarrow> db" where
  "apply_change (Written w) d = apply_write w d"
| "apply_change (PutAccount i r) d = d\<lparr>accounts := update_rows a_id i (\<lambda>_. r) (accounts d)\<rparr>"
| "apply_change (RemoveAccount i) d = d\<lparr>accounts := remove_rows a_id i (accounts d)\<rparr>"
| "apply_change (PutTransaction i r) d =
     d\<lparr>transactions := update_rows t_id i (\<lambda>_. r) (transactions d)\<rparr>"
| "apply_change (RemoveTransaction i) d =
     d\<lparr>transactions := remove_rows t_id i (transactions d)\<rparr>"
| "apply_change (PutEntry i r) d = d\<lparr>entries := update_rows e_id i (\<lambda>_. r) (entries d)\<rparr>"
| "apply_change (RemoveEntry i) d = d\<lparr>entries := remove_rows e_id i (entries d)\<rparr>"

definition apply_changes :: "change list \<Rightarrow> db \<Rightarrow> db" where
  "apply_changes cs d = fold apply_change cs d"

definition written :: "(sqlx_error, write list) result \<Rightarrow> (sqlx_error, change list) result" where
  "written r = and_then r (\<lambda>ws. Ok (map Written ws))"

datatype sql_stmt =
    SInsertAccount accounts_row
  | SInsertTransaction transactions_row
  | SInsertEntry entries_row rat
  | SUpdateAccounts "accounts_row \<Rightarrow> bool" "accounts_row \<Rightarrow> accounts_row option"
  | SDeleteAccounts "accounts_row \<Rightarrow> bool"
  | SUpdateTransactions "transactions_row \<Rightarrow> bool" "transactions_row \<Rightarrow> transactions_row"
  | SDeleteTransactions "transactions_row \<Rightarrow> bool"
  | SUpdateEntries "entries_row \<Rightarrow> bool" "entries_row \<Rightarrow> entries_row"
  | SDeleteEntries "entries_row \<Rightarrow> bool"

fun exec_stmt :: "xid \<Rightarrow> sql_stmt \<Rightarrow> db \<Rightarrow> (sqlx_error, change list) result" where
  "exec_stmt x (SInsertAccount r) d = written (insert_accounts_row r d)"
| "exec_stmt x (SInsertTransaction r) d = written (insert_transactions_row r d)"
| "exec_stmt x (SInsertEntry r amount) d = written (insert_entries_row x r amount d)"
| "exec_stmt x (SUpdateAccounts p f) d =
     and_then (update_accounts p f d) (\<lambda>rs. Ok (map (\<lambda>(r, r'). PutAccount (a_id r) r') rs))"
| "exec_stmt x (SDeleteAccounts p) d =
     mutate_rows reject_account_delete (\<lambda>r. RemoveAccount (a_id r)) p (accounts d)"
| "exec_stmt x (SUpdateTransactions p f) d =
     mutate_rows reject_mutation (\<lambda>r. PutTransaction (t_id r) (f r)) p (transactions d)"
| "exec_stmt x (SDeleteTransactions p) d =
     mutate_rows reject_mutation (\<lambda>r. RemoveTransaction (t_id r)) p (transactions d)"
| "exec_stmt x (SUpdateEntries p f) d =
     mutate_rows reject_mutation (\<lambda>r. PutEntry (e_id r) (f r)) p (entries d)"
| "exec_stmt x (SDeleteEntries p) d =
     mutate_rows reject_mutation (\<lambda>r. RemoveEntry (e_id r)) p (entries d)"

fun exec_stmts :: "xid \<Rightarrow> sql_stmt list \<Rightarrow> db \<Rightarrow> (sqlx_error, change list) result" where
  "exec_stmts x [] d = Ok []"
| "exec_stmts x (s # ss) d =
     and_then (exec_stmt x s d) (\<lambda>cs.
     and_then (exec_stmts x ss (apply_changes cs d)) (\<lambda>bs. Ok (cs @ bs)))"

fun inserted_entries :: "write list \<Rightarrow> entries_row list" where
  "inserted_entries [] = []"
| "inserted_entries (InsertEntry r # ws) = r # inserted_entries ws"
| "inserted_entries (_ # ws) = inserted_entries ws"

text \<open>The entries for which the deferred trigger is queued: it fires \<open>AFTER INSERT\<close> only.\<close>

fun queued_entries :: "change list \<Rightarrow> entries_row list" where
  "queued_entries [] = []"
| "queued_entries (Written w # cs) = inserted_entries [w] @ queued_entries cs"
| "queued_entries (_ # cs) = queued_entries cs"

text \<open>\<open>BEGIN\<close>, the statements, \<open>COMMIT\<close>; any error rolls everything back.\<close>

definition sql_session :: "xid \<Rightarrow> sql_stmt list \<Rightarrow> db \<Rightarrow> (sqlx_error, db) result" where
  "sql_session x ss d =
     and_then (exec_stmts x ss d) (\<lambda>cs.
     and_then (sql_commit (queued_entries cs) (apply_changes cs d)) (\<lambda>_.
     Ok (apply_changes cs d)))"

end
