(* ===== verification/Schema_Invariants.thy ===== *)
theory Schema_Invariants
  imports Schema
begin

text \<open>
  What the schema guarantees of every committed state, whoever writes. \<open>constraints\<close> is what the
  declarative constraints keep after each statement; \<open>schema_inv\<close> adds what the commit-time trigger
  and the same-transaction trigger give together: every transaction that has entries is balanced and
  can never be extended. The interface between the statements and these proofs is the locale
  \<open>guarded_statement\<close>: a statement either fails or makes changes that have the effect of writes which
  respect the constraints. It is interpreted for each statement of the service and for whatever
  \<open>INSERT\<close>, \<open>UPDATE\<close> or \<open>DELETE\<close> a client sends, whose changes need not be such writes by themselves: the
  triggers see to it.
\<close>

section \<open>Constraints\<close>

definition account_ok :: "accounts_row \<Rightarrow> bool" where
  "account_ok r \<longleftrightarrow> accounts_check r = None \<and> \<bar>a_balance r\<bar> < 10 ^ 20"

definition entry_ok :: "db \<Rightarrow> entries_row \<Rightarrow> bool" where
  "entry_ok d e \<longleftrightarrow> 0 < e_amount e \<and> e_amount e < 10 ^ 20 \<and>
     transaction_row d (e_transaction_id e) \<noteq> None \<and>
     map_option a_currency (account_row d (e_account_id e)) = Some (e_currency e)"

definition constraints :: "db \<Rightarrow> bool" where
  "constraints d \<longleftrightarrow>
     distinct (map a_id (accounts d)) \<and> distinct (map t_id (transactions d)) \<and>
     distinct (map t_idempotency_key (transactions d)) \<and> distinct (map e_id (entries d)) \<and>
     (\<forall>a \<in> set (accounts d). account_ok a) \<and>
     (\<forall>t \<in> set (transactions d). length (t_request_hash t) = 32) \<and>
     (\<forall>e \<in> set (entries d). entry_ok d e)"

fun write_ok :: "xid \<Rightarrow> db \<Rightarrow> write \<Rightarrow> bool" where
  "write_ok x d (InsertAccount r) \<longleftrightarrow> account_ok r \<and> account_row d (a_id r) = None"
| "write_ok x d (InsertTransaction r) \<longleftrightarrow>
     length (t_request_hash r) = 32 \<and> transaction_row d (t_id r) = None \<and>
     key_row d (t_idempotency_key r) = None"
| "write_ok x d (InsertEntry e) \<longleftrightarrow>
     entry_ok d e \<and> row e_id (entries d) (e_id e) = None \<and>
     map_option t_created_xid (transaction_row d (e_transaction_id e)) = Some x"
| "write_ok x d (SetBalance i b) \<longleftrightarrow>
     (\<forall>r. account_row d i = Some r \<longrightarrow> account_ok (r\<lparr>a_balance := b\<rparr>))"

fun writes_ok :: "xid \<Rightarrow> db \<Rightarrow> write list \<Rightarrow> bool" where
  "writes_ok x d [] = True"
| "writes_ok x d (w # ws) \<longleftrightarrow> write_ok x d w \<and> writes_ok x (apply_write w d) ws"

lemma apply_writes_Nil [simp]: "apply_writes [] d = d"
  by (simp add: apply_writes_def)

lemma apply_writes_Cons [simp]: "apply_writes (w # ws) d = apply_writes ws (apply_write w d)"
  by (simp add: apply_writes_def)

lemma apply_writes_append [simp]: "apply_writes (ws @ vs) d = apply_writes vs (apply_writes ws d)"
  by (simp add: apply_writes_def)

lemma writes_ok_append [simp]:
  "writes_ok x d (ws @ vs) \<longleftrightarrow> writes_ok x d ws \<and> writes_ok x (apply_writes ws d) vs"
  by (induction ws arbitrary: d) auto

lemma inserted_entries_append [simp]:
  "inserted_entries (ws @ vs) = inserted_entries ws @ inserted_entries vs"
  by (induction ws rule: inserted_entries.induct) auto

section \<open>Effect of the writes\<close>

definition identity :: "accounts_row \<Rightarrow> uuid \<times> str \<times> str \<times> bool \<times> timestamp" where
  "identity r = (a_id r, a_name r, a_currency r, a_allows_negative_balance r, a_created_at r)"

definition extends :: "db \<Rightarrow> db \<Rightarrow> bool" where
  "extends d d' \<longleftrightarrow>
     (\<exists>ts. transactions d' = transactions d @ ts) \<and> (\<exists>es. entries d' = entries d @ es) \<and>
     (\<exists>as. map identity (accounts d') = map identity (accounts d) @ as)"

lemma extends_refl [simp]: "extends d d"
  by (auto simp: extends_def)

lemma extends_trans: "extends d d' \<Longrightarrow> extends d' d'' \<Longrightarrow> extends d d''"
  by (auto simp: extends_def)

lemma map_identity_update [simp]:
  "map identity (update_rows a_id i (\<lambda>r. r\<lparr>a_balance := b\<rparr>) rs) = map identity rs"
  by (rule update_rows_map) (simp add: identity_def)

lemma apply_write_extends: "extends d (apply_write w d)"
  by (cases w) (auto simp: extends_def)

lemma apply_writes_extends: "extends d (apply_writes ws d)"
proof (induction ws arbitrary: d)
  case (Cons w ws)
  then show ?case
    using apply_write_extends extends_trans by fastforce
qed simp

lemma map_a_id_update [simp]:
  "map a_id (update_rows a_id i (\<lambda>r. r\<lparr>a_balance := b\<rparr>) rs) = map a_id rs"
  by (rule update_rows_keys) simp

text \<open>From here on a write is known by what it changes of each table.\<close>

lemma write_fields [table_simps]:
  "accounts (apply_write (InsertAccount r) d) = accounts d @ [r]"
  "accounts (apply_write (InsertTransaction t) d) = accounts d"
  "accounts (apply_write (InsertEntry e) d) = accounts d"
  "accounts (apply_write (SetBalance i b) d) =
     update_rows a_id i (\<lambda>r. r\<lparr>a_balance := b\<rparr>) (accounts d)"
  "transactions (apply_write (InsertAccount r) d) = transactions d"
  "transactions (apply_write (InsertTransaction t) d) = transactions d @ [t]"
  "transactions (apply_write (InsertEntry e) d) = transactions d"
  "transactions (apply_write (SetBalance i b) d) = transactions d"
  by simp_all

lemma account_row_write [table_simps]:
  "account_row (apply_write (InsertAccount r) d) i =
     (case account_row d i of None \<Rightarrow> if a_id r = i then Some r else None | Some q \<Rightarrow> Some q)"
  "account_row (apply_write (InsertTransaction t) d) i = account_row d i"
  "account_row (apply_write (InsertEntry e) d) i = account_row d i"
  "account_row (apply_write (SetBalance j b) d) i =
     (if i = j then map_option (\<lambda>r. r\<lparr>a_balance := b\<rparr>) (account_row d i) else account_row d i)"
  by (auto simp: account_row_def row_append row_update_rows split: option.split)

lemma transaction_row_write [table_simps]:
  "transaction_row (apply_write (InsertTransaction r) d) i =
     (case transaction_row d i of None \<Rightarrow> if t_id r = i then Some r else None | Some q \<Rightarrow> Some q)"
  "transaction_row (apply_write (InsertAccount a) d) i = transaction_row d i"
  "transaction_row (apply_write (InsertEntry e) d) i = transaction_row d i"
  "transaction_row (apply_write (SetBalance j b) d) i = transaction_row d i"
  by (auto simp: transaction_row_def row_append split: option.split)

lemma key_row_write [table_simps]:
  "key_row (apply_write (InsertTransaction r) d) k =
     (case key_row d k of None \<Rightarrow> if t_idempotency_key r = k then Some r else None | Some q \<Rightarrow> Some q)"
  "key_row (apply_write (InsertAccount a) d) k = key_row d k"
  "key_row (apply_write (InsertEntry e) d) k = key_row d k"
  "key_row (apply_write (SetBalance j b) d) k = key_row d k"
  by (auto simp: key_row_def row_append split: option.split)

lemma entries_write [table_simps]:
  "entries (apply_write w d) = entries d @ inserted_entries [w]"
  by (cases w) simp_all

declare apply_write.simps [simp del]

lemma entries_apply_writes: "entries (apply_writes ws d) = entries d @ inserted_entries ws"
proof (induction ws arbitrary: d)
  case (Cons w ws)
  then show ?case
    using inserted_entries_append [of "[w]" ws] by (simp add: entries_write)
qed simp

lemma transaction_row_stable:
  "transaction_row d i = Some r \<Longrightarrow> transaction_row (apply_writes ws d) i = Some r"
proof (induction ws arbitrary: d)
  case (Cons w ws)
  then have "transaction_row (apply_write w d) i = Some r"
    by (cases w) (simp_all add: table_simps)
  with Cons.IH show ?case by simp
qed simp

section \<open>Writes that respect the constraints keep them\<close>

lemma entry_ok_write: "entry_ok d e \<Longrightarrow> entry_ok (apply_write w d) e"
  by (cases w) (auto simp: entry_ok_def table_simps split: option.splits)

lemma constraints_write:
  assumes "constraints d" and "write_ok x d w"
  shows "constraints (apply_write w d)"
proof -
  have entries: "\<forall>e \<in> set (entries d). entry_ok (apply_write w d) e"
    using assms(1) entry_ok_write by (simp add: constraints_def)
  show ?thesis
  proof (cases w)
    case (InsertAccount r)
    then show ?thesis
      using assms entries by (auto simp: constraints_def account_row_def row_None table_simps)
  next
    case (InsertTransaction r)
    then show ?thesis
      using assms entries
      by (auto simp: constraints_def transaction_row_def key_row_def row_None table_simps)
  next
    case (InsertEntry e)
    then have "entry_ok (apply_write w d) e"
      using assms(2) entry_ok_write by simp
    with InsertEntry show ?thesis
      using assms entries by (auto simp: constraints_def row_None table_simps)
  next
    case (SetBalance i b)
    have "account_ok q" if "q \<in> set (accounts (apply_write w d))" for q
    proof -
      obtain r where r: "r \<in> set (accounts d)" "q = (if a_id r = i then r\<lparr>a_balance := b\<rparr> else r)"
        using \<open>q \<in> set (accounts (apply_write w d))\<close> SetBalance by (auto simp: update_rows_def table_simps)
      then show ?thesis
        using assms SetBalance
        by (auto simp: constraints_def account_row_def row_unique split: if_splits)
    qed
    then show ?thesis
      using assms(1) entries SetBalance by (auto simp: constraints_def table_simps)
  qed
qed

lemma constraints_writes: "constraints d \<Longrightarrow> writes_ok x d ws \<Longrightarrow> constraints (apply_writes ws d)"
  by (induction ws arbitrary: d) (auto intro: constraints_write)

section \<open>Statements yield writes that respect the constraints\<close>

lemma insert_accounts_row_guarded:
  "insert_accounts_row r d = Ok ws \<Longrightarrow> ws = [InsertAccount r] \<and> write_ok x d (InsertAccount r)"
  by (auto simp: insert_accounts_row_def account_ok_def split: if_splits option.splits)

lemma insert_transactions_row_guarded:
  "insert_transactions_row r d = Ok ws \<Longrightarrow>
     ws = [InsertTransaction r] \<and> write_ok x d (InsertTransaction r)"
  by (auto simp: insert_transactions_row_def transactions_check_def split: if_splits option.splits)

lemma numeric_20_8_bound: "numeric_20_8 v = Some u \<Longrightarrow> \<bar>u\<bar> < 10 ^ 20"
  by (cases "\<bar>if v < 0 then - \<lfloor>- v * 10 ^ 8 + 1 / 2\<rfloor> else \<lfloor>v * 10 ^ 8 + 1 / 2\<rfloor>\<bar> < 10 ^ 20")
     (simp_all only: numeric_20_8_def Let_def if_True if_False option.inject option.distinct)

lemma insert_entries_row_guarded:
  assumes "insert_entries_row x e amount d = Ok ws"
  shows "\<exists>u. numeric_20_8 amount = Some u \<and> ws = [InsertEntry (e\<lparr>e_amount := u\<rparr>)] \<and>
    write_ok x d (InsertEntry (e\<lparr>e_amount := u\<rparr>))"
proof -
  obtain u where u: "numeric_20_8 amount = Some u"
    using assms by (auto simp: insert_entries_row_def split: if_splits option.splits)
  then have "u < 10 ^ 20"
    using numeric_20_8_bound by fastforce
  then show ?thesis
    using assms u
    by (auto simp: insert_entries_row_def entries_check_def entry_ok_def
        assert_entry_in_parent_xact_def Let_def split: if_splits option.splits)
qed

lemma update_accounts_row_guarded:
  assumes "constraints d" and "r \<in> set (accounts d)" and "update_accounts_row f r = Ok (q, r')"
  shows "q = r \<and> identity r' = identity r \<and> write_ok x d (SetBalance (a_id r) (a_balance r'))"
proof -
  have r': "q = r" "account_ok r'" "reject_account_update r r' = Ok ()"
    using assms(3) by (auto simp: update_accounts_row_def account_ok_def result_simps
        split: if_splits option.splits)
  then have "r\<lparr>a_balance := a_balance r'\<rparr> = r'"
    by (intro accounts_row.equality) (auto simp: reject_account_update_def split: if_splits)
  moreover have "identity r' = identity r"
    using r'(3) by (auto simp: reject_account_update_def identity_def split: if_splits)
  moreover have "account_row d (a_id r) = Some r"
    using assms(1,2) by (simp add: constraints_def account_row_def row_unique)
  ultimately show ?thesis
    using r'(1,2) by simp
qed

text \<open>Changing balances does not affect whether another balance may be set.\<close>

lemma SetBalance_frame:
  "write_ok x d (SetBalance i b) \<Longrightarrow> write_ok x (apply_write (SetBalance j c) d) (SetBalance i b)"
  by (auto simp: table_simps)

lemma writes_ok_SetBalances:
  assumes "\<forall>w \<in> set ws. write_ok x d w \<and> (\<exists>i b. w = SetBalance i b)"
  shows "writes_ok x d ws"
  using assms
proof (induction ws arbitrary: d)
  case (Cons w ws)
  then obtain i b where w: "w = SetBalance i b"
    by auto
  have "\<forall>v \<in> set ws. write_ok x (apply_write w d) v \<and> (\<exists>i b. v = SetBalance i b)"
    using Cons.prems SetBalance_frame w by (metis list.set_intros(2))
  with Cons show ?case by simp
qed simp

lemma collect_mem: "collect rs = Ok xs \<Longrightarrow> x \<in> set xs \<Longrightarrow> Ok x \<in> set rs"
  by (induction rs arbitrary: xs) (auto simp: result_simps)

lemma update_accounts_mem:
  assumes "constraints d" and "update_accounts p f d = Ok rs" and "(r, r') \<in> set rs"
  shows "r \<in> set (accounts d) \<and> identity r' = identity r \<and>
    write_ok x d (SetBalance (a_id r) (a_balance r'))"
proof -
  obtain q where "q \<in> set (accounts d)" "update_accounts_row f q = Ok (r, r')"
    using collect_mem [OF assms(2) [unfolded update_accounts_def] assms(3)] by auto
  then show ?thesis
    using update_accounts_row_guarded [OF assms(1)] by blast
qed

lemma update_accounts_guarded:
  assumes "constraints d" and "update_accounts p f d = Ok rs"
  shows "writes_ok x d (map (\<lambda>(r, r'). SetBalance (a_id r) (a_balance r')) rs)"
  using update_accounts_mem [OF assms] by (intro writes_ok_SetBalances) auto

section \<open>Changes that pass the triggers\<close>

lemma apply_changes_Nil [simp]: "apply_changes [] d = d"
  by (simp add: apply_changes_def)

lemma apply_changes_Cons [simp]: "apply_changes (c # cs) d = apply_changes cs (apply_change c d)"
  by (simp add: apply_changes_def)

lemma apply_changes_append [simp]:
  "apply_changes (cs @ bs) d = apply_changes bs (apply_changes cs d)"
  by (simp add: apply_changes_def)

lemma apply_changes_Written [simp]: "apply_changes (map Written ws) d = apply_writes ws d"
  by (induction ws arbitrary: d) auto

lemma queued_entries_append [simp]:
  "queued_entries (cs @ bs) = queued_entries cs @ queued_entries bs"
  by (induction cs rule: queued_entries.induct) auto

lemma queued_entries_Written [simp]: "queued_entries (map Written ws) = inserted_entries ws"
proof (induction ws)
  case (Cons w ws)
  then show ?case
    using inserted_entries_append [of "[w]" ws] by simp
qed simp

text \<open>Replacing an account by a row of the same identity is setting its balance.\<close>

lemma PutAccount_is_SetBalance:
  assumes "\<forall>q \<in> set (accounts d). a_id q = a_id r \<longrightarrow> identity q = identity r"
    and "identity r' = identity r"
  shows "apply_change (PutAccount (a_id r) r') d = apply_write (SetBalance (a_id r) (a_balance r')) d"
proof -
  have "r' = q\<lparr>a_balance := a_balance r'\<rparr>" if "q \<in> set (accounts d)" "a_id q = a_id r" for q
    using assms that by (intro accounts_row.equality) (auto simp: identity_def)
  then show ?thesis
    by (auto simp: apply_write.simps update_rows_def)
qed

lemma PutAccounts_are_SetBalances:
  assumes "\<forall>(r, r') \<in> set rs. identity r' = identity r \<and>
    (\<forall>k \<in> set (map identity (accounts d)). fst k = a_id r \<longrightarrow> k = identity r)"
  shows "apply_changes (map (\<lambda>(r, r'). PutAccount (a_id r) r') rs) d =
    apply_writes (map (\<lambda>(r, r'). SetBalance (a_id r) (a_balance r')) rs) d"
  using assms
proof (induction rs arbitrary: d)
  case (Cons p rs)
  obtain r r' where p: "p = (r, r')"
    by (cases p)
  have "apply_change (PutAccount (a_id r) r') d = apply_write (SetBalance (a_id r) (a_balance r')) d"
    using Cons.prems p by (intro PutAccount_is_SetBalance) (auto simp: identity_def)
  moreover have "map identity (accounts (apply_write (SetBalance (a_id r) (a_balance r')) d)) =
      map identity (accounts d)"
    by (simp add: table_simps)
  ultimately show ?case
    using Cons.IH [of "apply_write (SetBalance (a_id r) (a_balance r')) d"] Cons.prems p by simp
qed simp

lemma queued_entries_Puts [simp]:
  "queued_entries (map (\<lambda>(r, r'). PutAccount (a_id r) r') rs) = []"
  by (induction rs) auto

lemma inserted_entries_SetBalances [simp]:
  "inserted_entries (map (\<lambda>(r, r'). SetBalance (i r) (b r')) rs) = []"
  by (induction rs) auto

lemma update_accounts_effect:
  assumes "constraints d" and "update_accounts p f d = Ok rs"
  shows "apply_changes (map (\<lambda>(r, r'). PutAccount (a_id r) r') rs) d =
    apply_writes (map (\<lambda>(r, r'). SetBalance (a_id r) (a_balance r')) rs) d"
proof (rule PutAccounts_are_SetBalances, rule ballI)
  fix p assume "p \<in> set rs"
  then obtain r r' where p: "p = (r, r')" and mem: "(r, r') \<in> set rs"
    by (metis surj_pair)
  note r = update_accounts_mem [OF assms mem]
  have "identity q = identity r" if "q \<in> set (accounts d)" "a_id q = a_id r" for q
  proof -
    have "inj_on a_id (set (accounts d))"
      using assms(1) by (simp add: constraints_def distinct_map)
    then show ?thesis
      using r that by (metis inj_onD)
  qed
  then have "\<forall>k \<in> set (map identity (accounts d)). fst k = a_id r \<longrightarrow> k = identity r"
    by (simp add: identity_def)
  with r p show "case p of (r, r') \<Rightarrow> identity r' = identity r \<and>
      (\<forall>k \<in> set (map identity (accounts d)). fst k = a_id r \<longrightarrow> k = identity r)"
    by simp
qed

lemma mutate_rows_refused:
  assumes "\<And>r. trigger r = Err err" and "mutate_rows trigger c p rs = Ok cs"
  shows "cs = []"
  using assms by (cases "filter p rs") (auto simp: mutate_rows_def)

lemma exec_stmt_guarded:
  assumes "constraints d" and "exec_stmt x s d = Ok cs"
  shows "\<exists>ws. writes_ok x d ws \<and> apply_changes cs d = apply_writes ws d \<and>
    queued_entries cs = inserted_entries ws"
proof (cases s)
  case (SInsertAccount r)
  then have "insert_accounts_row r d = Ok [InsertAccount r]" "write_ok x d (InsertAccount r)"
      "cs = map Written [InsertAccount r]"
    using assms(2) insert_accounts_row_guarded [of r d _ x]
    by (auto simp: written_def result_simps)
  then show ?thesis
    by (intro exI [of _ "[InsertAccount r]"]) simp
next
  case (SInsertTransaction r)
  then have "insert_transactions_row r d = Ok [InsertTransaction r]" "write_ok x d (InsertTransaction r)"
      "cs = map Written [InsertTransaction r]"
    using assms(2) insert_transactions_row_guarded [of r d _ x]
    by (auto simp: written_def result_simps)
  then show ?thesis
    by (intro exI [of _ "[InsertTransaction r]"]) simp
next
  case (SInsertEntry r amount)
  then obtain ws where "insert_entries_row x r amount d = Ok ws" "cs = map Written ws"
    using assms(2) by (auto simp: written_def result_simps)
  then obtain e where "write_ok x d (InsertEntry e)" "cs = map Written [InsertEntry e]"
    using insert_entries_row_guarded by blast
  then show ?thesis
    by (intro exI [of _ "[InsertEntry e]"]) simp
next
  case (SUpdateAccounts p f)
  then obtain rs where "update_accounts p f d = Ok rs"
      "cs = map (\<lambda>(r, r'). PutAccount (a_id r) r') rs"
    using assms(2) by (auto simp: result_simps)
  then show ?thesis
    using update_accounts_guarded [OF assms(1)] update_accounts_effect [OF assms(1)]
    by (metis queued_entries_Puts inserted_entries_SetBalances)
qed (use assms(2) in \<open>auto simp: reject_mutation_def reject_account_delete_def
       dest!: mutate_rows_refused [rotated] intro!: exI [of _ "[]"]\<close>)

section \<open>The interface to the statements\<close>

locale guarded_statement =
  fixes stmt :: "xid \<Rightarrow> db \<Rightarrow> (sqlx_error, change list) result"
  assumes guarded: "constraints d \<Longrightarrow> stmt x d = Ok cs \<Longrightarrow>
    \<exists>ws. writes_ok x d ws \<and> apply_changes cs d = apply_writes ws d \<and> queued_entries cs = inserted_entries ws"
begin

lemma keeps_constraints: "constraints d \<Longrightarrow> stmt x d = Ok cs \<Longrightarrow> constraints (apply_changes cs d)"
  using guarded constraints_writes by metis

text \<open>A statement and what follows it, as one list of writes.\<close>

lemma followed_by:
  assumes "constraints d" and "stmt x d = Ok cs"
    and "constraints (apply_changes cs d) \<Longrightarrow>
      \<exists>ws. writes_ok x (apply_changes cs d) ws \<and>
        apply_changes bs (apply_changes cs d) = apply_writes ws (apply_changes cs d) \<and>
        queued_entries bs = inserted_entries ws"
  shows "\<exists>ws. writes_ok x d ws \<and> apply_changes (cs @ bs) d = apply_writes ws d \<and>
    queued_entries (cs @ bs) = inserted_entries ws"
proof -
  obtain ws where ws: "writes_ok x d ws" "apply_changes cs d = apply_writes ws d"
    "queued_entries cs = inserted_entries ws"
    using guarded [OF assms(1,2)] by blast
  obtain vs where "writes_ok x (apply_writes ws d) vs"
    "apply_changes bs (apply_writes ws d) = apply_writes vs (apply_writes ws d)"
    "queued_entries bs = inserted_entries vs"
    using assms(3) [OF keeps_constraints [OF assms(1,2)]] unfolding ws(2) by blast
  with ws show ?thesis
    by (intro exI [of _ "ws @ vs"]) simp
qed

end

interpretation any_stmt: guarded_statement "\<lambda>x d. exec_stmt x s d" for s
  by unfold_locales (rule exec_stmt_guarded)

interpretation insert_account: guarded_statement
  "\<lambda>x d. written (sql_insert_account now i name cur allows d)" for now i name cur allows
  by unfold_locales
    (use any_stmt.guarded [where s = "SInsertAccount r" for r] in \<open>simp add: sql_insert_account_def\<close>)

interpretation insert_transaction: guarded_statement
  "\<lambda>x d. written (sql_insert_transaction x now i key hash descr d)" for now i key hash descr
  by unfold_locales
    (use any_stmt.guarded [where s = "SInsertTransaction r" for r] in
      \<open>simp add: sql_insert_transaction_def\<close>)

interpretation insert_entry: guarded_statement
  "\<lambda>x d. written (sql_insert_entry x now i t a dir amount cur d)" for now i t a dir amount cur
  by unfold_locales
    (use any_stmt.guarded [where s = "SInsertEntry r amount" for r] in
      \<open>simp add: sql_insert_entry_def\<close>)

interpretation adjust_balance: guarded_statement "\<lambda>x d. written (sql_adjust_balance i delta d)" for i delta
proof
  fix d x cs assume "constraints d" "written (sql_adjust_balance i delta d) = Ok cs"
  then obtain rs where rs: "update_accounts (\<lambda>r. a_id r = i) (add_to_balance delta) d = Ok rs"
      "cs = map Written (map (\<lambda>(r, r'). SetBalance (a_id r) (a_balance r')) rs)"
    by (auto simp: written_def sql_adjust_balance_def result_simps simp del: map_map)
  obtain ws where "writes_ok x d ws" "cs = map Written ws"
    using update_accounts_guarded [OF \<open>constraints d\<close> rs(1)] rs(2) by blast
  then show "\<exists>ws. writes_ok x d ws \<and> apply_changes cs d = apply_writes ws d \<and>
      queued_entries cs = inserted_entries ws"
    by auto
qed

section \<open>Committed states\<close>

text \<open>
  \<open>schema_inv x d\<close>: \<open>d\<close> is a committed state and \<open>x\<close> the next transaction id. Every transaction
  that has entries passes the balance trigger, and the database transaction that wrote its entries
  is over.
\<close>

definition schema_inv :: "xid \<Rightarrow> db \<Rightarrow> bool" where
  "schema_inv x d \<longleftrightarrow> constraints d \<and>
     (\<forall>e \<in> set (entries d). assert_transaction_balanced d (e_transaction_id e) = None) \<and>
     (\<forall>e \<in> set (entries d). \<forall>t. transaction_row d (e_transaction_id e) = Some t \<longrightarrow> t_created_xid t < x)"

lemma schema_inv_empty: "schema_inv x empty_db"
  by (simp add: schema_inv_def constraints_def empty_db_def)

lemma schema_inv_mono: "schema_inv x d \<Longrightarrow> x \<le> y \<Longrightarrow> schema_inv y d"
  unfolding schema_inv_def by (metis order_less_le_trans)

lemma sql_commit_Ok_iff:
  "sql_commit es d = Ok () \<longleftrightarrow> (\<forall>e \<in> set es. assert_transaction_balanced d (e_transaction_id e) = None)"
  by (induction es d rule: sql_commit.induct) (auto split: option.splits)

lemma sql_commit_not_Panic [simp]: "sql_commit es d \<noteq> Panic"
  by (induction es d rule: sql_commit.induct) (auto split: option.splits)

text \<open>An entry is only ever written under a parent of the same database transaction.\<close>

lemma inserted_parent:
  assumes "writes_ok x d ws" and "e \<in> set (inserted_entries ws)"
  shows "map_option t_created_xid (transaction_row (apply_writes ws d) (e_transaction_id e)) = Some x"
  using assms
proof (induction ws arbitrary: d)
  case (Cons w ws)
  show ?case
  proof (cases "w = InsertEntry e")
    case True
    then obtain t where "transaction_row d (e_transaction_id e) = Some t" "t_created_xid t = x"
      using Cons.prems(1) by auto
    then show ?thesis
      using transaction_row_stable [of d _ t "w # ws"] by simp
  next
    case False
    then have "e \<in> set (inserted_entries ws)"
      using Cons.prems(2) by (cases w) auto
    with Cons show ?thesis by simp
  qed
qed simp

text \<open>No entry belongs to a transaction that database transaction \<open>x\<close> wrote.\<close>

definition xid_unused :: "xid \<Rightarrow> db \<Rightarrow> bool" where
  "xid_unused x d \<longleftrightarrow>
     (\<forall>e \<in> set (entries d). \<forall>t. transaction_row d (e_transaction_id e) = Some t \<longrightarrow> t_created_xid t \<noteq> x)"

lemma schema_inv_unused: "schema_inv x d \<Longrightarrow> xid_unused x d"
  by (fastforce simp: schema_inv_def xid_unused_def)

lemma old_entries_untouched:
  assumes "constraints d" and "xid_unused x d" and "writes_ok x d ws" and "e \<in> set (entries d)"
  shows "entries_of (apply_writes ws d) (e_transaction_id e) = entries_of d (e_transaction_id e)"
proof -
  obtain t where t: "transaction_row d (e_transaction_id e) = Some t" "t_created_xid t \<noteq> x"
    using assms(1,2,4) by (auto simp: xid_unused_def constraints_def entry_ok_def)
  have "e_transaction_id f \<noteq> e_transaction_id e" if "f \<in> set (inserted_entries ws)" for f
    using inserted_parent [OF assms(3) that] transaction_row_stable [OF t(1), of ws] t(2)
    by (metis option.map(2) option.inject)
  then show ?thesis
    by (simp add: entries_of_def entries_apply_writes)
qed

lemma assert_transaction_balanced_cong:
  "entries_of d t = entries_of d' t \<Longrightarrow>
     assert_transaction_balanced d t = assert_transaction_balanced d' t"
  by (simp add: assert_transaction_balanced_def)

lemma commit_schema_inv:
  assumes inv: "schema_inv y d" and new: "xid_unused x d" and ok: "writes_ok x d ws" and "x < y"
    and commit: "sql_commit (inserted_entries ws) (apply_writes ws d) = Ok ()"
  shows "schema_inv y (apply_writes ws d)"
proof -
  let ?d = "apply_writes ws d"
  have cons: "constraints d"
    using inv by (simp add: schema_inv_def)
  then have "constraints ?d"
    using ok constraints_writes by simp
  moreover have "assert_transaction_balanced ?d (e_transaction_id e) = None \<and>
      (\<forall>t. transaction_row ?d (e_transaction_id e) = Some t \<longrightarrow> t_created_xid t < y)"
    if "e \<in> set (entries ?d)" for e
  proof (cases "e \<in> set (entries d)")
    case True
    then have "assert_transaction_balanced ?d (e_transaction_id e) =
        assert_transaction_balanced d (e_transaction_id e)"
      using old_entries_untouched [OF cons new ok] assert_transaction_balanced_cong by blast
    moreover obtain t where "transaction_row d (e_transaction_id e) = Some t" "t_created_xid t < y"
      using inv True by (auto simp: schema_inv_def constraints_def entry_ok_def)
    ultimately show ?thesis
      using inv True transaction_row_stable by (auto simp: schema_inv_def)
  next
    case False
    with that have "e \<in> set (inserted_entries ws)"
      by (simp add: entries_apply_writes)
    then show ?thesis
      using commit inserted_parent [OF ok, of e] \<open>x < y\<close> by (auto simp: sql_commit_Ok_iff)
  qed
  ultimately show ?thesis
    by (simp add: schema_inv_def)
qed

lemma exec_stmts_guarded:
  "constraints d \<Longrightarrow> exec_stmts x ss d = Ok cs \<Longrightarrow>
     \<exists>ws. writes_ok x d ws \<and> apply_changes cs d = apply_writes ws d \<and>
       queued_entries cs = inserted_entries ws"
proof (induction ss arbitrary: d cs)
  case (Cons s ss)
  then obtain bs as where s: "exec_stmt x s d = Ok bs"
    and ss: "exec_stmts x ss (apply_changes bs d) = Ok as" and cs: "cs = bs @ as"
    by (auto simp: result_simps)
  show ?case
    unfolding cs by (rule any_stmt.followed_by [OF Cons.prems(1) s]) (use Cons.IH ss in blast)
qed (auto intro!: exI [of _ "[]"])

lemma sql_session_OkE:
  assumes "constraints d" and "sql_session x ss d = Ok d'"
  obtains ws where "writes_ok x d ws" and "d' = apply_writes ws d"
    and "sql_commit (inserted_entries ws) d' = Ok ()"
proof -
  obtain cs where cs: "exec_stmts x ss d = Ok cs" "d' = apply_changes cs d"
    "sql_commit (queued_entries cs) d' = Ok ()"
    using assms(2) by (auto simp: sql_session_def result_simps)
  then show thesis
    using exec_stmts_guarded [OF assms(1) cs(1)] that by metis
qed

lemma sql_session_schema_inv:
  assumes "schema_inv x d" and "sql_session x ss d = Ok d'"
  shows "schema_inv (Suc x) d' \<and> extends d d'"
proof -
  have "constraints d"
    using assms(1) by (simp add: schema_inv_def)
  then obtain ws where ws: "writes_ok x d ws" "d' = apply_writes ws d"
    "sql_commit (inserted_entries ws) d' = Ok ()"
    using assms(2) by (rule sql_session_OkE)
  then show ?thesis
    using commit_schema_inv [OF schema_inv_mono [OF assms(1)] schema_inv_unused [OF assms(1)], of "Suc x"]
      apply_writes_extends by simp
qed

section \<open>Consequences for sums over the log\<close>

lemma net_of_append [simp]: "net_of (es @ fs) = net_of es + net_of fs"
  by (simp add: net_of_def)

lemma balanced_net: "assert_transaction_balanced d t = None \<Longrightarrow> net_of (entries_of d t) = 0"
  by (simp add: assert_transaction_balanced_def Let_def split: if_splits)

text \<open>A sum over the log splits by any projection of its entries.\<close>

lemma net_of_partition:
  "net_of es = (\<Sum>k \<in> f ` set es. net_of (filter (\<lambda>e. f e = k) es))"
proof -
  have "net_of (filter P es) = (\<Sum>k \<in> K. net_of (filter (\<lambda>e. P e \<and> f e = k) es))"
    if "finite K" "f ` set es \<subseteq> K" for P K
    using that
  proof (induction es)
    case Nil
    then show ?case by (simp add: net_of_def)
  next
    case (Cons e es)
    have "(\<Sum>k \<in> K. net_of (filter (\<lambda>e. P e \<and> f e = k) (e # es))) =
        (\<Sum>k \<in> K. (if f e = k \<and> P e then e_signed e else 0) +
          net_of (filter (\<lambda>e. P e \<and> f e = k) es))"
      by (rule sum.cong) (auto simp: net_of_def)
    also have "\<dots> = (if P e then e_signed e else 0) +
        (\<Sum>k \<in> K. net_of (filter (\<lambda>e. P e \<and> f e = k) es))"
      using Cons.prems by (simp add: sum.distrib sum.delta')
    finally show ?case
      using Cons by (auto simp: net_of_def)
  qed
  from this [of "f ` set es" "\<lambda>_. True"] show ?thesis by simp
qed

lemma schema_inv_global_zero: "schema_inv x d \<Longrightarrow> net_of (entries d) = 0"
  using net_of_partition [of "entries d" e_transaction_id] balanced_net
  by (auto simp: schema_inv_def entries_of_def intro!: sum.neutral)

section \<open>Properties\<close>

text \<open>
  C11: whatever sequence of \<open>INSERT\<close>, \<open>UPDATE\<close> and \<open>DELETE\<close> statements a client sends in one database
  transaction, a state in which every transaction with entries is balanced becomes another such
  state when it commits, and history is append-only: no transaction or entry is changed or removed
  and no account changes anything but its balance. \<open>TRUNCATE\<close> is not one of these statements.
\<close>

theorem any_session_keeps_books:
  assumes "schema_inv x d" and "sql_session x ss d = Ok d'"
  shows "schema_inv (Suc x) d' \<and> extends d d'"
  by (rule sql_session_schema_inv [OF assms])

definition sample_account :: "uuid \<Rightarrow> bool \<Rightarrow> accounts_row" where
  "sample_account i allows =
     \<lparr>a_id = i, a_name = lit ''cash'', a_currency = lit ''EUR'', a_balance = 0,
      a_allows_negative_balance = allows, a_created_at = 0\<rparr>"

definition sample_transaction :: "uuid \<Rightarrow> xid \<Rightarrow> transactions_row" where
  "sample_transaction i x =
     \<lparr>t_id = i, t_idempotency_key = lit ''k'', t_request_hash = replicate 32 0, t_description = [],
      t_created_xid = x, t_created_at = 0\<rparr>"

definition sample_entries_row :: "uuid \<Rightarrow> uuid \<Rightarrow> uuid \<Rightarrow> direction \<Rightarrow> entries_row" where
  "sample_entries_row i t a dir =
     \<lparr>e_id = i, e_transaction_id = t, e_account_id = a, e_direction = dir, e_amount = 0,
      e_currency = lit ''EUR'', e_created_at = 0\<rparr>"

definition sample_session :: "sql_stmt list" where
  "sample_session =
     [SInsertAccount (sample_account 1 True), SInsertAccount (sample_account 2 False),
      SInsertTransaction (sample_transaction 3 7),
      SInsertEntry (sample_entries_row 4 3 1 Credit) 5, SInsertEntry (sample_entries_row 5 3 2 Debit) 5,
      SUpdateAccounts (\<lambda>r. a_id r = 2) (\<lambda>r. Some (r\<lparr>a_balance := 500000000\<rparr>)),
      SDeleteEntries (\<lambda>e. e_amount e = 1)]"

lemma numeric_20_8_five: "numeric_20_8 5 = Some 500000000"
  using numeric_20_8_of_units [of 500000000] by simp

lemma sample_session_commits: "\<exists>d. sql_session 7 sample_session empty_db = Ok d"
  by (simp add: sql_session_def sample_session_def empty_db_def insert_accounts_row_def
      insert_transactions_row_def insert_entries_row_def text_ok_def lit_def accounts_check_def
      currency_shape_def sample_account_def sample_transaction_def sample_entries_row_def
      transactions_check_def entries_check_def assert_entry_in_parent_xact_def account_row_def
      transaction_row_def key_row_def row_def apply_write.simps numeric_20_8_five Let_def
      written_def update_accounts_def update_accounts_row_def reject_account_update_def
      update_rows_def mutate_rows_def
      assert_transaction_balanced_def entries_of_def net_of_def e_signed_def)

theorem any_session_keeps_books_witness:
  "\<exists>d. sql_session 7 sample_session empty_db = Ok d \<and> schema_inv 8 d \<and> extends empty_db d"
  using sample_session_commits any_session_keeps_books [OF schema_inv_empty, of 7 sample_session]
  by fastforce

text \<open>
  \<open>COMMIT\<close> succeeds exactly when every transaction that received an entry has at least two
  entries, one currency and net zero; otherwise the whole database transaction is refused with a
  check violation and nothing is written.
\<close>

lemma commit_checks_balance:
  "(sql_commit es d = Ok () \<longleftrightarrow>
     (\<forall>e \<in> set es. let rs = entries_of d (e_transaction_id e) in
        2 \<le> length rs \<and> length (remdups (map e_currency rs)) = 1 \<and> net_of rs = 0)) \<and>
   (sql_commit es d \<noteq> Ok () \<longrightarrow> (\<exists>constr. sql_commit es d = Err (check_violation constr)))"
proof
  show "sql_commit es d = Ok () \<longleftrightarrow>
     (\<forall>e \<in> set es. let rs = entries_of d (e_transaction_id e) in
        2 \<le> length rs \<and> length (remdups (map e_currency rs)) = 1 \<and> net_of rs = 0)"
    by (auto simp: sql_commit_Ok_iff assert_transaction_balanced_def Let_def split: if_splits)
  show "sql_commit es d \<noteq> Ok () \<longrightarrow> (\<exists>constr. sql_commit es d = Err (check_violation constr))"
    by (induction es d rule: sql_commit.induct) (auto split: option.splits)
qed

lemma commit_checks_balance_example:
  "\<exists>constr. sql_commit [sample_entries_row 4 3 1 Credit]
     \<lparr>accounts = [], transactions = [], entries = [sample_entries_row 4 3 1 Credit]\<rparr> =
     Err (check_violation constr)"
  using commit_checks_balance [of "[sample_entries_row 4 3 1 Credit]"
      "\<lparr>accounts = [], transactions = [], entries = [sample_entries_row 4 3 1 Credit]\<rparr>"]
  by (simp add: entries_of_def sample_entries_row_def Let_def)

text \<open>
  A transaction that is committed with its entries is sealed: no later database transaction can
  attach another entry to it, whatever the entry and however balanced its own writes are.
\<close>

lemma sealed_transaction:
  assumes "schema_inv x d" and "e \<in> set (entries d)" and "x \<le> y"
    and "e_transaction_id r = e_transaction_id e"
  shows "\<exists>err. insert_entries_row y r amount d = Err err"
proof -
  obtain t where "transaction_row d (e_transaction_id e) = Some t" "t_created_xid t < y"
    using assms(1-3) by (fastforce simp: schema_inv_def constraints_def entry_ok_def)
  then show ?thesis
    using assms(4) by (auto simp: insert_entries_row_def assert_entry_in_parent_xact_def split: option.split)
qed

definition sample_books :: db where
  "sample_books =
     \<lparr>accounts = [sample_account 1 True, sample_account 2 False],
      transactions = [sample_transaction 3 7],
      entries = [(sample_entries_row 4 3 1 Credit)\<lparr>e_amount := 5\<rparr>,
                 (sample_entries_row 5 3 2 Debit)\<lparr>e_amount := 5\<rparr>]\<rparr>"

lemma sample_books_inv: "schema_inv 8 sample_books"
  by (simp add: sample_books_def schema_inv_def constraints_def account_ok_def entry_ok_def
      sample_account_def sample_transaction_def sample_entries_row_def accounts_check_def lit_def
      currency_shape_def account_row_def transaction_row_def row_def net_of_def e_signed_def
      assert_transaction_balanced_def entries_of_def)

lemma sealed_transaction_example:
  "\<exists>err. insert_entries_row 8 (sample_entries_row 6 3 1 Credit) 5 sample_books = Err err"
  by (rule sealed_transaction [OF sample_books_inv,
        of "(sample_entries_row 4 3 1 Credit)\<lparr>e_amount := 5\<rparr>" 8 "sample_entries_row 6 3 1 Credit"])
     (simp_all add: sample_books_def sample_entries_row_def)

end
