(* ===== verification/Reconciliation.thy ===== *)
theory Reconciliation
  imports Schema_Invariants
begin

text \<open>
  The post-factum control: \<open>account_balances_derived\<close> and \<open>ledger_check_invariants()\<close> of
  \<open>migrations/0001_init.sql\<close>, and \<open>check_invariants\<close> of \<open>src/db/mod.rs\<close>. \<open>ledger_inv\<close> is what the
  service promises of every committed state. What the sweep reports is characterised for any contents
  of the tables, since it is there to check the constraints and triggers and not to rely on them.
\<close>

section \<open>The sweep\<close>

definition derived_balance :: "db \<Rightarrow> uuid \<Rightarrow> int" where
  "derived_balance d i = net_of (filter (\<lambda>e. e_account_id e = i) (entries d))"

text \<open>
  The view. A sum of scale 8 needs no rounding, so the cast to \<open>NUMERIC(20, 8)\<close> can only overflow.
  \<open>id\<close> is the primary key of \<open>accounts\<close>, so each group of the view is one account.
\<close>

definition account_balances_derived :: "db \<Rightarrow> (sqlx_error, (uuid \<times> str \<times> int) list) result" where
  "account_balances_derived d =
     collect (map (\<lambda>a. let b = derived_balance d (a_id a) in
                       if \<bar>b\<bar> < 10 ^ 20 then Ok (a_id a, a_currency a, b) else Err numeric_overflow)
                  (accounts d))"

record invariant_check =
  ic_invariant :: string
  ic_ok :: bool
  ic_detail :: str

text \<open>Text form of a sum of \<open>NUMERIC(20, 8)\<close> values; over no rows it is the literal 0.\<close>

definition numeric_text :: "entries_row list \<Rightarrow> str" where
  "numeric_text es =
     (if es = [] then lit ''0''
      else let u = net_of es; m = nat \<bar>u\<bar> in
           (if u < 0 then lit ''-'' else []) @ nat_digits (m div 10 ^ 8) @ lit ''.'' @
           frac_digits 8 (m mod 10 ^ 8))"

definition count_check :: "string \<Rightarrow> 'a list \<Rightarrow> string \<Rightarrow> invariant_check" where
  "count_check name bad text =
     \<lparr>ic_invariant = name, ic_ok = (length bad = 0), ic_detail = nat_digits (length bad) @ lit text\<rparr>"

definition entry_transactions :: "db \<Rightarrow> uuid list" where
  "entry_transactions d = remdups (map e_transaction_id (entries d))"

definition ledger_check_invariants :: "db \<Rightarrow> (sqlx_error, invariant_check list) result" where
  "ledger_check_invariants d =
     and_then (account_balances_derived d) (\<lambda>view. Ok [
       \<lparr>ic_invariant = ''global_sum_zero'', ic_ok = (net_of (entries d) = 0),
        ic_detail = lit ''net = '' @ numeric_text (entries d)\<rparr>,
       count_check ''per_transaction_balanced''
         (filter (\<lambda>t. net_of (entries_of d t) \<noteq> 0) (entry_transactions d))
         '' unbalanced transaction(s)'',
       count_check ''transaction_shape''
         (filter (\<lambda>t. length (entries_of d t) < 2 \<or>
                      length (remdups (map e_currency (entries_of d t))) \<noteq> 1) (entry_transactions d))
         '' transaction(s) with <2 entries or mixed currency'',
       count_check ''no_empty_transactions''
         (filter (\<lambda>t. \<not> (\<exists>e \<in> set (entries d). e_transaction_id e = t_id t)) (transactions d))
         '' transaction(s) with no entries'',
       count_check ''materialized_balance_matches_entries''
         (concat (map (\<lambda>a. filter (\<lambda>(i, c, b). i = a_id a \<and> a_balance a \<noteq> b) view) (accounts d)))
         '' account(s) drifted from the entry log'',
       count_check ''no_unauthorized_negative_balance''
         (filter (\<lambda>a. a_balance a < 0 \<and> \<not> a_allows_negative_balance a) (accounts d))
         '' account(s) negative without allows_negative_balance'',
       count_check ''idempotency_keys_unique''
         (filter (\<lambda>k. 1 < count_list (map t_idempotency_key (transactions d)) k)
            (remdups (map t_idempotency_key (transactions d))))
         '' duplicated idempotency key(s)''])"

text \<open>\<open>db::check_invariants\<close>; the first argument is a failure of the call itself, if any.\<close>

definition check_invariants ::
  "sqlx_error option \<Rightarrow> db \<Rightarrow> (sqlx_error, invariant_check list) result" where
  "check_invariants fault d =
     (case fault of Some e \<Rightarrow> Err e | None \<Rightarrow> ledger_check_invariants d)"

section \<open>What the service promises\<close>

definition ledger_inv :: "xid \<Rightarrow> db \<Rightarrow> bool" where
  "ledger_inv x d \<longleftrightarrow> schema_inv x d \<and>
     (\<forall>t \<in> set (transactions d). entries_of d (t_id t) \<noteq> []) \<and>
     (\<forall>a \<in> set (accounts d). a_balance a = derived_balance d (a_id a))"

lemma ledger_inv_empty: "ledger_inv x empty_db"
  by (simp add: ledger_inv_def schema_inv_empty) (simp add: empty_db_def)

lemma ledger_inv_mono: "ledger_inv x d \<Longrightarrow> x \<le> y \<Longrightarrow> ledger_inv y d"
  using schema_inv_mono [of x d y] by (simp add: ledger_inv_def)

definition sweep_passes :: "db \<Rightarrow> bool" where
  "sweep_passes d =
     (case ledger_check_invariants d of Ok rows \<Rightarrow> list_all ic_ok rows | _ \<Rightarrow> False)"

lemma count_check_ok [simp]: "ic_ok (count_check name bad text) \<longleftrightarrow> bad = []"
  by (simp add: count_check_def)

lemma collect_eq_Ok:
  "collect rs = Ok xs \<longleftrightarrow> rs = map Ok xs"
  by (induction rs arbitrary: xs) (auto simp: result_simps)

lemma view_Ok_iff:
  "account_balances_derived d = Ok view \<longleftrightarrow>
     (\<forall>a \<in> set (accounts d). \<bar>derived_balance d (a_id a)\<bar> < 10 ^ 20) \<and>
     view = map (\<lambda>a. (a_id a, a_currency a, derived_balance d (a_id a))) (accounts d)"
  unfolding account_balances_derived_def collect_eq_Ok Let_def
  by (auto simp: list_eq_iff_nth_eq all_set_conv_all_nth split: if_splits)

lemma distinct_iff_count: "distinct xs \<longleftrightarrow> (\<forall>k \<in> set xs. \<not> 1 < count_list xs k)"
proof (induction xs)
  case (Cons x xs)
  have "0 < count_list xs x \<longleftrightarrow> x \<in> set xs"
    using count_list_0_iff [of xs x] by auto
  moreover have "\<not> 1 < count_list xs k" if "k \<notin> set xs" for k
    using that by (simp add: count_list_0_iff)
  ultimately show ?case
    using Cons by auto
qed simp

lemma shape_iff:
  "assert_transaction_balanced d t = None \<longleftrightarrow>
     2 \<le> length (entries_of d t) \<and> length (remdups (map e_currency (entries_of d t))) = 1 \<and>
     net_of (entries_of d t) = 0"
  by (auto simp: assert_transaction_balanced_def Let_def)

lemma entries_of_eq_Nil: "entries_of d t = [] \<longleftrightarrow> (\<forall>e \<in> set (entries d). e_transaction_id e \<noteq> t)"
  by (simp add: entries_of_def filter_empty_conv)

text \<open>What the rows of the sweep say, one by one.\<close>

lemma key_check:
  "filter (\<lambda>k. 1 < count_list (map t_idempotency_key (transactions d)) k)
     (remdups (map t_idempotency_key (transactions d))) = [] \<longleftrightarrow>
   distinct (map t_idempotency_key (transactions d))"
  unfolding distinct_iff_count [of "map t_idempotency_key (transactions d)"]
  by (simp add: filter_empty_conv)

lemma negative_check:
  "filter (\<lambda>a. a_balance a < 0 \<and> \<not> a_allows_negative_balance a) (accounts d) = [] \<longleftrightarrow>
   (\<forall>a \<in> set (accounts d). a_allows_negative_balance a \<or> 0 \<le> a_balance a)"
  by (auto simp: filter_empty_conv)

lemma cache_check:
  "concat (map (\<lambda>a. filter (\<lambda>(i, c, b). i = a_id a \<and> a_balance a \<noteq> b)
      (map (\<lambda>a. (a_id a, a_currency a, derived_balance d (a_id a))) (accounts d))) (accounts d)) = [] \<longleftrightarrow>
   (\<forall>a \<in> set (accounts d). a_balance a = derived_balance d (a_id a))"
  by (auto simp: filter_empty_conv)

lemma empty_check:
  "filter (\<lambda>t. \<not> (\<exists>e \<in> set (entries d). e_transaction_id e = t_id t)) (transactions d) = [] \<longleftrightarrow>
   (\<forall>t \<in> set (transactions d). entries_of d (t_id t) \<noteq> [])"
  by (simp add: filter_empty_conv entries_of_eq_Nil)

text \<open>The verdicts of the seven rows, in their order, whatever the tables hold.\<close>

lemma sweep_rows:
  assumes "ledger_check_invariants d = Ok rows"
  shows "map (\<lambda>c. (ic_invariant c, ic_ok c)) rows =
    [(''global_sum_zero'', net_of (entries d) = 0),
     (''per_transaction_balanced'',
      \<forall>e \<in> set (entries d). net_of (entries_of d (e_transaction_id e)) = 0),
     (''transaction_shape'',
      \<forall>e \<in> set (entries d). 2 \<le> length (entries_of d (e_transaction_id e)) \<and>
        card (e_currency ` set (entries_of d (e_transaction_id e))) = 1),
     (''no_empty_transactions'', \<forall>t \<in> set (transactions d). entries_of d (t_id t) \<noteq> []),
     (''materialized_balance_matches_entries'',
      \<forall>a \<in> set (accounts d). a_balance a = derived_balance d (a_id a)),
     (''no_unauthorized_negative_balance'',
      \<forall>a \<in> set (accounts d). a_allows_negative_balance a \<or> 0 \<le> a_balance a),
     (''idempotency_keys_unique'', distinct (map t_idempotency_key (transactions d)))]"
proof -
  obtain view where view: "account_balances_derived d = Ok view"
    using assms by (auto simp: ledger_check_invariants_def result_simps)
  then have v: "view = map (\<lambda>a. (a_id a, a_currency a, derived_balance d (a_id a))) (accounts d)"
    by (simp add: view_Ok_iff)
  have "filter (\<lambda>t. net_of (entries_of d t) \<noteq> 0) (entry_transactions d) = [] \<longleftrightarrow>
      (\<forall>e \<in> set (entries d). net_of (entries_of d (e_transaction_id e)) = 0)"
    by (simp add: filter_empty_conv entry_transactions_def)
  moreover have "filter (\<lambda>t. length (entries_of d t) < 2 \<or>
        length (remdups (map e_currency (entries_of d t))) \<noteq> 1) (entry_transactions d) = [] \<longleftrightarrow>
      (\<forall>e \<in> set (entries d). 2 \<le> length (entries_of d (e_transaction_id e)) \<and>
        card (e_currency ` set (entries_of d (e_transaction_id e))) = 1)"
    by (simp add: filter_empty_conv entry_transactions_def not_less length_remdups_card_conv)
  ultimately show ?thesis
    using assms cache_check [of d] empty_check [of d] key_check [of d] negative_check [of d]
    unfolding ledger_check_invariants_def view v
    by (auto simp only: and_then.simps result.inject list.map count_check_ok invariant_check.simps
        count_check_def list.size length_0_conv)
qed

lemma ledger_check_invariants_Ok_iff:
  "(\<exists>rows. ledger_check_invariants d = Ok rows) \<longleftrightarrow>
     (\<forall>a \<in> set (accounts d). \<bar>derived_balance d (a_id a)\<bar> < 10 ^ 20)"
  using view_Ok_iff [of d] by (auto simp: ledger_check_invariants_def result_simps)

lemma sweep_passes_rows:
  assumes "ledger_check_invariants d = Ok rows"
  shows "sweep_passes d \<longleftrightarrow> list_all id (map snd (map (\<lambda>c. (ic_invariant c, ic_ok c)) rows))"
  using assms by (simp add: sweep_passes_def list_all_iff)

lemma sweep_passes_any:
  "sweep_passes d \<longleftrightarrow>
    (\<forall>a \<in> set (accounts d). \<bar>derived_balance d (a_id a)\<bar> < 10 ^ 20) \<and>
    (\<forall>e \<in> set (entries d). net_of (entries_of d (e_transaction_id e)) = 0 \<and>
      2 \<le> length (entries_of d (e_transaction_id e)) \<and>
      card (e_currency ` set (entries_of d (e_transaction_id e))) = 1) \<and>
    (\<forall>t \<in> set (transactions d). entries_of d (t_id t) \<noteq> []) \<and>
    (\<forall>a \<in> set (accounts d). a_balance a = derived_balance d (a_id a) \<and>
      (a_allows_negative_balance a \<or> 0 \<le> a_balance a)) \<and>
    distinct (map t_idempotency_key (transactions d))"
proof (cases "\<exists>rows. ledger_check_invariants d = Ok rows")
  case True
  then obtain rows where rows: "ledger_check_invariants d = Ok rows"
    by blast
  have "net_of (entries d) = 0" if "\<forall>e \<in> set (entries d). net_of (entries_of d (e_transaction_id e)) = 0"
    using that net_of_partition [of "entries d" e_transaction_id]
    by (auto simp: entries_of_def intro!: sum.neutral)
  then show ?thesis
    using True unfolding sweep_passes_rows [OF rows] sweep_rows [OF rows] ledger_check_invariants_Ok_iff
    by auto
next
  case False
  then show ?thesis
    using ledger_check_invariants_Ok_iff [of d]
    by (auto simp: sweep_passes_def split: result.split)
qed

text \<open>Where the constraints hold, what is left to find is what the triggers and the cache promise.\<close>

lemma sweep_passes_iff:
  assumes "constraints d"
  shows "sweep_passes d \<longleftrightarrow>
    (\<forall>e \<in> set (entries d). assert_transaction_balanced d (e_transaction_id e) = None) \<and>
    (\<forall>t \<in> set (transactions d). entries_of d (t_id t) \<noteq> []) \<and>
    (\<forall>a \<in> set (accounts d). a_balance a = derived_balance d (a_id a))"
proof -
  have "a_allows_negative_balance a \<or> 0 \<le> a_balance a" "\<bar>a_balance a\<bar> < 10 ^ 20"
    if "a \<in> set (accounts d)" for a
    using assms that
    by (auto simp: constraints_def account_ok_def accounts_check_def split: if_splits)
  moreover have "distinct (map t_idempotency_key (transactions d))"
    using assms by (simp add: constraints_def)
  ultimately show ?thesis
    unfolding sweep_passes_any shape_iff length_remdups_card_conv set_map by auto
qed

lemma ledger_inv_sweep: "ledger_inv x d \<Longrightarrow> sweep_passes d"
  using sweep_passes_iff by (auto simp: ledger_inv_def schema_inv_def)

section \<open>Balances and the log\<close>

lemma derived_balance_unused: "i \<notin> e_account_id ` set (entries d) \<Longrightarrow> derived_balance d i = 0"
proof -
  assume "i \<notin> e_account_id ` set (entries d)"
  then have "filter (\<lambda>e. e_account_id e = i) (entries d) = []"
    by (auto simp: filter_empty_conv)
  then show ?thesis
    by (simp add: derived_balance_def net_of_def)
qed

lemma derived_balance_append:
  "entries d' = entries d @ es \<Longrightarrow>
     derived_balance d' i = derived_balance d i + net_of (filter (\<lambda>e. e_account_id e = i) es)"
  by (simp add: derived_balance_def)

text \<open>The balances of all accounts add up to the whole log, hence to zero.\<close>

lemma balances_sum_zero:
  assumes "ledger_inv x d"
  shows "sum_list (map a_balance (accounts d)) = 0"
proof -
  have cons: "constraints d"
    using assms by (simp add: ledger_inv_def schema_inv_def)
  have ids: "e_account_id ` set (entries d) \<subseteq> a_id ` set (accounts d)"
  proof (rule image_subsetI)
    fix e assume "e \<in> set (entries d)"
    then obtain r where "account_row d (e_account_id e) = Some r"
      using cons by (auto simp: constraints_def entry_ok_def)
    then show "e_account_id e \<in> a_id ` set (accounts d)"
      unfolding account_row_def by (metis image_eqI row_Some)
  qed
  have "sum_list (map a_balance (accounts d)) =
      (\<Sum>a \<in> set (accounts d). derived_balance d (a_id a))"
    using assms cons
    by (simp add: ledger_inv_def constraints_def distinct_map sum_list_distinct_conv_sum_set)
  also have "\<dots> = (\<Sum>i \<in> a_id ` set (accounts d). derived_balance d i)"
    using cons by (simp add: constraints_def distinct_map sum.reindex)
  also have "\<dots> = (\<Sum>i \<in> e_account_id ` set (entries d). derived_balance d i)"
  proof (rule sum.mono_neutral_right)
    show "\<forall>i \<in> a_id ` set (accounts d) - e_account_id ` set (entries d). derived_balance d i = 0"
      using derived_balance_unused by blast
  qed (use ids in auto)
  also have "\<dots> = net_of (entries d)"
    using net_of_partition [of "entries d" e_account_id] by (simp add: derived_balance_def)
  finally show ?thesis
    using assms schema_inv_global_zero [of x d] by (simp add: ledger_inv_def)
qed

section \<open>What the triggers do not see\<close>

text \<open>
  The triggers that keep the tables append-only are \<open>BEFORE UPDATE OR DELETE ... FOR EACH ROW\<close>; \<open>TRUNCATE\<close> fires
  neither. It is only refused for a table that the foreign keys of \<open>entries\<close> refer to, unless \<open>entries\<close> is
  truncated with it. \<open>TRUNCATE\<close> is not a statement of the service and not one of \<open>exec_stmt\<close>.
\<close>

datatype ledger_table = Accounts | Transactions | Entries

definition sql_truncate :: "ledger_table list \<Rightarrow> db \<Rightarrow> (sqlx_error, db) result" where
  "sql_truncate ts d =
     (if (Accounts \<in> set ts \<or> Transactions \<in> set ts) \<and> Entries \<notin> set ts then Err (pg_error ''0A000'' None)
      else Ok \<lparr>accounts = (if Accounts \<in> set ts then [] else accounts d),
               transactions = (if Transactions \<in> set ts then [] else transactions d),
               entries = (if Entries \<in> set ts then [] else entries d)\<rparr>)"

text \<open>
  So a session of the owner can erase the log. The sweep notices when the log alone is gone, and cannot
  notice when everything is.
\<close>

lemma truncate_erases_log:
  assumes "ledger_inv x d" and "transactions d \<noteq> []"
  obtains d' where "sql_truncate [Entries] d = Ok d'" "\<not> extends d d'" "\<not> sweep_passes d'"
proof -
  let ?d = "d\<lparr>entries := []\<rparr>"
  obtain t where t: "t \<in> set (transactions d)"
    using assms(2) by (cases "transactions d") auto
  then have "entries_of d (t_id t) \<noteq> []"
    using assms(1) by (simp add: ledger_inv_def)
  then have "\<not> extends d ?d"
    by (auto simp: extends_def entries_of_def)
  moreover have "constraints ?d"
    using assms(1) by (simp add: ledger_inv_def schema_inv_def constraints_def)
  then have "\<not> sweep_passes ?d"
    using t by (auto simp: sweep_passes_iff entries_of_def)
  ultimately show thesis
    using that [of ?d] by (simp add: sql_truncate_def)
qed

lemma truncate_all_unnoticed:
  "\<exists>d'. sql_truncate [Accounts, Transactions, Entries] d = Ok d' \<and> d' = empty_db \<and> sweep_passes d'"
  using ledger_inv_sweep [OF ledger_inv_empty] by (simp add: sql_truncate_def empty_db_def)

section \<open>Properties\<close>





text \<open>
  Money is conserved: in every state the service maintains the balances of all accounts sum to
  zero, so what the unprotected funding accounts owe is exactly what the others hold.
\<close>

lemma money_conserved:
  assumes "ledger_inv x d"
  shows "sum_list (map a_balance (filter (\<lambda>a. \<not> a_allows_negative_balance a) (accounts d))) =
    - sum_list (map a_balance (filter a_allows_negative_balance (accounts d)))"
proof -
  have "sum_list (map a_balance as) =
      sum_list (map a_balance (filter (\<lambda>a. \<not> a_allows_negative_balance a) as)) +
      sum_list (map a_balance (filter a_allows_negative_balance as))" for as
    by (induction as) auto
  then show ?thesis
    using balances_sum_zero [OF assms] by (metis add_eq_0_iff2)
qed

definition sample_ledger :: db where
  "sample_ledger = sample_books\<lparr>accounts :=
     [(sample_account 1 True)\<lparr>a_balance := - 5\<rparr>, (sample_account 2 False)\<lparr>a_balance := 5\<rparr>]\<rparr>"

lemma sample_ledger_inv: "ledger_inv 8 sample_ledger"
  by (simp add: sample_ledger_def sample_books_def ledger_inv_def schema_inv_def constraints_def
      account_ok_def entry_ok_def sample_account_def sample_transaction_def sample_entries_row_def
      accounts_check_def lit_def currency_shape_def account_row_def transaction_row_def row_def
      net_of_def e_signed_def assert_transaction_balanced_def entries_of_def derived_balance_def)

lemma money_conserved_example:
  "sum_list (map a_balance (filter (\<lambda>a. \<not> a_allows_negative_balance a) (accounts sample_ledger))) =
    - sum_list (map a_balance (filter a_allows_negative_balance (accounts sample_ledger)))"
  using money_conserved [OF sample_ledger_inv] by blast

end
