(* ===== verification/Db_Accounts.thy ===== *)
theory Db_Accounts
  imports Reconciliation
begin

text \<open>
  \<open>src/db/accounts.rs\<close>: opening an account and reading one. The first argument after the crates is
  what the environment does to the call: nothing, a failure before it takes effect, or a reply lost
  after it took effect.
\<close>

section \<open>Calls to the database\<close>

datatype fault = NoFault | Fails sqlx_error | LostReply sqlx_error

fun fault_error :: "fault \<Rightarrow> sqlx_error option" where
  "fault_error NoFault = None"
| "fault_error (Fails e) = Some e"
| "fault_error (LostReply e) = Some e"

definition db_call :: "fault \<Rightarrow> (sqlx_error, 'a) result \<Rightarrow> (sqlx_error, 'a) result" where
  "db_call f r = (case fault_error f of Some e \<Rightarrow> Err e | None \<Rightarrow> r)"

lemma db_call_NoFault [simp]: "db_call NoFault r = r"
  by (simp add: db_call_def)

lemma db_call_eq_Ok [result_simps]: "db_call f r = Ok x \<longleftrightarrow> f = NoFault \<and> r = Ok x"
  by (cases f) (auto simp: db_call_def)

lemma db_call_eq_Panic [result_simps]: "db_call f r = Panic \<longleftrightarrow> f = NoFault \<and> r = Panic"
  by (cases f) (auto simp: db_call_def)

section \<open>Rows\<close>

record 'd AccountRow =
  ar_id :: uuid
  ar_name :: str
  ar_currency :: currency
  ar_balance :: 'd
  ar_allows_negative_balance :: bool
  ar_created_at :: timestamp

definition decode_account :: "'d crates \<Rightarrow> accounts_row \<Rightarrow> 'd AccountRow" where
  "decode_account C r =
     \<lparr>ar_id = a_id r, ar_name = a_name r, ar_currency = Currency (a_currency r),
      ar_balance = d_of_numeric C (a_balance r),
      ar_allows_negative_balance = a_allows_negative_balance r, ar_created_at = a_created_at r\<rparr>"

definition account_try_from :: "'d crates \<Rightarrow> 'd AccountRow \<Rightarrow> (ledger_error, 'd account) result" where
  "account_try_from C r =
     and_then (map_err MoneyError (money_new C (ar_balance r) (ar_currency r))) (\<lambda>balance.
     Ok \<lparr>account_id = ar_id r, account_name = ar_name r, account_balance = balance,
         account_allows_negative_balance = ar_allows_negative_balance r,
         account_created_at = ar_created_at r\<rparr>)"

section \<open>Operations\<close>

definition create_error :: "sqlx_error \<Rightarrow> ledger_error" where
  "create_error err =
     (case constraint_failure err of
        Some (c, _) \<Rightarrow> if c = CHECK_VIOLATION
                       then Validation (lit ''account name must be 1-255 characters'')
                       else Database err
      | None \<Rightarrow> Database err)"

text \<open>
  \<open>create\<close>: one statement in its own database transaction; \<open>i\<close> is the fresh \<open>Uuid::new_v4()\<close> and
  \<open>now\<close> the server's clock. A lost reply leaves the account created and reports an error.
\<close>

definition accounts_create ::
  "'d crates \<Rightarrow> fault \<Rightarrow> timestamp \<Rightarrow> uuid \<Rightarrow> str \<Rightarrow> currency \<Rightarrow> bool \<Rightarrow> db \<Rightarrow>
   (ledger_error, 'd account) result \<times> db" where
  "accounts_create C f now i name cur allows d =
     (case f of
        Fails e \<Rightarrow> (Err (create_error e), d)
      | _ \<Rightarrow>
        (case sql_insert_account now i name (as_str cur) allows d of
           Panic \<Rightarrow> (Panic, d)
         | Err e \<Rightarrow> (Err (create_error e), d)
         | Ok ws \<Rightarrow>
             let d' = apply_writes ws d in
             (case f of
                LostReply e \<Rightarrow> (Err (create_error e), d')
              | _ \<Rightarrow>
                (case account_row d' i of
                   None \<Rightarrow> (Err (Database (SqlxOther (lit ''row not found''))), d')
                 | Some r \<Rightarrow> (account_try_from C (decode_account C r), d')))))"

definition accounts_fetch ::
  "'d crates \<Rightarrow> fault \<Rightarrow> uuid \<Rightarrow> db \<Rightarrow> (ledger_error, 'd AccountRow option) result" where
  "accounts_fetch C f i d =
     map_err Database (db_call f (Ok (map_option (decode_account C) (account_row d i))))"

text \<open>\<open>fetch_for_update\<close> reads the same row; its lock matters between sessions only.\<close>

definition fetch_for_update ::
  "'d crates \<Rightarrow> fault \<Rightarrow> uuid \<Rightarrow> db \<Rightarrow> (ledger_error, 'd AccountRow option) result" where
  "fetch_for_update C f i d =
     map_err Database (db_call f (Ok (map_option (decode_account C) (account_row d i))))"

definition accounts_get ::
  "'d crates \<Rightarrow> fault \<Rightarrow> uuid \<Rightarrow> db \<Rightarrow> (ledger_error, 'd account) result" where
  "accounts_get C f i d =
     and_then (accounts_fetch C f i d) (\<lambda>opt.
     and_then (ok_or opt (AccountNotFound i)) (\<lambda>r. account_try_from C r))"

section \<open>Correctness\<close>

lemma constraints_account_row: "constraints d \<Longrightarrow> account_row d i = Some r \<Longrightarrow> account_ok r \<and> a_id r = i"
  by (auto simp: constraints_def account_row_def dest: row_Some)

text \<open>What a read returns of a stored row: the same identity, and the balance without rounding.\<close>

definition represents :: "'d crates \<Rightarrow> 'd account \<Rightarrow> accounts_row \<Rightarrow> bool" where
  "represents C a r \<longleftrightarrow>
     account_id a = a_id r \<and> account_name a = a_name r \<and>
     account_allows_negative_balance a = a_allows_negative_balance r \<and>
     account_created_at a = a_created_at r \<and> as_str (account_currency a) = a_currency r \<and>
     dval C (m_amount (account_balance a)) = of_int (a_balance r) / 10 ^ 8"

context crate_contracts
begin

lemma account_try_from_row:
  assumes "account_ok r"
  shows "\<exists>a. account_try_from C (decode_account C r) = Ok a \<and> represents C a r"
proof -
  have "\<bar>a_balance r\<bar> < 10 ^ 20"
    using assms by (simp add: account_ok_def)
  then have v: "dval C (d_of_numeric C (a_balance r)) = of_int (a_balance r) / 10 ^ 8"
    and "storable (of_int (a_balance r) / 10 ^ 8)"
    using of_numeric_val units_storable by blast+
  then have "storable (dval C (d_of_numeric C (a_balance r)))"
    by (simp only: v)
  then obtain m where m: "money_new C (d_of_numeric C (a_balance r)) (Currency (a_currency r)) = Ok m"
    using money_new_Ok_iff by blast
  then show ?thesis
    using money_new_OkD [OF m] v
    by (simp add: account_try_from_def decode_account_def represents_def account_currency_def)
qed

lemma accounts_get_spec:
  assumes "constraints d"
  shows "account_row d i = None \<Longrightarrow> accounts_get C NoFault i d = Err (AccountNotFound i)"
    and "account_row d i = Some r \<Longrightarrow>
      \<exists>a. accounts_get C NoFault i d = Ok a \<and> represents C a r"
  using account_try_from_row constraints_account_row [OF assms]
  by (auto simp: accounts_get_def accounts_fetch_def)

lemma accounts_create_Ok:
  assumes "constraints d" and "account_row d i = None"
    and "1 \<le> length name" and "length name \<le> 255" and "0 \<notin> set name"
    and "as_str cur \<in> set ISO_4217"
  shows "\<exists>a r. accounts_create C NoFault now i name cur allows d = (Ok a, d\<lparr>accounts := accounts d @ [r]\<rparr>) \<and>
    represents C a r \<and> a_id r = i \<and> a_name r = name \<and> a_currency r = as_str cur \<and>
    a_balance r = 0 \<and> a_allows_negative_balance r = allows"
proof -
  let ?r = "\<lparr>a_id = i, a_name = name, a_currency = as_str cur, a_balance = 0,
         a_allows_negative_balance = allows, a_created_at = now\<rparr>"
  have shape: "currency_shape (as_str cur)"
    using ISO_4217_shape assms(6) by (auto simp: list_all_iff currency_shape_def)
  then have "text_ok (as_str cur)"
    by (auto simp: text_ok_def currency_shape_def list_all_iff)
  with shape have "sql_insert_account now i name (as_str cur) allows d = Ok [InsertAccount ?r]"
    and ok: "account_ok ?r"
    using assms
    by (simp_all add: sql_insert_account_def insert_accounts_row_def text_ok_def accounts_check_def
        account_ok_def)
  moreover have "account_row (apply_write (InsertAccount ?r) d) i = Some ?r"
    using assms(2) by (simp add: table_simps)
  moreover obtain a where "account_try_from C (decode_account C ?r) = Ok a" "represents C a ?r"
    using account_try_from_row [OF ok] by blast
  ultimately show ?thesis
    by (intro exI [of _ a] exI [of _ ?r])
       (simp add: accounts_create_def apply_write.simps)
qed

end

text \<open>Whatever happens to the call, the ledger either gains one empty account or is unchanged.\<close>

lemma accounts_create_effect:
  assumes "accounts_create C f now i name cur allows d = (r, d')"
  shows "d' = d \<or> (\<exists>a. d' = apply_write (InsertAccount a) d \<and> write_ok x d (InsertAccount a) \<and>
    a = \<lparr>a_id = i, a_name = name, a_currency = as_str cur, a_balance = 0,
         a_allows_negative_balance = allows, a_created_at = now\<rparr>)"
proof -
  have "d' = d \<or> (\<exists>ws. sql_insert_account now i name (as_str cur) allows d = Ok ws \<and>
      d' = apply_writes ws d)"
    using assms
    by (auto simp: accounts_create_def Let_def split: fault.splits result.splits option.splits)
  then show ?thesis
    using insert_accounts_row_guarded by (fastforce simp: sql_insert_account_def)
qed

lemma new_account_ledger_inv:
  assumes "ledger_inv x d" and "write_ok x d (InsertAccount a)" and "a_balance a = 0"
  shows "ledger_inv x (apply_write (InsertAccount a) d)"
proof -
  let ?d = "apply_write (InsertAccount a) d"
  have cons: "constraints d"
    using assms(1) by (simp add: ledger_inv_def schema_inv_def)
  have same: "entries ?d = entries d" "transactions ?d = transactions d"
    "accounts ?d = accounts d @ [a]"
    by (simp_all add: table_simps)
  then have of: "entries_of ?d t = entries_of d t" "derived_balance ?d i = derived_balance d i" for t i
    by (simp_all add: entries_of_def derived_balance_def)
  have "a_id a \<notin> e_account_id ` set (entries d)"
    using cons assms(2) by (force simp: constraints_def entry_ok_def)
  then have "derived_balance d (a_id a) = 0"
    by (rule derived_balance_unused)
  moreover have "schema_inv x ?d"
    using assms(1,2) constraints_write [OF cons] of(1)
    by (auto simp: ledger_inv_def schema_inv_def same table_simps
        cong: assert_transaction_balanced_cong)
  ultimately show ?thesis
    using assms(1,3) by (auto simp: ledger_inv_def same of)
qed

lemma accounts_create_ledger_inv:
  assumes "ledger_inv x d" and "accounts_create C f now i name cur allows d = (r, d')"
  shows "ledger_inv x d'"
  using accounts_create_effect [OF assms(2), of x] new_account_ledger_inv [OF assms(1)] assms(1)
  by auto

section \<open>Properties\<close>

text \<open>
  Reading an account returns the stored row with its balance unrounded, for every row the
  schema can hold, and reports an unknown id as such; no stored balance is rejected on the way out.
\<close>

lemma accounts_get_faithful:
  assumes "crate_contracts C" and "constraints d"
  shows "case account_row d i of
      None \<Rightarrow> accounts_get C NoFault i d = Err (AccountNotFound i)
    | Some r \<Rightarrow> (\<exists>a. accounts_get C NoFault i d = Ok a \<and> represents C a r)"
  using crate_contracts.accounts_get_spec [OF assms, of i] by (auto split: option.split)

lemma accounts_get_faithful_example:
  "\<exists>a. accounts_get ref_crates NoFault 2 sample_ledger = Ok a \<and>
     dval ref_crates (m_amount (account_balance a)) = 5 / 10 ^ 8"
proof -
  have "constraints sample_ledger"
    using sample_ledger_inv by (simp add: ledger_inv_def schema_inv_def)
  from accounts_get_faithful [OF ref.crate_contracts_axioms this, of 2] show ?thesis
    by (auto simp: account_row_def sample_ledger_def sample_account_def row_def represents_def)
qed

text \<open>
  Opening an account under a fresh id with a name of 1 to 255 characters, none of them zero,
  and a currency of the table succeeds, and returns an account with that name, a zero balance and
  the flag that was asked for; the ledger gains exactly that row.
\<close>

lemma accounts_create_succeeds:
  assumes "crate_contracts C" and "constraints d" and "account_row d i = None"
    and "1 \<le> length name" and "length name \<le> 255" and "0 \<notin> set name"
    and "as_str cur \<in> set ISO_4217"
  shows "\<exists>a r. accounts_create C NoFault now i name cur allows d = (Ok a, d\<lparr>accounts := accounts d @ [r]\<rparr>) \<and>
    represents C a r \<and> a_id r = i \<and> a_name r = name \<and> a_currency r = as_str cur \<and>
    a_balance r = 0 \<and> a_allows_negative_balance r = allows"
  by (rule crate_contracts.accounts_create_Ok [OF assms])

lemma accounts_create_succeeds_example:
  "\<exists>a r. accounts_create ref_crates NoFault 0 9 (lit ''alice'') (Currency (lit ''EUR'')) False sample_ledger =
     (Ok a, sample_ledger\<lparr>accounts := accounts sample_ledger @ [r]\<rparr>) \<and> represents ref_crates a r"
proof -
  have "constraints sample_ledger"
    using sample_ledger_inv by (simp add: ledger_inv_def schema_inv_def)
  moreover have "account_row sample_ledger 9 = None"
    by (simp add: account_row_def sample_ledger_def sample_account_def row_def)
  moreover have "as_str (Currency (lit ''EUR'')) \<in> set ISO_4217"
    by (simp add: ISO_4217_def)
  ultimately show ?thesis
    using accounts_create_succeeds [OF ref.crate_contracts_axioms, of sample_ledger 9 "lit ''alice''"
        "Currency (lit ''EUR'')" 0 False]
    by (fastforce simp: lit_def)
qed

end
