(* ===== verification/Db_Transactions.thy ===== *)
theory Db_Transactions
  imports Db_Accounts "HOL-Library.Multiset" "HOL-Library.Product_Lexorder"
begin

text \<open>
  \<open>src/db/transactions.rs\<close>: reading a transaction with its entries, and the lookup of an idempotency
  key. The lemmas show that a read of a committed transaction succeeds with exactly its rows, that
  its order does not depend on how the rows are stored, and that what is read is balanced.
\<close>

section \<open>Rows\<close>

record TransactionRow =
  tr_id :: uuid
  tr_idempotency_key :: str
  tr_description :: str
  tr_created_at :: timestamp

definition decode_transaction :: "transactions_row \<Rightarrow> TransactionRow" where
  "decode_transaction t =
     \<lparr>tr_id = t_id t, tr_idempotency_key = t_idempotency_key t, tr_description = t_description t,
      tr_created_at = t_created_at t\<rparr>"

definition transaction_from :: "TransactionRow \<Rightarrow> transaction" where
  "transaction_from r =
     \<lparr>txn_id = tr_id r, txn_idempotency_key = tr_idempotency_key r,
      txn_description = tr_description r, txn_created_at = tr_created_at r\<rparr>"

record 'd EntryRow =
  er_id :: uuid
  er_transaction_id :: uuid
  er_account_id :: uuid
  er_direction :: direction
  er_amount :: 'd
  er_currency :: currency
  er_created_at :: timestamp

definition decode_entry :: "'d crates \<Rightarrow> entries_row \<Rightarrow> 'd EntryRow" where
  "decode_entry C e =
     \<lparr>er_id = e_id e, er_transaction_id = e_transaction_id e, er_account_id = e_account_id e,
      er_direction = e_direction e, er_amount = d_of_numeric C (e_amount e),
      er_currency = Currency (e_currency e), er_created_at = e_created_at e\<rparr>"

definition entry_try_from :: "'d crates \<Rightarrow> 'd EntryRow \<Rightarrow> (ledger_error, 'd entry) result" where
  "entry_try_from C r =
     and_then (map_err MoneyError (money_new C (er_amount r) (er_currency r))) (\<lambda>amount.
     Ok \<lparr>entry_id = er_id r, entry_transaction_id = er_transaction_id r,
         entry_account_id = er_account_id r, entry_direction = er_direction r,
         entry_amount = amount, entry_created_at = er_created_at r\<rparr>)"

record IdempotencyRecord =
  ir_transaction_id :: uuid
  ir_request_hash :: "byte list"

section \<open>Operations\<close>

definition find_by_idempotency_key ::
  "fault \<Rightarrow> str \<Rightarrow> db \<Rightarrow> (ledger_error, IdempotencyRecord option) result" where
  "find_by_idempotency_key f key d =
     map_err Database (db_call f (Ok
       (map_option (\<lambda>t. \<lparr>ir_transaction_id = t_id t, ir_request_hash = t_request_hash t\<rparr>)
          (key_row d key))))"

text \<open>\<open>ORDER BY created_at, id\<close>\<close>

definition entry_order :: "entries_row \<Rightarrow> timestamp \<times> uuid" where
  "entry_order e = (e_created_at e, e_id e)"

definition transactions_get ::
  "'d crates \<Rightarrow> fault \<Rightarrow> fault \<Rightarrow> uuid \<Rightarrow> db \<Rightarrow> (ledger_error, 'd transaction_detail) result" where
  "transactions_get C f1 f2 i d =
     and_then (map_err Database (db_call f1 (Ok (map_option decode_transaction (transaction_row d i)))))
       (\<lambda>opt.
     and_then (ok_or opt (TransactionNotFound i)) (\<lambda>txn.
     and_then (map_err Database (db_call f2 (Ok
         (map (decode_entry C) (sort_key entry_order (entries_of d i)))))) (\<lambda>entry_rows.
     and_then (collect (map (entry_try_from C) entry_rows)) (\<lambda>es.
     Ok \<lparr>td_transaction = transaction_from txn, td_entries = es\<rparr>))))"

section \<open>Correctness\<close>

definition represents_entry :: "'d crates \<Rightarrow> 'd entry \<Rightarrow> entries_row \<Rightarrow> bool" where
  "represents_entry C e r \<longleftrightarrow>
     entry_id e = e_id r \<and> entry_transaction_id e = e_transaction_id r \<and>
     entry_account_id e = e_account_id r \<and> entry_direction e = e_direction r \<and>
     entry_created_at e = e_created_at r \<and> as_str (m_currency (entry_amount e)) = e_currency r \<and>
     money_ok C (entry_amount e) \<and> dval C (m_amount (entry_amount e)) = of_int (e_amount r) / 10 ^ 8"

lemma entries_of_ok: "constraints d \<Longrightarrow> e \<in> set (entries_of d t) \<Longrightarrow> entry_ok d e"
  by (simp add: constraints_def entries_of_def)

text \<open>The order of a read is a function of the set of rows, not of how they are stored.\<close>

lemma entry_order_canonical:
  assumes "constraints d" and "mset (entries d) = mset (entries d')"
  shows "sort_key entry_order (entries_of d i) = sort_key entry_order (entries_of d' i)"
proof (rule sort_key_inj_key_eq)
  show "mset (entries_of d i) = mset (sort_key entry_order (entries_of d' i))"
    using assms(2) by (simp add: entries_of_def)
  have "inj_on e_id (set (entries d))"
    using assms(1) by (simp add: constraints_def distinct_map)
  then show "inj_on entry_order (set (entries_of d i))"
    by (auto simp: inj_on_def entry_order_def entries_of_def)
qed simp

context crate_contracts
begin

lemma entry_try_from_row:
  assumes "entry_ok d r"
  shows "\<exists>e. entry_try_from C (decode_entry C r) = Ok e \<and> represents_entry C e r"
proof -
  have "\<bar>e_amount r\<bar> < 10 ^ 20"
    using assms by (simp add: entry_ok_def)
  then have v: "dval C (d_of_numeric C (e_amount r)) = of_int (e_amount r) / 10 ^ 8"
    and "storable (of_int (e_amount r) / 10 ^ 8)"
    using of_numeric_val units_storable by blast+
  then have "storable (dval C (d_of_numeric C (e_amount r)))"
    by (simp only: v)
  then obtain m where m: "money_new C (d_of_numeric C (e_amount r)) (Currency (e_currency r)) = Ok m"
    using money_new_Ok_iff by blast
  then show ?thesis
    using money_new_OkD [OF m] v
    by (simp add: entry_try_from_def decode_entry_def represents_entry_def)
qed

lemma collect_entries:
  assumes "\<forall>r \<in> set rs. entry_ok d r"
  shows "\<exists>es. collect (map (entry_try_from C) (map (decode_entry C) rs)) = Ok es \<and>
    list_all2 (represents_entry C) es rs"
  using assms
proof (induction rs)
  case (Cons r rs)
  then obtain e es where "entry_try_from C (decode_entry C r) = Ok e" "represents_entry C e r"
    "collect (map (entry_try_from C) (map (decode_entry C) rs)) = Ok es"
    "list_all2 (represents_entry C) es rs"
    using entry_try_from_row by fastforce
  then show ?case by simp
qed simp

lemma transactions_get_spec:
  assumes "constraints d"
  shows "transaction_row d i = None \<Longrightarrow>
      transactions_get C NoFault NoFault i d = Err (TransactionNotFound i)"
    and "transaction_row d i = Some t \<Longrightarrow>
      \<exists>td. transactions_get C NoFault NoFault i d = Ok td \<and>
        td_transaction td = transaction_from (decode_transaction t) \<and>
        list_all2 (represents_entry C) (td_entries td) (sort_key entry_order (entries_of d i))"
  using collect_entries [of "sort_key entry_order (entries_of d i)" d] entries_of_ok [OF assms]
  by (auto simp: transactions_get_def)

lemma represents_entry_value:
  "represents_entry C e r \<Longrightarrow> entry_value C e = of_int (e_signed r) / 10 ^ 8"
  by (cases "e_direction r") (simp_all add: represents_entry_def entry_value_def e_signed_def)

lemma represents_sum:
  "list_all2 (represents_entry C) es rs \<Longrightarrow>
     sum_list (map (entry_value C) es) = of_int (net_of rs) / 10 ^ 8"
  by (induction rule: list_all2_induct)
     (simp_all add: net_of_def represents_entry_value add_divide_distrib)

lemma net_of_sort: "net_of (sort_key entry_order es) = net_of es"
  unfolding net_of_def by (metis mset_map mset_sort sum_mset_sum_list)

lemma same_currency:
  assumes "length (remdups (map e_currency rs)) = 1" and "a \<in> set rs" and "b \<in> set rs"
  shows "e_currency a = e_currency b"
proof -
  obtain c where "remdups (map e_currency rs) = [c]"
    using assms(1) by (metis One_nat_def length_0_conv length_Suc_conv)
  then have "set (map e_currency rs) = {c}"
    by (metis empty_set list.simps(15) set_remdups)
  then have "e_currency a \<in> {c}" "e_currency b \<in> {c}"
    using assms(2,3) by (metis imageI set_map)+
  then show ?thesis by simp
qed

text \<open>A transaction of a committed state reads back as a balanced one.\<close>

lemma transactions_get_balanced:
  assumes "schema_inv x d" and "transaction_row d i = Some t" and "entries_of d i \<noteq> []"
    and "length (entries_of d i) \<le> 10 ^ 8"
    and "transactions_get C NoFault NoFault i d = Ok td"
  shows "is_balanced C td = Ok True"
proof -
  let ?rs = "sort_key entry_order (entries_of d i)"
  have cons: "constraints d"
    using assms(1) by (simp add: schema_inv_def)
  have rep: "list_all2 (represents_entry C) (td_entries td) ?rs"
    using transactions_get_spec(2) [OF cons assms(2)] assms(5) by auto
  obtain e where "e \<in> set (entries d)" "e_transaction_id e = i"
    using assms(3) entries_of_eq_Nil by blast
  then have "assert_transaction_balanced d i = None"
    using assms(1) by (auto simp: schema_inv_def)
  then have bal: "2 \<le> length (entries_of d i)" "net_of (entries_of d i) = 0"
    "length (remdups (map e_currency (entries_of d i))) = 1"
    by (simp_all add: shape_iff)
  have len: "length (td_entries td) = length (entries_of d i)"
    using rep list_all2_lengthD by fastforce
  have mem: "\<exists>r \<in> set (entries_of d i). represents_entry C f r" if f: "f \<in> set (td_entries td)" for f
  proof -
    obtain k where "k < length (td_entries td)" "f = td_entries td ! k"
      using f unfolding in_set_conv_nth by blast
    then have "represents_entry C f (?rs ! k)" "k < length ?rs"
      using rep list_all2_lengthD [OF rep] by (auto simp: list_all2_conv_all_nth)
    then show ?thesis
      using nth_mem [of k ?rs] by auto
  qed
  have ok: "\<forall>f \<in> set (td_entries td). money_ok C (entry_amount f)"
    using mem by (auto simp: represents_entry_def)
  have cur: "m_currency (entry_amount f) = m_currency (entry_amount g)"
    if fg: "f \<in> set (td_entries td)" "g \<in> set (td_entries td)" for f g
  proof (rule currency.expand)
    obtain a b where "a \<in> set (entries_of d i)" "represents_entry C f a"
      "b \<in> set (entries_of d i)" "represents_entry C g b"
      using mem [OF fg(1)] mem [OF fg(2)] by blast
    then show "as_str (m_currency (entry_amount f)) = as_str (m_currency (entry_amount g))"
      using same_currency [OF bal(3), of a b] by (simp add: represents_entry_def)
  qed
  have sum: "sum_list (map (entry_value C) (td_entries td)) = 0"
    using represents_sum [OF rep] bal(2) by (simp add: net_of_sort)
  have "length (td_entries td) \<le> 10 ^ 8" "2 \<le> length (td_entries td)"
    using assms(4) bal(1) len by (simp_all only:)
  moreover from this have "balanced_entries C (td_entries td)"
    unfolding balanced_entries_def using cur sum by blast
  ultimately show ?thesis
    using is_balanced_spec [OF ok] by simp
qed

end

section \<open>Properties\<close>

text \<open>
  C35: reading a committed transaction returns its row and exactly its entries, each with its amount
  unrounded, and the result passes the balance check of the domain. An unknown id is reported as such.
\<close>

theorem transactions_get_faithful:
  assumes "crate_contracts C" and "ledger_inv x d" and "length (entries d) \<le> 10 ^ 8"
  shows "case transaction_row d i of
      None \<Rightarrow> transactions_get C NoFault NoFault i d = Err (TransactionNotFound i)
    | Some t \<Rightarrow> (\<exists>td. transactions_get C NoFault NoFault i d = Ok td \<and>
        td_transaction td = transaction_from (decode_transaction t) \<and>
        list_all2 (represents_entry C) (td_entries td) (sort_key entry_order (entries_of d i)) \<and>
        is_balanced C td = Ok True)"
proof (cases "transaction_row d i")
  case None
  then show ?thesis
    using assms crate_contracts.transactions_get_spec(1) [OF assms(1)]
    by (simp add: ledger_inv_def schema_inv_def)
next
  case (Some t)
  have inv: "schema_inv x d" "constraints d"
    using assms(2) by (simp_all add: ledger_inv_def schema_inv_def)
  have "t \<in> set (transactions d)" "t_id t = i"
    using Some row_Some [of t_id "transactions d" i t] by (auto simp: transaction_row_def)
  then have "entries_of d i \<noteq> []"
    using assms(2) by (auto simp: ledger_inv_def)
  moreover have "length (entries_of d i) \<le> 10 ^ 8"
    unfolding entries_of_def by (rule order_trans [OF length_filter_le assms(3)])
  ultimately have "is_balanced C td = Ok True"
    if "transactions_get C NoFault NoFault i d = Ok td" for td
    using crate_contracts.transactions_get_balanced [OF assms(1) inv(1) Some] that by blast
  then show ?thesis
    using crate_contracts.transactions_get_spec(2) [OF assms(1) inv(2) Some]
    unfolding Some option.case by blast
qed

theorem transactions_get_faithful_witness:
  "\<exists>td. transactions_get ref_crates NoFault NoFault 3 sample_ledger = Ok td \<and>
     length (td_entries td) = 2 \<and> is_balanced ref_crates td = Ok True"
proof -
  have "length (entries sample_ledger) = 2" "entries_of sample_ledger 3 = entries sample_ledger"
    "transaction_row sample_ledger 3 = Some (sample_transaction 3 7)"
    by (simp_all add: sample_ledger_def sample_books_def entries_of_def sample_entries_row_def
        transaction_row_def row_def sample_transaction_def)
  then show ?thesis
    using transactions_get_faithful [OF ref.crate_contracts_axioms sample_ledger_inv, of 3]
    by (auto dest: list_all2_lengthD)
qed

text \<open>
  The entries of a read come in the order of creation time and id, and that order does not
  depend on how the rows are stored: two tables with the same rows read alike.
\<close>

lemma transactions_get_deterministic:
  assumes "constraints d" and "mset (entries d) = mset (entries d')"
    and "transactions d = transactions d'"
  shows "transactions_get C f1 f2 i d = transactions_get C f1 f2 i d'"
  using entry_order_canonical [OF assms(1,2)] assms(3)
  by (simp add: transactions_get_def transaction_row_def)

lemma transactions_get_deterministic_example:
  "transactions_get ref_crates NoFault NoFault 3 sample_ledger =
   transactions_get ref_crates NoFault NoFault 3 (sample_ledger\<lparr>entries := rev (entries sample_ledger)\<rparr>)"
proof -
  have "constraints sample_ledger"
    using sample_ledger_inv by (simp add: ledger_inv_def schema_inv_def)
  then show ?thesis
    by (rule transactions_get_deterministic) simp_all
qed

end
