(* ===== verification/Db_Transfers.thy ===== *)
theory Db_Transfers
  imports Db_Transactions
begin

text \<open>
  \<open>src/db/transfers.rs\<close>: the only code that moves money. \<open>execute_once\<close> follows the source statement
  by statement, on the statements of theory \<open>Schema\<close>. What the environment contributes to one attempt
  is its \<open>attempt\<close> argument: the fresh identifiers, the transaction id and clock of the server, a
  fault for every call to the database, and what other sessions commit between the lookup of the key
  and the claim (the window in which the unique index, not the lookup, is the barrier).
  Theory \<open>Transfer_Correctness\<close> has the properties.
\<close>

section \<open>The environment of one attempt\<close>

datatype call =
    FindKey | Begin | ClaimKey | Rollback | FindWinner | LockFirst | LockSecond
  | AdjustFrom | AdjustTo | InsertCredit | InsertDebit | Commit | GetTransaction | GetEntries

record attempt =
  at_now :: timestamp
  at_xid :: xid
  at_txn_id :: uuid
  at_credit_id :: uuid
  at_debit_id :: uuid
  at_fault :: "call \<Rightarrow> fault"
  at_race :: "db \<Rightarrow> db"

section \<open>A database transaction\<close>

text \<open>The committed rows and the writes made so far; statements see both.\<close>

record tx =
  tx_base :: db
  tx_log :: "write list"

definition tx_view :: "tx \<Rightarrow> db" where
  "tx_view t = apply_writes (tx_log t) (tx_base t)"

definition tx_exec ::
  "fault \<Rightarrow> (db \<Rightarrow> (sqlx_error, write list) result) \<Rightarrow> tx \<Rightarrow> (sqlx_error, tx) result" where
  "tx_exec f stmt t =
     db_call f (and_then (stmt (tx_view t)) (\<lambda>ws. Ok (t\<lparr>tx_log := tx_log t @ ws\<rparr>)))"

section \<open>Helpers of the transfer\<close>

record 'd transfer_result =
  res_outcome :: transfer_outcome
  res_detail :: "'d transaction_detail"

definition adjust_error :: "uuid \<Rightarrow> sqlx_error \<Rightarrow> ledger_error" where
  "adjust_error acc err =
     (if is_overdraft_violation err then InsufficientFunds acc else Database err)"

definition adjust_balance ::
  "'d crates \<Rightarrow> fault \<Rightarrow> uuid \<Rightarrow> 'd \<Rightarrow> tx \<Rightarrow> (ledger_error, tx) result" where
  "adjust_balance C f acc delta t =
     map_err (adjust_error acc)
       (tx_exec f (sql_adjust_balance acc (dval C delta)) t)"

definition insert_entry ::
  "'d crates \<Rightarrow> attempt \<Rightarrow> fault \<Rightarrow> uuid \<Rightarrow> uuid \<Rightarrow> uuid \<Rightarrow> direction \<Rightarrow> 'd \<Rightarrow> currency \<Rightarrow> tx \<Rightarrow>
   (ledger_error, tx) result" where
  "insert_entry C ev f eid tid acc dir amount cur t =
     map_err Database
       (tx_exec f (sql_insert_entry (at_xid ev) (at_now ev) eid tid acc dir
          (dval C amount) (as_str cur)) t)"

definition replay ::
  "'d crates \<Rightarrow> attempt \<Rightarrow> str \<Rightarrow> IdempotencyRecord \<Rightarrow> byte list \<Rightarrow> db \<Rightarrow>
   (ledger_error, 'd transfer_result) result" where
  "replay C ev key record hash d =
     (if ir_request_hash record \<noteq> hash then Err (IdempotencyKeyConflict key)
      else and_then
        (transactions_get C (at_fault ev GetTransaction) (at_fault ev GetEntries)
           (ir_transaction_id record) d)
        (\<lambda>detail. Ok \<lparr>res_outcome = Replayed, res_detail = detail\<rparr>))"

text \<open>The loop over \<open>lock_order\<close>, filling the map of locked rows.\<close>

fun lock_accounts ::
  "'d crates \<Rightarrow> attempt \<Rightarrow> (call \<times> uuid) list \<Rightarrow> db \<Rightarrow> (uuid \<rightharpoonup> 'd AccountRow) \<Rightarrow>
   (ledger_error, uuid \<rightharpoonup> 'd AccountRow) result" where
  "lock_accounts C ev [] d locked = Ok locked"
| "lock_accounts C ev ((c, i) # ids) d locked =
     and_then (fetch_for_update C (at_fault ev c) i d) (\<lambda>opt.
     and_then (ok_or opt (AccountNotFound i)) (\<lambda>r.
     lock_accounts C ev ids d (locked(i \<mapsto> r))))"

fun check_currencies ::
  "'d AccountRow list \<Rightarrow> currency \<Rightarrow> (ledger_error, unit) result" where
  "check_currencies [] cur = Ok ()"
| "check_currencies (a # as) cur =
     (if ar_currency a \<noteq> cur
      then Err (AccountCurrencyMismatch (ar_id a) (currency_to_string (ar_currency a))
             (currency_to_string cur))
      else check_currencies as cur)"

text \<open>
  From taking the locks to the second entry. The result carries the id of the debited row for the
  error mapping of the commit.
\<close>

definition transfer_body ::
  "'d crates \<Rightarrow> attempt \<Rightarrow> 'd transfer_intent \<Rightarrow> tx \<Rightarrow> (ledger_error, uuid \<times> tx) result" where
  "transfer_body C ev intent t =
     (let lock_order = sort [from_account_id intent, to_account_id intent] in
      and_then (lock_accounts C ev (zip [LockFirst, LockSecond] lock_order) (tx_view t) Map.empty)
        (\<lambda>locked.
      and_then (ok_or_panic (locked (from_account_id intent))) (\<lambda>from.
      and_then (ok_or_panic (locked (to_account_id intent))) (\<lambda>to.
      let cur = m_currency (intent_amount intent); amount = m_amount (intent_amount intent) in
      and_then (check_currencies [from, to] cur) (\<lambda>_.
      if \<not> ar_allows_negative_balance from \<and> d_lt C (ar_balance from) amount
      then Err (InsufficientFunds (ar_id from))
      else
      and_then (adjust_balance C (at_fault ev AdjustFrom) (ar_id from) (d_neg C amount) t) (\<lambda>t.
      and_then (adjust_balance C (at_fault ev AdjustTo) (ar_id to) amount t) (\<lambda>t.
      and_then (insert_entry C ev (at_fault ev InsertCredit) (at_credit_id ev) (at_txn_id ev)
                  (ar_id from) Credit amount cur t) (\<lambda>t.
      and_then (insert_entry C ev (at_fault ev InsertDebit) (at_debit_id ev) (at_txn_id ev)
                  (ar_id to) Debit amount cur t) (\<lambda>t.
      Ok (ar_id from, t))))))))))"

text \<open>
  \<open>tx.commit()\<close>: the deferred triggers run, and on success the writes become the committed rows. A
  lost reply reports an error although the commit took effect.
\<close>

definition tx_commit :: "fault \<Rightarrow> tx \<Rightarrow> (sqlx_error, unit) result \<times> db" where
  "tx_commit f t =
     (case f of
        Fails e \<Rightarrow> (Err e, tx_base t)
      | _ \<Rightarrow>
        (case sql_commit (inserted_entries (tx_log t)) (tx_view t) of
           Ok _ \<Rightarrow> (case f of LostReply e \<Rightarrow> (Err e, tx_view t) | _ \<Rightarrow> (Ok (), tx_view t))
         | Err e \<Rightarrow> (Err e, tx_base t)
         | Panic \<Rightarrow> (Panic, tx_base t)))"

section \<open>One attempt\<close>

definition claim_key ::
  "attempt \<Rightarrow> str \<Rightarrow> byte list \<Rightarrow> str \<Rightarrow> tx \<Rightarrow> (sqlx_error, tx) result" where
  "claim_key ev key hash descr t =
     tx_exec (at_fault ev ClaimKey)
       (sql_insert_transaction (at_xid ev) (at_now ev) (at_txn_id ev) key hash descr) t"

definition collision_message :: str where
  "collision_message = lit ''idempotency key collided but no transaction was found''"

text \<open>The key was taken by a concurrent request: discard the transaction and replay the winner.\<close>

definition lost_race ::
  "'d crates \<Rightarrow> attempt \<Rightarrow> str \<Rightarrow> byte list \<Rightarrow> db \<Rightarrow> (ledger_error, 'd transfer_result) result" where
  "lost_race C ev key hash d =
     and_then (map_err Database (db_call (at_fault ev Rollback) (Ok ()))) (\<lambda>_.
     and_then (find_by_idempotency_key (at_fault ev FindWinner) key d) (\<lambda>opt.
     and_then (ok_or opt (Validation collision_message)) (\<lambda>record.
     replay C ev key record hash d)))"

definition commit_error :: "uuid \<Rightarrow> sqlx_error \<Rightarrow> ledger_error" where
  "commit_error from_id err =
     (if is_overdraft_violation err then InsufficientFunds from_id else Database err)"

definition execute_tx ::
  "'d crates \<Rightarrow> attempt \<Rightarrow> str \<Rightarrow> 'd transfer_intent \<Rightarrow> byte list \<Rightarrow> db \<Rightarrow>
   (ledger_error, 'd transfer_result) result \<times> db" where
  "execute_tx C ev key intent hash d =
     (case claim_key ev key hash (intent_description intent) \<lparr>tx_base = d, tx_log = []\<rparr> of
        Panic \<Rightarrow> (Panic, d)
      | Err err \<Rightarrow>
          if is_idempotency_key_collision err then (lost_race C ev key hash d, d)
          else (Err (Database err), d)
      | Ok t \<Rightarrow>
          (case transfer_body C ev intent t of
             Panic \<Rightarrow> (Panic, d)
           | Err e \<Rightarrow> (Err e, d)
           | Ok (from_id, t) \<Rightarrow>
               (case tx_commit (at_fault ev Commit) t of
                  (Err err, d') \<Rightarrow> (Err (commit_error from_id err), d')
                | (Panic, d') \<Rightarrow> (Panic, d')
                | (Ok _, d') \<Rightarrow>
                    (and_then
                       (transactions_get C (at_fault ev GetTransaction) (at_fault ev GetEntries)
                          (at_txn_id ev) d')
                       (\<lambda>detail. Ok \<lparr>res_outcome = Created, res_detail = detail\<rparr>), d'))))"

definition execute_once ::
  "'d crates \<Rightarrow> attempt \<Rightarrow> str \<Rightarrow> 'd transfer_intent \<Rightarrow> db \<Rightarrow>
   (ledger_error, 'd transfer_result) result \<times> db" where
  "execute_once C ev key intent d =
     (let hash = request_hash C intent in
      case find_by_idempotency_key (at_fault ev FindKey) key d of
        Panic \<Rightarrow> (Panic, d)
      | Err e \<Rightarrow> (Err e, d)
      | Ok (Some record) \<Rightarrow> (replay C ev key record hash d, d)
      | Ok None \<Rightarrow>
          if from_account_id intent = to_account_id intent then (Err SelfTransfer, d)
          else if \<not> is_positive C (intent_amount intent) then (Err NonPositiveAmount, d)
          else
            let d = at_race ev d in
            (case fault_error (at_fault ev Begin) of
               Some e \<Rightarrow> (Err (Database e), d)
             | None \<Rightarrow> execute_tx C ev key intent hash d))"

section \<open>The retry loop\<close>

definition MAX_CONFLICT_RETRIES :: nat where
  "MAX_CONFLICT_RETRIES = 3"

text \<open>\<open>evs n\<close> is the environment of attempt \<open>n\<close>.\<close>

function execute_from ::
  "'d crates \<Rightarrow> (nat \<Rightarrow> attempt) \<Rightarrow> str \<Rightarrow> 'd transfer_intent \<Rightarrow> nat \<Rightarrow> db \<Rightarrow>
   (ledger_error, 'd transfer_result) result \<times> db" where
  "execute_from C evs key intent attempt d =
     (case execute_once C (evs attempt) key intent d of
        (Err (Database err), d') \<Rightarrow>
          if is_retryable_conflict err \<and> attempt < MAX_CONFLICT_RETRIES
          then execute_from C evs key intent (attempt + 1) d'
          else (Err (Database err), d')
      | other \<Rightarrow> other)"
  by pat_completeness auto
termination
  by (relation "measure (\<lambda>(C, evs, key, intent, attempt, d). MAX_CONFLICT_RETRIES - attempt)") auto

declare execute_from.simps [simp del]

definition execute ::
  "'d crates \<Rightarrow> (nat \<Rightarrow> attempt) \<Rightarrow> str \<Rightarrow> 'd transfer_intent \<Rightarrow> db \<Rightarrow>
   (ledger_error, 'd transfer_result) result \<times> db" where
  "execute C evs key intent d = execute_from C evs key intent 0 d"

end
