(* ===== verification/Transfer_Spec.thy ===== *)
theory Transfer_Spec
  imports Db_Transfers
begin

text \<open>
  What a transfer is meant to do, as a function on committed states: which refusal applies, and the
  five writes of an accepted transfer. The refinement lemma \<open>execute_once_refines\<close> shows that
  \<open>execute_once\<close> of theory \<open>Db_Transfers\<close>, statement by statement and with the database's own checks,
  computes exactly this function when no call fails; \<open>execute_once_faulty\<close> reduces a run with failing
  calls to one without.
\<close>

section \<open>The specification\<close>

definition intent_units :: "'d crates \<Rightarrow> 'd transfer_intent \<Rightarrow> int" where
  "intent_units C intent = units (dval C (m_amount (intent_amount intent)))"

text \<open>
  Why a transfer is refused, in the order of the code: the accounts are looked up in ascending order
  of their ids, the currency of the sender is compared first, and the two balances are changed one
  after the other.
\<close>

definition transfer_check ::
  "db \<Rightarrow> uuid \<Rightarrow> uuid \<Rightarrow> str \<Rightarrow> int \<Rightarrow> ledger_error option" where
  "transfer_check d from to cur u =
     (case (account_row d from, account_row d to) of
        (Some f, Some t) \<Rightarrow>
          if a_currency f \<noteq> cur then Some (AccountCurrencyMismatch from (a_currency f) cur)
          else if a_currency t \<noteq> cur then Some (AccountCurrencyMismatch to (a_currency t) cur)
          else if \<not> a_allows_negative_balance f \<and> a_balance f < u then Some (InsufficientFunds from)
          else if \<not> \<bar>a_balance f - u\<bar> < 10 ^ 20 \<or> \<not> \<bar>a_balance t + u\<bar> < 10 ^ 20
               then Some (Database numeric_overflow)
          else None
      | (None, Some _) \<Rightarrow> Some (AccountNotFound from)
      | (Some _, None) \<Rightarrow> Some (AccountNotFound to)
      | (None, None) \<Rightarrow> Some (AccountNotFound (min from to)))"

definition balance_of :: "db \<Rightarrow> uuid \<Rightarrow> int" where
  "balance_of d i = (case account_row d i of None \<Rightarrow> 0 | Some r \<Rightarrow> a_balance r)"

definition claim_row :: "'d crates \<Rightarrow> attempt \<Rightarrow> str \<Rightarrow> 'd transfer_intent \<Rightarrow> transactions_row" where
  "claim_row C ev key intent =
     \<lparr>t_id = at_txn_id ev, t_idempotency_key = key, t_request_hash = request_hash C intent,
      t_description = intent_description intent, t_created_xid = at_xid ev, t_created_at = at_now ev\<rparr>"

definition posting :: "'d crates \<Rightarrow> attempt \<Rightarrow> 'd transfer_intent \<Rightarrow> uuid \<Rightarrow> uuid \<Rightarrow> direction \<Rightarrow> entries_row"
  where
  "posting C ev intent eid acc dir =
     \<lparr>e_id = eid, e_transaction_id = at_txn_id ev, e_account_id = acc, e_direction = dir,
      e_amount = intent_units C intent, e_currency = as_str (m_currency (intent_amount intent)),
      e_created_at = at_now ev\<rparr>"

definition credit_posting :: "'d crates \<Rightarrow> attempt \<Rightarrow> 'd transfer_intent \<Rightarrow> entries_row" where
  "credit_posting C ev intent = posting C ev intent (at_credit_id ev) (from_account_id intent) Credit"

definition debit_posting :: "'d crates \<Rightarrow> attempt \<Rightarrow> 'd transfer_intent \<Rightarrow> entries_row" where
  "debit_posting C ev intent = posting C ev intent (at_debit_id ev) (to_account_id intent) Debit"

text \<open>The writes after the claim, and all of them.\<close>

definition post_body :: "'d crates \<Rightarrow> attempt \<Rightarrow> 'd transfer_intent \<Rightarrow> db \<Rightarrow> write list" where
  "post_body C ev intent d =
     [SetBalance (from_account_id intent) (balance_of d (from_account_id intent) - intent_units C intent),
      SetBalance (to_account_id intent) (balance_of d (to_account_id intent) + intent_units C intent),
      InsertEntry (credit_posting C ev intent), InsertEntry (debit_posting C ev intent)]"

definition post_writes :: "'d crates \<Rightarrow> attempt \<Rightarrow> str \<Rightarrow> 'd transfer_intent \<Rightarrow> db \<Rightarrow> write list" where
  "post_writes C ev key intent d = InsertTransaction (claim_row C ev key intent) # post_body C ev intent d"

text \<open>A database transaction that has made the first \<open>n\<close> writes after the claim.\<close>

definition posted :: "nat \<Rightarrow> 'd crates \<Rightarrow> attempt \<Rightarrow> 'd transfer_intent \<Rightarrow> tx \<Rightarrow> tx" where
  "posted n C ev intent t = t\<lparr>tx_log := tx_log t @ take n (post_body C ev intent (tx_view t))\<rparr>"

definition fresh_entry_ids :: "attempt \<Rightarrow> db \<Rightarrow> bool" where
  "fresh_entry_ids ev d \<longleftrightarrow>
     at_credit_id ev \<noteq> at_debit_id ev \<and> row e_id (entries d) (at_credit_id ev) = None \<and>
     row e_id (entries d) (at_debit_id ev) = None"

definition intent_check :: "'d crates \<Rightarrow> 'd transfer_intent \<Rightarrow> db \<Rightarrow> ledger_error option" where
  "intent_check C intent d =
     transfer_check d (from_account_id intent) (to_account_id intent)
       (as_str (m_currency (intent_amount intent))) (intent_units C intent)"

definition replay_spec ::
  "'d crates \<Rightarrow> str \<Rightarrow> 'd transfer_intent \<Rightarrow> transactions_row \<Rightarrow>
   (ledger_error, transfer_outcome \<times> uuid) result" where
  "replay_spec C key intent t =
     (if t_request_hash t = request_hash C intent then Ok (Replayed, t_id t)
      else Err (IdempotencyKeyConflict key))"

definition transfer_spec ::
  "'d crates \<Rightarrow> attempt \<Rightarrow> str \<Rightarrow> 'd transfer_intent \<Rightarrow> db \<Rightarrow>
   (ledger_error, transfer_outcome \<times> uuid) result \<times> db" where
  "transfer_spec C ev key intent d =
     (case key_row d key of
        Some t \<Rightarrow> (replay_spec C key intent t, d)
      | None \<Rightarrow>
          if from_account_id intent = to_account_id intent then (Err SelfTransfer, d)
          else if \<not> 0 < intent_units C intent then (Err NonPositiveAmount, d)
          else
            let d = at_race ev d in
            if \<not> (text_ok key \<and> text_ok (intent_description intent)) then (Err (Database invalid_text), d)
            else if transaction_row d (at_txn_id ev) \<noteq> None
                 then (Err (Database (unique_violation ''transactions_pkey'')), d)
            else case key_row d key of
              Some t \<Rightarrow> (replay_spec C key intent t, d)
            | None \<Rightarrow>
                (case intent_check C intent d of
                   Some e \<Rightarrow> (Err e, d)
                 | None \<Rightarrow>
                     if \<not> fresh_entry_ids ev d
                     then (Err (Database (unique_violation ''entries_pkey'')), d)
                     else (Ok (Created, at_txn_id ev), apply_writes (post_writes C ev key intent d) d)))"

text \<open>What the specification keeps of a result: the outcome and the transaction it is about.\<close>

fun summary :: "(ledger_error, 'd transfer_result) result \<Rightarrow>
    (ledger_error, transfer_outcome \<times> uuid) result" where
  "summary (Ok res) = Ok (res_outcome res, txn_id (td_transaction (res_detail res)))"
| "summary (Err e) = Err e"
| "summary Panic = Panic"

definition calm :: "attempt \<Rightarrow> attempt" where
  "calm ev = ev\<lparr>at_fault := \<lambda>_. NoFault\<rparr>"

lemma calm_simps [simp]:
  "at_fault (calm ev) c = NoFault" "at_xid (calm ev) = at_xid ev" "at_now (calm ev) = at_now ev"
  "at_txn_id (calm ev) = at_txn_id ev" "at_credit_id (calm ev) = at_credit_id ev"
  "at_debit_id (calm ev) = at_debit_id ev" "at_race (calm ev) = at_race ev"
  by (simp_all add: calm_def)

text \<open>What is known once the two accounts are locked and compared.\<close>

definition movable :: "'d crates \<Rightarrow> attempt \<Rightarrow> 'd transfer_intent \<Rightarrow> tx \<Rightarrow> accounts_row \<Rightarrow> accounts_row \<Rightarrow> bool" where
  "movable C ev intent t f g \<longleftrightarrow>
     money_ok C (intent_amount intent) \<and> 0 < intent_units C intent \<and>
     from_account_id intent \<noteq> to_account_id intent \<and> constraints (tx_view t) \<and>
     map_option t_created_xid (transaction_row (tx_view t) (at_txn_id ev)) = Some (at_xid ev) \<and>
     account_row (tx_view t) (from_account_id intent) = Some f \<and>
     account_row (tx_view t) (to_account_id intent) = Some g \<and>
     a_currency f = as_str (m_currency (intent_amount intent)) \<and>
     a_currency g = as_str (m_currency (intent_amount intent)) \<and>
     (a_allows_negative_balance f \<or> intent_units C intent \<le> a_balance f)"

section \<open>The statements, evaluated\<close>

lemma filter_row:
  assumes "distinct (map key rs)" and "row key rs i = Some r"
  shows "filter (\<lambda>q. key q = i) rs = [r]"
  using assms
proof (induction rs)
  case (Cons q rs)
  then show ?case
    by (auto simp: row_def filter_empty_conv image_iff split: if_splits)
qed (simp add: row_def)

lemma sql_adjust_balance_eval:
  assumes "constraints d" and "account_row d i = Some r"
  shows "sql_adjust_balance i (of_int k / 10 ^ 8) d =
    (if \<not> \<bar>a_balance r + k\<bar> < 10 ^ 20 then Err numeric_overflow
     else if \<not> (a_allows_negative_balance r \<or> 0 \<le> a_balance r + k)
          then Err (check_violation ''accounts_balance_non_negative'')
     else Ok [SetBalance i (a_balance r + k)])"
proof -
  have "a_id r = i" "r \<in> set (accounts d)"
    using assms(2) row_Some unfolding account_row_def by metis+
  then have ok: "account_ok r"
    using assms(1) by (simp add: constraints_def)
  have rows: "filter (\<lambda>q. a_id q = i) (accounts d) = [r]"
    using assms by (simp add: filter_row constraints_def account_row_def)
  have "of_int (a_balance r) / 10 ^ 8 + of_int k / 10 ^ 8 = (of_int (a_balance r + k) / 10 ^ 8 :: rat)"
    by (simp add: add_divide_distrib)
  then have "add_to_balance (of_int k / 10 ^ 8) r =
      (if \<bar>a_balance r + k\<bar> < 10 ^ 20 then Some (r\<lparr>a_balance := a_balance r + k\<rparr>) else None)"
    unfolding add_to_balance_def by (simp only: numeric_20_8_of_units) simp
  then show ?thesis
    using ok \<open>a_id r = i\<close>
    by (auto simp: sql_adjust_balance_def update_accounts_def rows update_accounts_row_def
        reject_account_update_def accounts_check_def account_ok_def split: if_splits)
qed

lemma sql_insert_transaction_eval:
  assumes "length hash = 32"
  shows "sql_insert_transaction x now i key hash descr d =
    (if \<not> (text_ok key \<and> text_ok descr) then Err invalid_text
     else if transaction_row d i \<noteq> None then Err (unique_violation ''transactions_pkey'')
     else if key_row d key \<noteq> None then Err (unique_violation ''transactions_idempotency_key_key'')
     else Ok [InsertTransaction \<lparr>t_id = i, t_idempotency_key = key, t_request_hash = hash,
       t_description = descr, t_created_xid = x, t_created_at = now\<rparr>])"
  using assms
  by (simp add: sql_insert_transaction_def insert_transactions_row_def transactions_check_def)

lemma sql_insert_entry_eval:
  assumes "numeric_20_8 amount = Some u" and "0 < u" and "text_ok cur"
    and "map_option t_created_xid (transaction_row d t) = Some x"
    and "map_option a_currency (account_row d a) = Some cur"
  shows "sql_insert_entry x now i t a dir amount cur d =
    (if row e_id (entries d) i \<noteq> None then Err (unique_violation ''entries_pkey'')
     else Ok [InsertEntry \<lparr>e_id = i, e_transaction_id = t, e_account_id = a, e_direction = dir,
       e_amount = u, e_currency = cur, e_created_at = now\<rparr>])"
  using assms
  by (auto simp: sql_insert_entry_def insert_entries_row_def assert_entry_in_parent_xact_def
      entries_check_def)

lemma lock_accounts_calm:
  assumes "from \<noteq> to"
  shows "lock_accounts C (calm ev) (zip [LockFirst, LockSecond] (sort [from, to])) d Map.empty =
    (case (account_row d from, account_row d to) of
       (Some f, Some t) \<Rightarrow> Ok [from \<mapsto> decode_account C f, to \<mapsto> decode_account C t]
     | (None, Some _) \<Rightarrow> Err (AccountNotFound from)
     | (Some _, None) \<Rightarrow> Err (AccountNotFound to)
     | (None, None) \<Rightarrow> Err (AccountNotFound (min from to)))"
proof (cases "from \<le> to")
  case True
  then show ?thesis
    by (auto simp: fetch_for_update_def min_def split: option.split)
next
  case False
  then show ?thesis
    by (auto simp: fetch_for_update_def min_def fun_upd_twist [OF assms] split: option.split)
qed

context crate_contracts
begin

lemma units_val:
  assumes "money_ok C (intent_amount intent)"
  shows "dval C (m_amount (intent_amount intent)) = of_int (intent_units C intent) / 10 ^ 8"
    and "\<bar>intent_units C intent\<bar> < 10 ^ 20"
    and "numeric_20_8 (dval C (m_amount (intent_amount intent))) = Some (intent_units C intent)"
    and "is_positive C (intent_amount intent) \<longleftrightarrow> 0 < intent_units C intent"
proof -
  have st: "storable (dval C (m_amount (intent_amount intent)))"
    using money_ok_storable [OF assms] .
  then show v: "dval C (m_amount (intent_amount intent)) = of_int (intent_units C intent) / 10 ^ 8"
    by (simp add: intent_units_def storable_def units_exact)
  from st show "\<bar>intent_units C intent\<bar> < 10 ^ 20"
    unfolding intent_units_def by (rule storable_units)
  from st show "numeric_20_8 (dval C (m_amount (intent_amount intent))) = Some (intent_units C intent)"
    unfolding intent_units_def by (rule numeric_20_8_storable)
  show "is_positive C (intent_amount intent) \<longleftrightarrow> 0 < intent_units C intent"
    unfolding is_positive_def gt_val zero_val v by (simp add: zero_less_divide_iff)
qed

lemma balance_lt_units:
  assumes "money_ok C (intent_amount intent)" and "account_ok r"
  shows "d_lt C (ar_balance (decode_account C r)) (m_amount (intent_amount intent)) \<longleftrightarrow>
    a_balance r < intent_units C intent"
proof -
  have "dval C (d_of_numeric C (a_balance r)) = of_int (a_balance r) / 10 ^ 8"
    using assms(2) by (simp add: account_ok_def of_numeric_val)
  then show ?thesis
    by (simp add: lt_val decode_account_def units_val(1) [OF assms(1)] divide_less_cancel)
qed

lemma adjust_balance_calm:
  assumes "constraints (tx_view t)" and "account_row (tx_view t) i = Some r"
    and "dval C delta = of_int k / 10 ^ 8"
  shows "adjust_balance C NoFault i delta t =
    (if \<not> \<bar>a_balance r + k\<bar> < 10 ^ 20 then Err (Database numeric_overflow)
     else if \<not> (a_allows_negative_balance r \<or> 0 \<le> a_balance r + k) then Err (InsufficientFunds i)
     else Ok (t\<lparr>tx_log := tx_log t @ [SetBalance i (a_balance r + k)]\<rparr>))"
  unfolding adjust_balance_def tx_exec_def assms(3) sql_adjust_balance_eval [OF assms(1,2)]
  by (simp add: adjust_error_def is_overdraft_violation_def numeric_overflow_def check_violation_def
      pg_error_def sqlstate_defs)

lemma insert_entry_calm:
  assumes "money_ok C (intent_amount intent)" and "0 < intent_units C intent"
    and "map_option t_created_xid (transaction_row (tx_view t) (at_txn_id ev)) = Some (at_xid ev)"
    and "map_option a_currency (account_row (tx_view t) acc) = Some (as_str (m_currency (intent_amount intent)))"
    and "text_ok (as_str (m_currency (intent_amount intent)))"
  shows "insert_entry C ev NoFault eid (at_txn_id ev) acc dir (m_amount (intent_amount intent))
      (m_currency (intent_amount intent)) t =
    (if row e_id (entries (tx_view t)) eid \<noteq> None then Err (Database (unique_violation ''entries_pkey''))
     else Ok (t\<lparr>tx_log := tx_log t @ [InsertEntry (posting C ev intent eid acc dir)]\<rparr>))"
  unfolding insert_entry_def tx_exec_def
    sql_insert_entry_eval [OF units_val(3) [OF assms(1)] assms(2,5,3,4)]
  by (simp add: posting_def)

lemma account_text_ok: "account_ok r \<Longrightarrow> text_ok (a_currency r)"
  by (auto simp: account_ok_def accounts_check_def currency_shape_def text_ok_def list_all_iff
      split: if_splits)

lemma tx_view_log [simp]: "tx_view (t\<lparr>tx_log := tx_log t @ ws\<rparr>) = apply_writes ws (tx_view t)"
  by (simp add: tx_view_def)

lemma insert_entry_calm_cong: "insert_entry C (calm ev) = insert_entry C ev"
  by (simp add: insert_entry_def fun_eq_iff)

text \<open>
  The two updates and the two inserts, once the accounts are known to exist and to match. \<open>posted n\<close> is
  the database transaction after the first \<open>n\<close> of them.
\<close>

lemma posted_Suc:
  "posted (Suc 0) C ev intent t = t\<lparr>tx_log := tx_log t @
     [SetBalance (from_account_id intent) (balance_of (tx_view t) (from_account_id intent) - intent_units C intent)]\<rparr>"
  "posted 2 C ev intent t = (posted (Suc 0) C ev intent t)\<lparr>tx_log := tx_log (posted (Suc 0) C ev intent t) @
     [SetBalance (to_account_id intent) (balance_of (tx_view t) (to_account_id intent) + intent_units C intent)]\<rparr>"
  "posted 3 C ev intent t = (posted 2 C ev intent t)\<lparr>tx_log := tx_log (posted 2 C ev intent t) @
     [InsertEntry (credit_posting C ev intent)]\<rparr>"
  "posted 4 C ev intent t = (posted 3 C ev intent t)\<lparr>tx_log := tx_log (posted 3 C ev intent t) @
     [InsertEntry (debit_posting C ev intent)]\<rparr>"
  "posted 4 C ev intent t = t\<lparr>tx_log := tx_log t @ post_body C ev intent (tx_view t)\<rparr>"
  by (simp_all add: posted_def post_body_def numeral_eq_Suc)

lemma posted_view:
  fixes t :: tx
  defines "v \<equiv> \<lambda>n C ev intent. tx_view (posted n C ev intent t)"
  shows "v (Suc 0) C ev intent = apply_write (SetBalance (from_account_id intent)
      (balance_of (tx_view t) (from_account_id intent) - intent_units C intent)) (tx_view t)"
    and "v 2 C ev intent = apply_write (SetBalance (to_account_id intent)
      (balance_of (tx_view t) (to_account_id intent) + intent_units C intent)) (v (Suc 0) C ev intent)"
    and "v 3 C ev intent = apply_write (InsertEntry (credit_posting C ev intent)) (v 2 C ev intent)"
  unfolding v_def by (simp_all add: posted_Suc(1-3))

lemma adjust_from_eval:
  assumes "movable C ev intent t f g"
  shows "adjust_balance C NoFault (from_account_id intent) (d_neg C (m_amount (intent_amount intent))) t =
    (if \<bar>a_balance f - intent_units C intent\<bar> < 10 ^ 20 then Ok (posted (Suc 0) C ev intent t)
     else Err (Database numeric_overflow))"
proof -
  have "dval C (d_neg C (m_amount (intent_amount intent))) = of_int (- intent_units C intent) / 10 ^ 8"
    using assms units_val(1) by (simp add: movable_def neg_val)
  from adjust_balance_calm [OF _ _ this, of t "from_account_id intent" f] show ?thesis
    using assms by (auto simp: movable_def posted_Suc(1) balance_of_def)
qed

lemma adjust_to_eval:
  assumes "movable C ev intent t f g" and "\<bar>a_balance f - intent_units C intent\<bar> < 10 ^ 20"
  shows "adjust_balance C NoFault (to_account_id intent) (m_amount (intent_amount intent))
      (posted (Suc 0) C ev intent t) =
    (if \<bar>a_balance g + intent_units C intent\<bar> < 10 ^ 20 then Ok (posted 2 C ev intent t)
     else Err (Database numeric_overflow))"
proof -
  let ?t = "posted (Suc 0) C ev intent t"
  have m: "constraints (tx_view t)" "account_row (tx_view t) (from_account_id intent) = Some f"
    "account_row (tx_view t) (to_account_id intent) = Some g"
    using assms(1) by (simp_all add: movable_def)
  note ok = constraints_account_row [OF m(1)]
  have "account_ok (f\<lparr>a_balance := a_balance f - intent_units C intent\<rparr>)"
    and pos: "a_allows_negative_balance g \<or> 0 \<le> a_balance g + intent_units C intent"
    using ok [OF m(2)] ok [OF m(3)] assms
    by (auto simp: movable_def account_ok_def accounts_check_def split: if_splits)
  then have "constraints (tx_view ?t)"
    unfolding posted_view(1) using m(1,2) by (intro constraints_write) (auto simp: balance_of_def)
  moreover have "account_row (tx_view ?t) (to_account_id intent) = Some g"
    unfolding posted_view(1) using assms(1) by (auto simp: movable_def table_simps)
  moreover have "dval C (m_amount (intent_amount intent)) = of_int (intent_units C intent) / 10 ^ 8"
    using assms(1) units_val(1) by (simp add: movable_def)
  ultimately show ?thesis
    using pos m(3) by (simp add: adjust_balance_calm posted_Suc(2) balance_of_def)
qed

lemma entries_eval:
  assumes "movable C ev intent t f g"
  shows "insert_entry C ev NoFault (at_credit_id ev) (at_txn_id ev) (from_account_id intent) Credit
      (m_amount (intent_amount intent)) (m_currency (intent_amount intent)) (posted 2 C ev intent t) =
    (if row e_id (entries (tx_view t)) (at_credit_id ev) \<noteq> None
     then Err (Database (unique_violation ''entries_pkey'')) else Ok (posted 3 C ev intent t))"
    and "insert_entry C ev NoFault (at_debit_id ev) (at_txn_id ev) (to_account_id intent) Debit
      (m_amount (intent_amount intent)) (m_currency (intent_amount intent)) (posted 3 C ev intent t) =
    (if row e_id (entries (tx_view t)) (at_debit_id ev) \<noteq> None \<or> at_credit_id ev = at_debit_id ev
     then Err (Database (unique_violation ''entries_pkey'')) else Ok (posted 4 C ev intent t))"
proof -
  let ?v = "\<lambda>n. tx_view (posted n C ev intent t)" and ?cur = "as_str (m_currency (intent_amount intent))"
  have m: "money_ok C (intent_amount intent)" "0 < intent_units C intent"
    using assms by (simp_all add: movable_def)
  have "text_ok ?cur"
    using account_text_ok constraints_account_row assms unfolding movable_def by metis
  note ins = insert_entry_calm [OF m _ _ this]
  have "map_option t_created_xid (transaction_row (?v 2) (at_txn_id ev)) = Some (at_xid ev)"
    "map_option t_created_xid (transaction_row (?v 3) (at_txn_id ev)) = Some (at_xid ev)"
    "map_option a_currency (account_row (?v 2) (from_account_id intent)) = Some ?cur"
    "map_option a_currency (account_row (?v 3) (to_account_id intent)) = Some ?cur"
    and ents: "entries (?v 2) = entries (tx_view t)"
    "entries (?v 3) = entries (tx_view t) @ [credit_posting C ev intent]"
    using assms by (auto simp: movable_def posted_view table_simps)
  then show "insert_entry C ev NoFault (at_credit_id ev) (at_txn_id ev) (from_account_id intent) Credit
      (m_amount (intent_amount intent)) (m_currency (intent_amount intent)) (posted 2 C ev intent t) =
    (if row e_id (entries (tx_view t)) (at_credit_id ev) \<noteq> None
     then Err (Database (unique_violation ''entries_pkey'')) else Ok (posted 3 C ev intent t))"
    by (simp add: ins posted_Suc(3) credit_posting_def)
  from \<open>map_option t_created_xid (transaction_row (?v 3) _) = _\<close> \<open>map_option a_currency (account_row (?v 3) _) = _\<close>
  show "insert_entry C ev NoFault (at_debit_id ev) (at_txn_id ev) (to_account_id intent) Debit
      (m_amount (intent_amount intent)) (m_currency (intent_amount intent)) (posted 3 C ev intent t) =
    (if row e_id (entries (tx_view t)) (at_debit_id ev) \<noteq> None \<or> at_credit_id ev = at_debit_id ev
     then Err (Database (unique_violation ''entries_pkey'')) else Ok (posted 4 C ev intent t))"
    unfolding posted_Suc(4) debit_posting_def
    by (subst ins) (auto simp: ents row_append credit_posting_def posting_def split: option.split)
qed

lemma movement_calm:
  assumes "movable C ev intent t f g"
  shows "and_then (adjust_balance C NoFault (from_account_id intent) (d_neg C (m_amount (intent_amount intent))) t) (\<lambda>t.
      and_then (adjust_balance C NoFault (to_account_id intent) (m_amount (intent_amount intent)) t) (\<lambda>t.
      and_then (insert_entry C ev NoFault (at_credit_id ev) (at_txn_id ev) (from_account_id intent) Credit
        (m_amount (intent_amount intent)) (m_currency (intent_amount intent)) t) (\<lambda>t.
      and_then (insert_entry C ev NoFault (at_debit_id ev) (at_txn_id ev) (to_account_id intent) Debit
        (m_amount (intent_amount intent)) (m_currency (intent_amount intent)) t) (\<lambda>t.
      Ok (from_account_id intent, t))))) =
    (if \<not> \<bar>a_balance f - intent_units C intent\<bar> < 10 ^ 20 \<or> \<not> \<bar>a_balance g + intent_units C intent\<bar> < 10 ^ 20
     then Err (Database numeric_overflow)
     else if \<not> fresh_entry_ids ev (tx_view t) then Err (Database (unique_violation ''entries_pkey''))
     else Ok (from_account_id intent, t\<lparr>tx_log := tx_log t @ post_body C ev intent (tx_view t)\<rparr>))"
proof (cases "\<bar>a_balance f - intent_units C intent\<bar> < 10 ^ 20")
  case True
  then show ?thesis
    unfolding posted_Suc(5) [symmetric]
    by (auto simp: adjust_from_eval [OF assms] adjust_to_eval [OF assms] entries_eval [OF assms] fresh_entry_ids_def)
qed (simp add: adjust_from_eval [OF assms])

lemma transfer_body_calm:
  assumes "money_ok C (intent_amount intent)" and "0 < intent_units C intent"
    and "from_account_id intent \<noteq> to_account_id intent"
    and "constraints (tx_view t)"
    and "map_option t_created_xid (transaction_row (tx_view t) (at_txn_id ev)) = Some (at_xid ev)"
  shows "transfer_body C (calm ev) intent t =
    (case intent_check C intent (tx_view t) of
       Some e \<Rightarrow> Err e
     | None \<Rightarrow>
         if \<not> fresh_entry_ids ev (tx_view t) then Err (Database (unique_violation ''entries_pkey''))
         else Ok (from_account_id intent,
                t\<lparr>tx_log := tx_log t @ post_body C ev intent (tx_view t)\<rparr>))"
proof -
  let ?from = "from_account_id intent" and ?to = "to_account_id intent" and ?d = "tx_view t"
  note rows = constraints_account_row [OF assms(4)]
  show ?thesis
  proof (cases "account_row ?d ?from"; cases "account_row ?d ?to")
    fix f g assume fg: "account_row ?d ?from = Some f" "account_row ?d ?to = Some g"
    define low where "low \<longleftrightarrow> \<not> a_allows_negative_balance f \<and> a_balance f < intent_units C intent"
    have low: "\<not> ar_allows_negative_balance (decode_account C f) \<and>
        d_lt C (ar_balance (decode_account C f)) (m_amount (intent_amount intent)) \<longleftrightarrow> low"
      using balance_lt_units [OF assms(1)] rows [OF fg(1)]
      by (simp add: low_def) (simp add: decode_account_def)
    have curs: "ar_currency (decode_account C r) = m_currency (intent_amount intent) \<longleftrightarrow>
        a_currency r = as_str (m_currency (intent_amount intent))"
      "as_str (ar_currency (decode_account C r)) = a_currency r" for r
      by (cases "m_currency (intent_amount intent)"; simp add: decode_account_def)+
    have ids: "ar_id (decode_account C f) = ?from" "ar_id (decode_account C g) = ?to"
      using rows fg by (simp_all add: decode_account_def)
    have start: "transfer_body C (calm ev) intent t =
        and_then (check_currencies [decode_account C f, decode_account C g]
            (m_currency (intent_amount intent))) (\<lambda>_.
          if low then Err (InsufficientFunds ?from)
          else and_then (adjust_balance C NoFault ?from (d_neg C (m_amount (intent_amount intent))) t) (\<lambda>t.
            and_then (adjust_balance C NoFault ?to (m_amount (intent_amount intent)) t) (\<lambda>t.
            and_then (insert_entry C ev NoFault (at_credit_id ev) (at_txn_id ev) ?from Credit
              (m_amount (intent_amount intent)) (m_currency (intent_amount intent)) t) (\<lambda>t.
            and_then (insert_entry C ev NoFault (at_debit_id ev) (at_txn_id ev) ?to Debit
              (m_amount (intent_amount intent)) (m_currency (intent_amount intent)) t) (\<lambda>t.
            Ok (?from, t))))))"
      unfolding transfer_body_def Let_def lock_accounts_calm [OF assms(3)] fg
      using assms(3) by (simp add: low ids insert_entry_calm_cong del: check_currencies.simps)
    show ?thesis
    proof (cases "a_currency f = as_str (m_currency (intent_amount intent)) \<and>
        a_currency g = as_str (m_currency (intent_amount intent)) \<and> \<not> low")
      case True
      then show ?thesis
        unfolding start
        using movement_calm [of ev intent t f g] assms fg
        by (simp add: movable_def curs intent_check_def transfer_check_def fg low_def [symmetric])
           (auto simp: low_def)
    next
      case False
      then show ?thesis
        unfolding start
        by (auto simp: curs ids intent_check_def transfer_check_def fg low_def [symmetric]
            currency_to_string_def)
    qed
  qed (unfold transfer_body_def Let_def lock_accounts_calm [OF assms(3)],
      simp_all add: intent_check_def transfer_check_def)
qed

end

section \<open>Accepted transfers\<close>

text \<open>The transfer is new, sensible and passes every check.\<close>

definition accepts :: "'d crates \<Rightarrow> attempt \<Rightarrow> str \<Rightarrow> 'd transfer_intent \<Rightarrow> db \<Rightarrow> bool" where
  "accepts C ev key intent d \<longleftrightarrow>
     key_row d key = None \<and> transaction_row d (at_txn_id ev) = None \<and>
     from_account_id intent \<noteq> to_account_id intent \<and> 0 < intent_units C intent \<and>
     intent_check C intent d = None \<and> fresh_entry_ids ev d"

lemma intent_check_NoneE:
  assumes "intent_check C intent d = None"
  obtains f g where "account_row d (from_account_id intent) = Some f"
    and "account_row d (to_account_id intent) = Some g"
    and "a_currency f = as_str (m_currency (intent_amount intent))"
    and "a_currency g = as_str (m_currency (intent_amount intent))"
    and "a_allows_negative_balance f \<or> intent_units C intent \<le> a_balance f"
    and "\<bar>a_balance f - intent_units C intent\<bar> < 10 ^ 20"
    and "\<bar>a_balance g + intent_units C intent\<bar> < 10 ^ 20"
proof -
  obtain f g where fg: "account_row d (from_account_id intent) = Some f"
    "account_row d (to_account_id intent) = Some g"
    using assms by (auto simp: intent_check_def transfer_check_def split: option.splits)
  show ?thesis
    by (rule that [OF fg])
       (use assms fg in \<open>auto simp: intent_check_def transfer_check_def split: if_splits\<close>)
qed

text \<open>The tables after the five writes.\<close>

lemma post_tables:
  fixes intent :: "'d transfer_intent"
  defines "d' \<equiv> \<lambda>C ev key intent d. apply_writes (post_writes C ev key intent d) d"
  shows "entries (d' C ev key intent d) =
      entries d @ [credit_posting C ev intent, debit_posting C ev intent]"
    and "transactions (d' C ev key intent d) = transactions d @ [claim_row C ev key intent]"
    and "accounts (d' C ev key intent d) =
      update_rows a_id (to_account_id intent)
        (\<lambda>r. r\<lparr>a_balance := balance_of d (to_account_id intent) + intent_units C intent\<rparr>)
        (update_rows a_id (from_account_id intent)
          (\<lambda>r. r\<lparr>a_balance := balance_of d (from_account_id intent) - intent_units C intent\<rparr>)
          (accounts d))"
  by (simp_all add: d'_def post_writes_def post_body_def table_simps)

lemma entries_of_post:
  assumes "constraints d" and "transaction_row d (at_txn_id ev) = None"
  shows "entries_of (apply_writes (post_writes C ev key intent d) d) (at_txn_id ev) =
      [credit_posting C ev intent, debit_posting C ev intent]"
    and "i \<noteq> at_txn_id ev \<Longrightarrow>
      entries_of (apply_writes (post_writes C ev key intent d) d) i = entries_of d i"
proof -
  have "entries_of d (at_txn_id ev) = []"
    using assms by (fastforce simp: constraints_def entry_ok_def entries_of_eq_Nil)
  then show "entries_of (apply_writes (post_writes C ev key intent d) d) (at_txn_id ev) =
      [credit_posting C ev intent, debit_posting C ev intent]"
    by (simp add: entries_of_def post_tables credit_posting_def debit_posting_def posting_def)
  show "i \<noteq> at_txn_id ev \<Longrightarrow>
      entries_of (apply_writes (post_writes C ev key intent d) d) i = entries_of d i"
    by (simp add: entries_of_def post_tables credit_posting_def debit_posting_def posting_def)
qed

lemma post_commit:
  assumes "constraints d" and "transaction_row d (at_txn_id ev) = None"
  shows "sql_commit (inserted_entries (post_writes C ev key intent d))
    (apply_writes (post_writes C ev key intent d) d) = Ok ()"
proof -
  have "inserted_entries (post_writes C ev key intent d) =
      [credit_posting C ev intent, debit_posting C ev intent]"
    by (simp add: post_writes_def post_body_def)
  moreover have "assert_transaction_balanced (apply_writes (post_writes C ev key intent d) d)
      (at_txn_id ev) = None"
    unfolding shape_iff entries_of_post(1) [OF assms]
    by (simp add: credit_posting_def debit_posting_def posting_def net_of_def e_signed_def)
  ultimately show ?thesis
    by (simp add: sql_commit_Ok_iff credit_posting_def debit_posting_def posting_def)
qed

context crate_contracts
begin

lemma hash_length: "length (request_hash C intent) = 32"
  by (simp add: request_hash_def sha256_length)

lemma post_writes_ok:
  assumes "constraints d" and "money_ok C (intent_amount intent)" and "accepts C ev key intent d"
  shows "writes_ok (at_xid ev) d (post_writes C ev key intent d)"
proof -
  have chk: "intent_check C intent d = None" and from_to: "from_account_id intent \<noteq> to_account_id intent"
    and fresh: "fresh_entry_ids ev d" and pos: "0 < intent_units C intent"
    and new: "key_row d key = None" "transaction_row d (at_txn_id ev) = None"
    using assms(3) by (simp_all add: accepts_def)
  from chk obtain f g where fg: "account_row d (from_account_id intent) = Some f"
    "account_row d (to_account_id intent) = Some g"
    "a_currency f = as_str (m_currency (intent_amount intent))"
    "a_currency g = as_str (m_currency (intent_amount intent))"
    "a_allows_negative_balance f \<or> intent_units C intent \<le> a_balance f"
    "\<bar>a_balance f - intent_units C intent\<bar> < 10 ^ 20" "\<bar>a_balance g + intent_units C intent\<bar> < 10 ^ 20"
    by (rule intent_check_NoneE)
  have "account_ok (f\<lparr>a_balance := a_balance f - intent_units C intent\<rparr>)"
    "account_ok (g\<lparr>a_balance := a_balance g + intent_units C intent\<rparr>)"
    using constraints_account_row [OF assms(1) fg(1)] constraints_account_row [OF assms(1) fg(2)]
      fg(5-7) pos
    by (auto simp: account_ok_def accounts_check_def split: if_splits)
  moreover have "intent_units C intent < 10 ^ 20"
    using units_val(2) [OF assms(2)] by linarith
  ultimately show ?thesis
    using fg(1-4) from_to fresh pos new hash_length
    by (simp add: post_writes_def post_body_def claim_row_def credit_posting_def debit_posting_def
        posting_def balance_of_def table_simps entry_ok_def fresh_entry_ids_def row_append)
qed

section \<open>The refinement\<close>

lemma claim_key_calm:
  "claim_key (calm ev) key (request_hash C intent) (intent_description intent) \<lparr>tx_base = d, tx_log = []\<rparr> =
    (if \<not> (text_ok key \<and> text_ok (intent_description intent)) then Err invalid_text
     else if transaction_row d (at_txn_id ev) \<noteq> None then Err (unique_violation ''transactions_pkey'')
     else if key_row d key \<noteq> None then Err (unique_violation ''transactions_idempotency_key_key'')
     else Ok \<lparr>tx_base = d, tx_log = [InsertTransaction (claim_row C ev key intent)]\<rparr>)"
  unfolding claim_key_def tx_exec_def sql_insert_transaction_eval [OF hash_length]
  by (simp add: tx_view_def claim_row_def)

lemma claim_errors:
  "\<not> is_idempotency_key_collision invalid_text"
  "\<not> is_idempotency_key_collision (unique_violation ''transactions_pkey'')"
  "is_idempotency_key_collision (unique_violation ''transactions_idempotency_key_key'')"
  by (simp_all add: is_idempotency_key_collision_def invalid_text_def unique_violation_def
      pg_error_def sqlstate_defs)

lemma lost_race_calm:
  "key_row d key = Some t \<Longrightarrow> lost_race C (calm ev) key hash d =
     replay C (calm ev) key \<lparr>ir_transaction_id = t_id t, ir_request_hash = t_request_hash t\<rparr> hash d"
  by (simp add: lost_race_def find_by_idempotency_key_def)

text \<open>The claim does not touch what the body of the transfer reads.\<close>

lemma claim_frame:
  fixes d :: db
  defines "d1 \<equiv> \<lambda>r. apply_write (InsertTransaction r) d"
  shows "intent_check C intent (d1 r) = intent_check C intent d"
    and "fresh_entry_ids ev (d1 r) = fresh_entry_ids ev d"
    and "post_body C ev intent (d1 r) = post_body C ev intent d"
  by (simp_all add: d1_def intent_check_def transfer_check_def fresh_entry_ids_def post_body_def
      balance_of_def table_simps)

lemma execute_tx_calm:
  assumes "constraints d" and "money_ok C (intent_amount intent)" and "0 < intent_units C intent"
    and "from_account_id intent \<noteq> to_account_id intent"
  shows "execute_tx C (calm ev) key intent (request_hash C intent) d =
    (if \<not> (text_ok key \<and> text_ok (intent_description intent)) then (Err (Database invalid_text), d)
     else if transaction_row d (at_txn_id ev) \<noteq> None
          then (Err (Database (unique_violation ''transactions_pkey'')), d)
     else case key_row d key of
       Some t \<Rightarrow> (replay C (calm ev) key \<lparr>ir_transaction_id = t_id t, ir_request_hash = t_request_hash t\<rparr>
                    (request_hash C intent) d, d)
     | None \<Rightarrow>
         (case intent_check C intent d of
            Some e \<Rightarrow> (Err e, d)
          | None \<Rightarrow>
              if \<not> fresh_entry_ids ev d then (Err (Database (unique_violation ''entries_pkey'')), d)
              else let d' = apply_writes (post_writes C ev key intent d) d in
                (and_then (transactions_get C NoFault NoFault (at_txn_id ev) d')
                   (\<lambda>detail. Ok \<lparr>res_outcome = Created, res_detail = detail\<rparr>), d')))"
proof (cases "text_ok key \<and> text_ok (intent_description intent) \<and>
    transaction_row d (at_txn_id ev) = None \<and> key_row d key = None")
  case False
  then show ?thesis
    by (auto simp: execute_tx_def claim_key_calm claim_errors lost_race_calm split: option.split)
next
  case True
  let ?r = "claim_row C ev key intent"
  let ?t = "\<lparr>tx_base = d, tx_log = [InsertTransaction ?r]\<rparr>"
  have view: "tx_view ?t = apply_write (InsertTransaction ?r) d"
    by (simp add: tx_view_def)
  have cons: "constraints (tx_view ?t)"
    unfolding view using True hash_length
    by (intro constraints_write [OF assms(1)]) (simp add: claim_row_def)
  have parent: "map_option t_created_xid (transaction_row (tx_view ?t) (at_txn_id ev)) = Some (at_xid ev)"
    unfolding view using True by (simp add: table_simps) (simp add: claim_row_def)
  have body: "transfer_body C (calm ev) intent ?t =
      (case intent_check C intent d of
         Some e \<Rightarrow> Err e
       | None \<Rightarrow>
           if \<not> fresh_entry_ids ev d then Err (Database (unique_violation ''entries_pkey''))
           else Ok (from_account_id intent,
                  \<lparr>tx_base = d, tx_log = post_writes C ev key intent d\<rparr>))"
    using transfer_body_calm [OF assms(2-4) cons parent]
    by (simp only: view claim_frame) (simp add: post_writes_def split: option.split)
  have commit: "tx_commit NoFault \<lparr>tx_base = d, tx_log = post_writes C ev key intent d\<rparr> =
      (Ok (), apply_writes (post_writes C ev key intent d) d)"
    unfolding tx_commit_def tx_view_def fault.case tx.select_convs
    by (simp add: post_commit [OF assms(1)] True)
  show ?thesis
    using True by (simp add: execute_tx_def claim_key_calm body commit Let_def split: option.split)
qed

lemma summary_replay:
  assumes "constraints d" and "key_row d key = Some t"
  shows "summary (replay C (calm ev) key \<lparr>ir_transaction_id = t_id t, ir_request_hash = t_request_hash t\<rparr>
      (request_hash C intent) d) = replay_spec C key intent t"
proof -
  have "t \<in> set (transactions d)"
    using assms(2) row_Some unfolding key_row_def by metis
  then have "transaction_row d (t_id t) = Some t"
    using assms(1) by (simp add: constraints_def transaction_row_def row_unique)
  then obtain td where "transactions_get C NoFault NoFault (t_id t) d = Ok td"
    "td_transaction td = transaction_from (decode_transaction t)"
    using transactions_get_spec(2) [OF assms(1)] by blast
  then show ?thesis
    by (simp add: replay_def replay_spec_def transaction_from_def decode_transaction_def)
qed

lemma execute_once_refines:
  assumes "constraints d" and "constraints (at_race ev d)" and "money_ok C (intent_amount intent)"
  shows "map_prod summary id (execute_once C (calm ev) key intent d) = transfer_spec C ev key intent d"
proof (cases "key_row d key = None \<and> from_account_id intent \<noteq> to_account_id intent \<and>
    0 < intent_units C intent")
  case False
  then show ?thesis
    using summary_replay [OF assms(1)] units_val(4) [OF assms(3)]
    by (auto simp: execute_once_def transfer_spec_def find_by_idempotency_key_def Let_def
        split: option.split)
next
  case True
  let ?d = "at_race ev d"
  have created: "summary (and_then (transactions_get C NoFault NoFault (at_txn_id ev)
      (apply_writes (post_writes C ev key intent ?d) ?d))
      (\<lambda>detail. Ok \<lparr>res_outcome = Created, res_detail = detail\<rparr>)) = Ok (Created, at_txn_id ev)"
    if acc: "accepts C ev key intent ?d"
  proof -
    let ?d' = "apply_writes (post_writes C ev key intent ?d) ?d"
    have "constraints ?d'"
      by (rule constraints_writes [OF assms(2) post_writes_ok [OF assms(2,3) acc]])
    moreover have "transaction_row ?d' (at_txn_id ev) = Some (claim_row C ev key intent)"
      using acc by (simp add: transaction_row_def post_tables row_append accepts_def claim_row_def)
    ultimately show ?thesis
      using transactions_get_spec(2) [of ?d' "at_txn_id ev"]
      by (fastforce simp: transaction_from_def decode_transaction_def claim_row_def)
  qed
  have "map_prod summary id (execute_tx C (calm ev) key intent (request_hash C intent) ?d) =
      transfer_spec C ev key intent d"
    unfolding execute_tx_calm [OF assms(2,3) conjunct2 [OF conjunct2 [OF True]]
        conjunct1 [OF conjunct2 [OF True]]]
    using True created summary_replay [OF assms(2)]
    by (auto simp: transfer_spec_def Let_def accepts_def split: option.split)
  with True show ?thesis
    using units_val(4) [OF assms(3)]
    by (simp add: execute_once_def find_by_idempotency_key_def Let_def)
qed

end

end
