(* ===== verification/Transfer_Faults.thy ===== *)
theory Transfer_Faults
  imports Transfer_Spec
begin

text \<open>
  A transfer with failing calls, reduced to one without. A call that fails can only turn a result
  into an error; what an attempt leaves behind is then the state it started from, the state the
  other sessions made of it, or the complete effect of the attempt, never a part of it.
\<close>

section \<open>Failing or the same\<close>

definition fails_or :: "('e, 'a) result \<Rightarrow> ('e, 'a) result \<Rightarrow> bool" where
  "fails_or r r' \<longleftrightarrow> r = r' \<or> (\<exists>e. r = Err e)"

lemma fails_or_refl: "fails_or r r"
  by (simp add: fails_or_def)

lemma fails_or_Err: "fails_or (Err e) r"
  by (simp add: fails_or_def)

lemma fails_or_db_call: "fails_or (db_call f r) (db_call NoFault r)"
  by (cases f) (simp_all add: db_call_def fails_or_def)

lemma fails_or_map_err: "fails_or r r' \<Longrightarrow> fails_or (map_err h r) (map_err h r')"
  by (auto simp: fails_or_def)

lemma fails_or_and_then:
  assumes "fails_or r r'" and "\<And>x. fails_or (f x) (f' x)"
  shows "fails_or (and_then r f) (and_then r' f')"
proof (cases r)
  case (Ok x)
  then show ?thesis
    using assms(1) assms(2) [of x] by (auto simp: fails_or_def)
qed (use assms(1) in \<open>auto simp: fails_or_def\<close>)

lemma fails_or_if: "fails_or r r' \<Longrightarrow> fails_or q q' \<Longrightarrow> fails_or (if b then r else q) (if b then r' else q')"
  by simp

lemmas fails_or_rules = fails_or_refl fails_or_Err fails_or_db_call fails_or_map_err
  fails_or_and_then fails_or_if

text \<open>Every call of the program is one of these, so the rules above carry through its operations.\<close>

lemma fails_or_find:
  "fails_or (find_by_idempotency_key f key d) (find_by_idempotency_key NoFault key d)"
  unfolding find_by_idempotency_key_def by (intro fails_or_rules)

lemma fails_or_get:
  "fails_or (transactions_get C f1 f2 i d) (transactions_get C NoFault NoFault i d)"
  unfolding transactions_get_def by (intro fails_or_rules)

lemma fails_or_replay: "fails_or (replay C ev key r h d) (replay C (calm ev) key r h d)"
  unfolding replay_def calm_simps by (intro fails_or_rules fails_or_get)

lemma fails_or_lost_race: "fails_or (lost_race C ev key h d) (lost_race C (calm ev) key h d)"
  unfolding lost_race_def calm_simps by (intro fails_or_rules fails_or_find fails_or_replay)

lemma fails_or_adjust: "fails_or (adjust_balance C f i x t) (adjust_balance C NoFault i x t)"
  unfolding adjust_balance_def tx_exec_def by (intro fails_or_rules)

lemma fails_or_insert:
  "fails_or (insert_entry C ev f e i a dir x cur t) (insert_entry C (calm ev) NoFault e i a dir x cur t)"
  unfolding insert_entry_def tx_exec_def calm_simps by (intro fails_or_rules)

lemma fails_or_lock: "fails_or (lock_accounts C ev ids d m) (lock_accounts C (calm ev) ids d m)"
proof (induction C ev ids d m rule: lock_accounts.induct)
  case (1 C ev d m)
  show ?case
    unfolding lock_accounts.simps by (rule fails_or_refl)
next
  case (2 C ev c i ids d m)
  then show ?case
    unfolding lock_accounts.simps fetch_for_update_def calm_simps
    by (intro fails_or_and_then fails_or_map_err fails_or_db_call fails_or_refl)
qed

lemma fails_or_body: "fails_or (transfer_body C ev intent t) (transfer_body C (calm ev) intent t)"
  unfolding transfer_body_def Let_def calm_simps
  by (intro fails_or_and_then fails_or_if fails_or_refl fails_or_lock fails_or_adjust fails_or_insert)

section \<open>One attempt\<close>

text \<open>The only assumption on faults: the key is reported as taken only by the unique index itself.\<close>

definition honest :: "attempt \<Rightarrow> bool" where
  "honest ev \<longleftrightarrow> (\<forall>e. fault_error (at_fault ev ClaimKey) = Some e \<longrightarrow> \<not> is_idempotency_key_collision e)"

lemma tx_commit_faulty:
  assumes "tx_commit f t = (r, d')"
  shows "tx_commit NoFault t = (r, d') \<or> (\<exists>e. r = Err e) \<and> (d' = tx_base t \<or> d' = snd (tx_commit NoFault t))"
  using assms by (cases f) (auto simp: tx_commit_def split: result.splits)

lemma tx_exec_base: "tx_exec f stmt t = Ok t' \<Longrightarrow> tx_base t' = tx_base t"
  by (auto simp: tx_exec_def result_simps)

lemma transfer_body_base:
  assumes "transfer_body C ev intent t = Ok (i, t')"
  shows "tx_base t' = tx_base t"
  using assms unfolding transfer_body_def Let_def adjust_balance_def insert_entry_def
  by (auto simp: result_simps split: if_splits dest!: tx_exec_base simp del: sort_key_simps)

text \<open>After the claim: the body, the commit and the read of the result.\<close>

lemma claimed_faulty:
  assumes claim: "claim_key ev key h (intent_description intent) \<lparr>tx_base = d, tx_log = []\<rparr> = Ok t"
    and same: "claim_key (calm ev) key h (intent_description intent) \<lparr>tx_base = d, tx_log = []\<rparr> = Ok t"
    and body: "transfer_body C ev intent t = Ok (from_id, t')" and run: "execute_tx C ev key intent h d = (r, d')"
  shows "execute_tx C (calm ev) key intent h d = (r, d') \<or>
    (\<exists>e. r = Err e) \<and> (d' = d \<or> d' = snd (execute_tx C (calm ev) key intent h d))"
proof -
  have "tx_base t = d"
    using claim by (auto simp: claim_key_def tx_exec_def result_simps)
  then have base: "tx_base t' = d"
    using transfer_body_base [OF body] by simp
  have calm: "transfer_body C (calm ev) intent t = Ok (from_id, t')"
    using fails_or_body [of C ev intent t] body by (simp add: fails_or_def)
  define get where "get = (\<lambda>ev :: attempt. \<lambda>d'. and_then (transactions_get C (at_fault ev GetTransaction)
    (at_fault ev GetEntries) (at_txn_id ev) d')
    (\<lambda>detail. Ok \<lparr>res_outcome = Created, res_detail = detail\<rparr>))"
  have get: "fails_or (get ev d') (get (calm ev) d')" for d'
    unfolding get_def calm_simps by (intro fails_or_and_then fails_or_get fails_or_refl)
  obtain c d1 where commit: "tx_commit (at_fault ev Commit) t' = (c, d1)"
    by fastforce
  show ?thesis
    using tx_commit_faulty [OF commit] get [of d'] run base claim same body calm commit
    by (cases c) (auto simp: execute_tx_def fails_or_def get_def split: prod.splits result.splits)
qed

lemma execute_tx_faulty:
  assumes "honest ev" and run: "execute_tx C ev key intent h d = (r, d')"
  shows "execute_tx C (calm ev) key intent h d = (r, d') \<or>
    (\<exists>e. r = Err e) \<and> (d' = d \<or> d' = snd (execute_tx C (calm ev) key intent h d))"
proof (cases "fault_error (at_fault ev ClaimKey)")
  case (Some e)
  then show ?thesis
    using assms by (auto simp: execute_tx_def claim_key_def tx_exec_def db_call_def honest_def)
next
  case None
  let ?t = "\<lparr>tx_base = d, tx_log = []\<rparr>"
  have "at_fault ev ClaimKey = NoFault"
    using None by (cases "at_fault ev ClaimKey") auto
  then have same: "claim_key (calm ev) key h descr ?t = claim_key ev key h descr ?t" for descr
    by (simp add: claim_key_def)
  show ?thesis
  proof (cases "claim_key ev key h (intent_description intent) ?t")
    case (Err err)
    then show ?thesis
      using run fails_or_lost_race [of C ev key h d]
      by (auto simp: execute_tx_def same fails_or_def split: if_splits)
  next
    case Panic
    then have "execute_tx C (calm ev) key intent h d = execute_tx C ev key intent h d"
      by (simp add: execute_tx_def same)
    then show ?thesis
      using run by simp
  next
    case claim: (Ok t)
    show ?thesis
    proof (cases "transfer_body C ev intent t")
      case (Ok ft)
      then show ?thesis
        using claimed_faulty [OF claim _ _ run] same claim by (cases ft) simp
    next
      case (Err e)
      then show ?thesis
        using run claim by (auto simp: execute_tx_def)
    next
      case Panic
      then have "transfer_body C (calm ev) intent t = Panic"
        using fails_or_body [of C ev intent t] by (simp add: fails_or_def)
      then have "execute_tx C (calm ev) key intent h d = execute_tx C ev key intent h d"
        using Panic claim by (simp add: execute_tx_def same)
      then show ?thesis
        using run by simp
    qed
  qed
qed

lemma execute_once_faulty:
  assumes "honest ev" and "execute_once C ev key intent d = (r, d')"
  shows "execute_once C (calm ev) key intent d = (r, d') \<or>
    (\<exists>e. r = Err e) \<and>
    (d' = d \<or> d' = at_race ev d \<or> d' = snd (execute_once C (calm ev) key intent d))"
proof (cases "find_by_idempotency_key (at_fault ev FindKey) key d")
  case (Err e)
  then show ?thesis
    using assms(2) by (auto simp: execute_once_def)
next
  case Panic
  then show ?thesis
    by (simp add: find_by_idempotency_key_def result_simps)
next
  case (Ok opt)
  then have calm: "find_by_idempotency_key NoFault key d = Ok opt"
    using fails_or_find [of "at_fault ev FindKey" key d] by (simp add: fails_or_def)
  show ?thesis
  proof (cases opt)
    case (Some rec)
    then show ?thesis
      using assms(2) Ok calm fails_or_replay [of C ev key rec "request_hash C intent" d]
      by (auto simp: execute_once_def Let_def fails_or_def)
  next
    case None
    then show ?thesis
      using assms(2) Ok calm
        execute_tx_faulty [OF assms(1), of C key intent "request_hash C intent" "at_race ev d" r d']
      by (auto simp: execute_once_def Let_def split: option.splits if_splits)
  qed
qed

end
