(* ===== verification/Transfer_Correctness.thy ===== *)
theory Transfer_Correctness
  imports Transfer_Faults
begin

text \<open>
  What holds of every transfer, whatever fails and whatever other sessions commit in between: the
  ledger invariant and the append-only history are kept, a success is backed by a committed
  transaction of that key and that request, and retries never move money twice.
\<close>

section \<open>The ledger between attempts\<close>

text \<open>History only grows, and what is recorded of a transaction stays as it is.\<close>

definition grows :: "db \<Rightarrow> db \<Rightarrow> bool" where
  "grows d d' \<longleftrightarrow> extends d d' \<and>
     (\<forall>e \<in> set (entries d). entries_of d' (e_transaction_id e) = entries_of d (e_transaction_id e))"

lemma grows_refl [simp]: "grows d d"
  by (simp add: grows_def)

lemma grows_trans:
  assumes "grows d d'" and "grows d' d''"
  shows "grows d d''"
proof -
  have "set (entries d) \<subseteq> set (entries d')"
    using assms(1) by (auto simp: grows_def extends_def)
  with assms show ?thesis
    unfolding grows_def using extends_trans by (metis subsetD)
qed

lemma grows_key_row: "grows d d' \<Longrightarrow> key_row d key = Some t \<Longrightarrow> key_row d' key = Some t"
  by (auto simp: grows_def extends_def key_row_def row_append)

lemma grows_transaction_row: "grows d d' \<Longrightarrow> transaction_row d i = Some t \<Longrightarrow> transaction_row d' i = Some t"
  by (auto simp: grows_def extends_def transaction_row_def row_append)

text \<open>Other sessions of the service commit whole transfers and new accounts.\<close>

definition fair_race :: "attempt \<Rightarrow> bool" where
  "fair_race ev \<longleftrightarrow>
     (\<forall>d. ledger_inv (at_xid ev) d \<longrightarrow> ledger_inv (at_xid ev) (at_race ev d) \<and> grows d (at_race ev d))"

lemma ledger_inv_constraints: "ledger_inv x d \<Longrightarrow> constraints d"
  by (simp add: ledger_inv_def schema_inv_def)

section \<open>An accepted transfer\<close>

lemma net_of_posting:
  "net_of [credit_posting C ev intent] = - intent_units C intent"
  "net_of [debit_posting C ev intent] = intent_units C intent"
  by (simp_all add: net_of_def e_signed_def credit_posting_def debit_posting_def posting_def)

lemma posting_accounts:
  "e_account_id (credit_posting C ev intent) = from_account_id intent"
  "e_account_id (debit_posting C ev intent) = to_account_id intent"
  by (simp_all add: credit_posting_def debit_posting_def posting_def)

lemma post_derived_balance:
  assumes "from_account_id intent \<noteq> to_account_id intent"
  shows "derived_balance (apply_writes (post_writes C ev key intent d) d) i =
    derived_balance d i +
    (if i = from_account_id intent then - intent_units C intent
     else if i = to_account_id intent then intent_units C intent else 0)"
  using derived_balance_append [OF post_tables(1), of C ev key intent d i] assms
  by (auto simp: posting_accounts net_of_posting) (simp_all add: net_of_def)

lemma post_account_row:
  assumes "from_account_id intent \<noteq> to_account_id intent"
  shows "account_row (apply_writes (post_writes C ev key intent d) d) i =
    map_option (\<lambda>r. r\<lparr>a_balance := a_balance r +
      (if i = from_account_id intent then - intent_units C intent
       else if i = to_account_id intent then intent_units C intent else 0)\<rparr>) (account_row d i)"
  using assms
  by (cases "account_row d i")
     (auto simp: post_writes_def post_body_def balance_of_def table_simps)

text \<open>A success is backed by a committed transaction, and reports it as it is stored.\<close>

definition backed :: "'d crates \<Rightarrow> str \<Rightarrow> 'd transfer_intent \<Rightarrow> 'd transfer_result \<Rightarrow> db \<Rightarrow> bool" where
  "backed C key intent res d \<longleftrightarrow>
     (\<exists>t. key_row d key = Some t \<and> t_request_hash t = request_hash C intent \<and>
        transactions_get C NoFault NoFault (t_id t) d = Ok (res_detail res) \<and>
        td_transaction (res_detail res) = transaction_from (decode_transaction t))"

lemma backed_grows:
  assumes "ledger_inv y d1" and "backed C key intent res d1" and "grows d1 d2"
  shows "backed C key intent res d2"
proof -
  obtain t where t: "key_row d1 key = Some t" "t_request_hash t = request_hash C intent"
    and get: "transactions_get C NoFault NoFault (t_id t) d1 = Ok (res_detail res)"
    and txn: "td_transaction (res_detail res) = transaction_from (decode_transaction t)"
    using assms(2) by (auto simp: backed_def)
  have "t \<in> set (transactions d1)"
    using t(1) row_Some unfolding key_row_def by metis
  then have "transaction_row d1 (t_id t) = Some t" and "entries_of d1 (t_id t) \<noteq> []"
    using assms(1) ledger_inv_constraints [OF assms(1)]
    by (auto simp: constraints_def transaction_row_def row_unique ledger_inv_def)
  then obtain e where "e \<in> set (entries d1)" "e_transaction_id e = t_id t"
    using entries_of_eq_Nil by blast
  then have "entries_of d2 (t_id t) = entries_of d1 (t_id t)"
    using assms(3) unfolding grows_def by metis
  moreover have "transaction_row d2 (t_id t) = transaction_row d1 (t_id t)"
    using grows_transaction_row [OF assms(3)] \<open>transaction_row d1 (t_id t) = Some t\<close> by simp
  ultimately have "transactions_get C NoFault NoFault (t_id t) d2 = Ok (res_detail res)"
    using get by (simp add: transactions_get_def)
  then show ?thesis
    using grows_key_row [OF assms(3) t(1)] t(2) txn by (auto simp: backed_def)
qed

context crate_contracts
begin

lemma post_nonempty:
  assumes "ledger_inv y d" and "transaction_row d (at_txn_id ev) = None"
    and "t \<in> set (transactions (apply_writes (post_writes C ev key intent d) d))"
  shows "entries_of (apply_writes (post_writes C ev key intent d) d) (t_id t) \<noteq> []"
proof (cases "t_id t = at_txn_id ev")
  case True
  then show ?thesis
    using entries_of_post(1) [OF ledger_inv_constraints [OF assms(1)] assms(2), of C key intent] by simp
next
  case False
  then have "t \<in> set (transactions d)"
    using assms(3) by (auto simp: post_tables claim_row_def)
  then show ?thesis
    using assms(1) entries_of_post(2) [OF ledger_inv_constraints [OF assms(1)] assms(2) False, of C key intent]
    by (simp add: ledger_inv_def)
qed

lemma post_cached:
  assumes "ledger_inv y d" and from_to: "from_account_id intent \<noteq> to_account_id intent"
    and "account_row (apply_writes (post_writes C ev key intent d) d) (a_id a) = Some a"
  shows "a_balance a = derived_balance (apply_writes (post_writes C ev key intent d) d) (a_id a)"
proof -
  let ?delta = "if a_id a = from_account_id intent then - intent_units C intent
    else if a_id a = to_account_id intent then intent_units C intent else 0"
  have "\<exists>r. account_row d (a_id a) = Some r \<and> a_balance a = a_balance r + ?delta"
    using assms(3) unfolding post_account_row [OF from_to] by (cases "account_row d (a_id a)") auto
  then obtain r where r: "account_row d (a_id a) = Some r" "a_balance a = a_balance r + ?delta"
    by blast
  then have "a_balance r = derived_balance d (a_id a)"
    using assms(1) row_Some [of a_id "accounts d" "a_id a" r] by (auto simp: ledger_inv_def account_row_def)
  with r(2) show ?thesis
    by (simp add: post_derived_balance [OF from_to])
qed

lemma post_keeps:
  assumes "ledger_inv y d" and "xid_unused (at_xid ev) d" and "at_xid ev < y"
    and "money_ok C (intent_amount intent)" and "accepts C ev key intent d"
  shows "ledger_inv y (apply_writes (post_writes C ev key intent d) d)"
    and "grows d (apply_writes (post_writes C ev key intent d) d)"
proof -
  let ?d = "apply_writes (post_writes C ev key intent d) d"
  have cons: "constraints d" and inv: "schema_inv y d"
    using assms(1) by (simp_all add: ledger_inv_def schema_inv_def)
  have new: "transaction_row d (at_txn_id ev) = None"
    and from_to: "from_account_id intent \<noteq> to_account_id intent"
    using assms(5) by (simp_all add: accepts_def)
  have ok: "writes_ok (at_xid ev) d (post_writes C ev key intent d)"
    by (rule post_writes_ok [OF cons assms(4,5)])
  have inv': "schema_inv y ?d"
    by (rule commit_schema_inv [OF inv assms(2) ok assms(3) post_commit [OF cons new]])
  then have "account_row ?d (a_id a) = Some a" if "a \<in> set (accounts ?d)" for a
    using that by (simp add: schema_inv_def constraints_def account_row_def row_unique)
  then show "ledger_inv y ?d"
    using inv' post_nonempty [OF assms(1) new] post_cached [OF assms(1) from_to] by (auto simp: ledger_inv_def)
  show "grows d ?d"
    using apply_writes_extends old_entries_untouched [OF cons assms(2) ok] by (simp add: grows_def)
qed

lemma post_ledger_inv:
  assumes "ledger_inv (at_xid ev) d" and "money_ok C (intent_amount intent)"
    and "accepts C ev key intent d"
  shows "ledger_inv (Suc (at_xid ev)) (apply_writes (post_writes C ev key intent d) d)"
    and "grows d (apply_writes (post_writes C ev key intent d) d)"
proof -
  have "xid_unused (at_xid ev) d"
    using assms(1) schema_inv_unused by (simp add: ledger_inv_def)
  note keeps = post_keeps [OF ledger_inv_mono [OF assms(1)] this _ assms(2,3), of "Suc (at_xid ev)"]
  then show "ledger_inv (Suc (at_xid ev)) (apply_writes (post_writes C ev key intent d) d)"
    and "grows d (apply_writes (post_writes C ev key intent d) d)"
    by simp_all
qed

section \<open>One attempt\<close>

lemma transfer_spec_effect:
  "snd (transfer_spec C ev key intent d) \<in> {d, at_race ev d} \<or>
   accepts C ev key intent (at_race ev d) \<and>
   snd (transfer_spec C ev key intent d) =
     apply_writes (post_writes C ev key intent (at_race ev d)) (at_race ev d)"
  by (auto simp: transfer_spec_def accepts_def Let_def split: option.split)

lemma execute_once_effect:
  assumes "honest ev" and "fair_race ev" and "ledger_inv (at_xid ev) d"
    and "money_ok C (intent_amount intent)"
    and "execute_once C ev key intent d = (r, d')"
  shows "d' \<in> {d, at_race ev d} \<or>
    accepts C ev key intent (at_race ev d) \<and>
    d' = apply_writes (post_writes C ev key intent (at_race ev d)) (at_race ev d)"
proof -
  have "constraints d" "constraints (at_race ev d)"
    using assms(2,3) ledger_inv_constraints by (auto simp: fair_race_def)
  from execute_once_refines [OF this assms(4), of key]
  have "snd (execute_once C (calm ev) key intent d) = snd (transfer_spec C ev key intent d)"
    by (metis id_apply snd_map_prod)
  then have "d' \<in> {d, at_race ev d, snd (transfer_spec C ev key intent d)}"
    using execute_once_faulty [OF assms(1,5)] by auto
  then show ?thesis
    using transfer_spec_effect [of ev key intent d] by auto
qed

lemma execute_once_keeps:
  assumes "honest ev" and "fair_race ev" and "ledger_inv (at_xid ev) d"
    and "money_ok C (intent_amount intent)"
    and "execute_once C ev key intent d = (r, d')"
  shows "ledger_inv (Suc (at_xid ev)) d' \<and> grows d d'"
proof -
  have race: "ledger_inv (at_xid ev) (at_race ev d)" "grows d (at_race ev d)"
    using assms(2,3) by (auto simp: fair_race_def)
  then show ?thesis
    using execute_once_effect [OF assms] post_ledger_inv [OF race(1) assms(4)] assms(3)
      ledger_inv_mono [of "at_xid ev" _ "Suc (at_xid ev)"] grows_trans
    by auto
qed

lemma replay_backed:
  assumes "constraints d" and "key_row d key = Some t"
    and "replay C (calm ev) key \<lparr>ir_transaction_id = t_id t, ir_request_hash = t_request_hash t\<rparr>
      (request_hash C intent) d = Ok res"
  shows "backed C key intent res d"
proof -
  have hash: "t_request_hash t = request_hash C intent"
    and get: "transactions_get C NoFault NoFault (t_id t) d = Ok (res_detail res)"
    using assms(3) by (auto simp: replay_def result_simps split: if_splits)
  have "transaction_row d (t_id t) = Some t"
    using assms(1,2) row_Some unfolding constraints_def transaction_row_def key_row_def
    by (metis row_unique)
  then show ?thesis
    using transactions_get_spec(2) [OF assms(1), of "t_id t" t] assms(2) hash get
    by (auto simp: backed_def)
qed

lemma created_backed:
  assumes "constraints d" and "money_ok C (intent_amount intent)" and "accepts C ev key intent d"
    and "transactions_get C NoFault NoFault (at_txn_id ev)
      (apply_writes (post_writes C ev key intent d) d) = Ok (res_detail res)"
  shows "backed C key intent res (apply_writes (post_writes C ev key intent d) d)"
proof -
  let ?d = "apply_writes (post_writes C ev key intent d) d" and ?t = "claim_row C ev key intent"
  have "constraints ?d"
    by (rule constraints_writes [OF assms(1) post_writes_ok [OF assms(1-3)]])
  moreover have "transaction_row ?d (at_txn_id ev) = Some ?t" "key_row ?d key = Some ?t"
    using assms(3)
    by (simp_all add: transaction_row_def key_row_def post_tables row_append accepts_def claim_row_def)
  moreover have "t_id ?t = at_txn_id ev" "t_request_hash ?t = request_hash C intent"
    by (simp_all add: claim_row_def)
  ultimately show ?thesis
    using transactions_get_spec(2) [of ?d "at_txn_id ev" ?t] assms(4) by (auto simp: backed_def)
qed

lemma execute_once_backed:
  assumes "honest ev" and "constraints d" and "constraints (at_race ev d)"
    and "money_ok C (intent_amount intent)"
    and "execute_once C ev key intent d = (Ok res, d')"
  shows "backed C key intent res d'"
proof -
  have run: "execute_once C (calm ev) key intent d = (Ok res, d')"
    using execute_once_faulty [OF assms(1,5)] by auto
  show ?thesis
  proof (cases "key_row d key")
    case (Some t)
    then show ?thesis
      using run replay_backed [OF assms(2) Some, of ev intent res]
      by (auto simp: execute_once_def find_by_idempotency_key_def Let_def)
  next
    case None
    let ?d = "at_race ev d"
    have new: "from_account_id intent \<noteq> to_account_id intent" "0 < intent_units C intent"
      and tx: "execute_tx C (calm ev) key intent (request_hash C intent) ?d = (Ok res, d')"
      using run None units_val(4) [OF assms(4)]
      by (auto simp: execute_once_def find_by_idempotency_key_def Let_def split: if_splits)
    show ?thesis
    proof (cases "key_row ?d key")
      case (Some t)
      then show ?thesis
        using tx replay_backed [OF assms(3) Some, of ev intent res]
        unfolding execute_tx_calm [OF assms(3,4) new(2,1)] by (auto split: if_splits)
    next
      case None
      then have "accepts C ev key intent ?d" "d' = apply_writes (post_writes C ev key intent ?d) ?d"
        "transactions_get C NoFault NoFault (at_txn_id ev) d' = Ok (res_detail res)"
        using tx new unfolding execute_tx_calm [OF assms(3,4) new(2,1)]
        by (auto simp: accepts_def Let_def result_simps split: if_splits option.splits)
      then show ?thesis
        using created_backed [OF assms(3,4)] by simp
    qed
  qed
qed

lemma execute_once_not_Panic:
  assumes "honest ev" and "constraints d" and "constraints (at_race ev d)"
    and "money_ok C (intent_amount intent)"
  shows "fst (execute_once C ev key intent d) \<noteq> Panic"
proof
  assume panic: "fst (execute_once C ev key intent d) = Panic"
  obtain r d' where run: "execute_once C ev key intent d = (r, d')"
    by fastforce
  with panic have "execute_once C (calm ev) key intent d = (Panic, d')"
    using execute_once_faulty [OF assms(1) run] by auto
  then have "fst (transfer_spec C ev key intent d) = Panic"
    using execute_once_refines [OF assms(2-4), of key] by (metis fst_conv map_prod_simp summary.simps(3))
  then show False
    by (auto simp: transfer_spec_def replay_spec_def Let_def split: option.splits if_splits)
qed

end

section \<open>The retry loop\<close>

text \<open>The environments of successive attempts: each starts its database transaction after the last.\<close>

definition attempts_ok :: "(nat \<Rightarrow> attempt) \<Rightarrow> bool" where
  "attempts_ok evs \<longleftrightarrow>
     (\<forall>n. honest (evs n) \<and> fair_race (evs n) \<and> at_xid (evs n) < at_xid (evs (Suc n)))"

definition alone :: "(nat \<Rightarrow> attempt) \<Rightarrow> bool" where
  "alone evs \<longleftrightarrow> (\<forall>n d. at_race (evs n) d = d)"

text \<open>The loop goes on only after a conflict, so its last attempt decides.\<close>

definition retries :: "(ledger_error, 'a) result \<Rightarrow> nat \<Rightarrow> bool" where
  "retries r n \<longleftrightarrow>
     (\<exists>err. r = Err (Database err) \<and> is_retryable_conflict err) \<and> n < MAX_CONFLICT_RETRIES"

lemma execute_from_stop:
  "execute_once C (evs n) key intent d = (r, e) \<Longrightarrow> \<not> retries r n \<Longrightarrow>
     execute_from C evs key intent n d = (r, e)"
  by (subst execute_from.simps) (auto simp: retries_def split: result.split ledger_error.split)

lemma execute_from_again:
  "execute_once C (evs n) key intent d = (r, e) \<Longrightarrow> retries r n \<Longrightarrow>
     execute_from C evs key intent n d = execute_from C evs key intent (Suc n) e"
  by (subst execute_from.simps) (auto simp: retries_def)

lemma execute_from_cong:
  assumes "\<And>k. k \<le> MAX_CONFLICT_RETRIES \<Longrightarrow> evs k = evs' k"
  shows "n \<le> MAX_CONFLICT_RETRIES \<Longrightarrow>
    execute_from C evs key intent n d = execute_from C evs' key intent n d"
proof (induction "MAX_CONFLICT_RETRIES - n" arbitrary: n d rule: less_induct)
  case less
  obtain r e where once: "execute_once C (evs n) key intent d = (r, e)"
    by fastforce
  then have once': "execute_once C (evs' n) key intent d = (r, e)"
    using assms [OF less.prems] by simp
  show ?case
  proof (cases "retries r n")
    case True
    then show ?thesis
      unfolding execute_from_again [of C evs, OF once True] execute_from_again [of C evs', OF once' True]
      by (intro less.hyps) (auto simp: retries_def)
  next
    case False
    then show ?thesis
      using execute_from_stop [of C evs, OF once] execute_from_stop [of C evs', OF once'] by simp
  qed
qed

context crate_contracts
begin

lemma execute_from_sound:
  assumes "attempts_ok evs" and "money_ok C (intent_amount intent)"
  shows "ledger_inv (at_xid (evs n)) d \<Longrightarrow> n \<le> MAX_CONFLICT_RETRIES \<Longrightarrow>
    execute_from C evs key intent n d = (r, d') \<Longrightarrow>
    (\<exists>k \<le> MAX_CONFLICT_RETRIES. ledger_inv (Suc (at_xid (evs k))) d') \<and> grows d d' \<and> r \<noteq> Panic \<and> (\<forall>res. r = Ok res \<longrightarrow> backed C key intent res d')"
proof (induction "MAX_CONFLICT_RETRIES - n" arbitrary: n d rule: less_induct)
  case less
  have ev: "honest (evs n)" "fair_race (evs n)" "Suc (at_xid (evs n)) \<le> at_xid (evs (Suc n))"
    using assms(1) by (simp_all add: attempts_ok_def Suc_leI)
  have cons: "constraints d" "constraints (at_race (evs n) d)"
    using ev(2) less.prems(1) ledger_inv_constraints by (auto simp: fair_race_def)
  obtain q e where once: "execute_once C (evs n) key intent d = (q, e)"
    by fastforce
  have keeps: "ledger_inv (Suc (at_xid (evs n))) e" "grows d e"
    using execute_once_keeps [OF ev(1,2) less.prems(1) assms(2) once] by simp_all
  show ?case
  proof (cases "retries q n")
    case True
    then have rest: "execute_from C evs key intent (Suc n) e = (r, d')"
      using less.prems(3) execute_from_again [of C evs, OF once] by simp
    have "MAX_CONFLICT_RETRIES - Suc n < MAX_CONFLICT_RETRIES - n" "Suc n \<le> MAX_CONFLICT_RETRIES"
      using True by (auto simp: retries_def)
    from less.hyps [OF this(1) ledger_inv_mono [OF keeps(1) ev(3)] this(2) rest] show ?thesis
      using keeps(2) grows_trans by blast
  next
    case False
    then have "q = r" "e = d'"
      using less.prems(3) execute_from_stop [of C evs, OF once] by simp_all
    then show ?thesis
      using keeps less.prems(2) execute_once_backed [OF ev(1) cons assms(2)]
        execute_once_not_Panic [OF ev(1) cons assms(2), of key] once
      by (metis fst_conv)
  qed
qed

text \<open>With no other session: the whole loop posts once or not at all.\<close>

lemma execute_from_once:
  assumes "attempts_ok evs" and "alone evs" and "money_ok C (intent_amount intent)"
  shows "ledger_inv (at_xid (evs n)) d \<Longrightarrow> n \<le> MAX_CONFLICT_RETRIES \<Longrightarrow>
    execute_from C evs key intent n d = (r, d') \<Longrightarrow>
    d' = d \<or> (\<exists>k \<le> MAX_CONFLICT_RETRIES. accepts C (evs k) key intent d \<and>
      d' = apply_writes (post_writes C (evs k) key intent d) d)"
proof (induction "MAX_CONFLICT_RETRIES - n" arbitrary: n d rule: less_induct)
  case less
  have ev: "honest (evs n)" "fair_race (evs n)" "Suc (at_xid (evs n)) \<le> at_xid (evs (Suc n))"
    and race: "at_race (evs n) d = d"
    using assms(1,2) by (simp_all add: attempts_ok_def alone_def Suc_leI)
  obtain q e where once: "execute_once C (evs n) key intent d = (q, e)"
    by fastforce
  have effect: "e = d \<or> accepts C (evs n) key intent d \<and>
      e = apply_writes (post_writes C (evs n) key intent d) d"
    using execute_once_effect [OF ev(1,2) less.prems(1) assms(3) once] by (simp add: race)
  show ?case
  proof (cases "retries q n")
    case False
    then have "e = d'"
      using less.prems(3) execute_from_stop [of C evs, OF once] by simp
    then show ?thesis
      using effect less.prems(2) by auto
  next
    case True
    then have rest: "execute_from C evs key intent (Suc n) e = (r, d')"
      using less.prems(3) execute_from_again [of C evs, OF once] by simp
    have inv: "ledger_inv (at_xid (evs (Suc n))) e"
      using ledger_inv_mono [OF _ ev(3)] execute_once_keeps [OF ev(1,2) less.prems(1) assms(3) once]
      by blast
    have again: "d' = e \<or> (\<exists>k \<le> MAX_CONFLICT_RETRIES. accepts C (evs k) key intent e \<and>
        d' = apply_writes (post_writes C (evs k) key intent e) e)"
      by (rule less.hyps [OF _ inv _ rest]) (use True in \<open>auto simp: retries_def\<close>)
    show ?thesis
    proof (cases "e = d")
      case True
      with again show ?thesis by simp
    next
      case False
      then have posted: "e = apply_writes (post_writes C (evs n) key intent d) d"
        using effect by simp
      then have "key_row e key \<noteq> None"
        by (auto simp: key_row_def post_tables row_append claim_row_def split: option.split)
      then have "d' = e"
        using again by (auto simp: accepts_def)
      then show ?thesis
        using effect False less.prems(2) by auto
    qed
  qed
qed

end

end
