(* ===== verification/Transfer_Guarantees.thy ===== *)
theory Transfer_Guarantees
  imports Transfer_Correctness
begin

text \<open>
  The guarantees of \<open>POST /transfers\<close> as theorems about \<open>execute\<close>, each with a concrete run: what it
  computes, that it is atomic and keeps the books, that a key moves money once, that a repeated
  request is answered from the record, and what it refuses.
\<close>

section \<open>Facts the theorems share\<close>

lemma not_retryable:
  "\<not> is_retryable_conflict invalid_text" "\<not> is_retryable_conflict (unique_violation c)"
  "\<not> is_retryable_conflict numeric_overflow"
  by (simp_all add: is_retryable_conflict_def invalid_text_def unique_violation_def
      numeric_overflow_def pg_error_def sqlstate_defs)

lemma transfer_spec_final: "\<not> retries (fst (transfer_spec C ev key intent d)) n"
proof -
  have "intent_check C intent e = Some (Database err) \<Longrightarrow> err = numeric_overflow" for e err
    by (auto simp: intent_check_def transfer_check_def split: option.splits if_splits)
  then show ?thesis
    using not_retryable
    by (fastforce simp: retries_def transfer_spec_def replay_spec_def Let_def
        split: option.splits if_splits)
qed

lemma summary_retries: "retries (summary r) n \<longleftrightarrow> retries r n"
  by (cases r) (simp_all add: retries_def)

definition no_fault :: "attempt \<Rightarrow> bool" where
  "no_fault ev \<longleftrightarrow> at_fault ev = (\<lambda>_. NoFault)"

lemma no_fault_calm: "no_fault ev \<Longrightarrow> calm ev = ev"
  by (simp add: no_fault_def calm_def)

context crate_contracts
begin

lemma execute_from_calm:
  assumes "no_fault (evs n)" and "constraints d" and "constraints (at_race (evs n) d)"
    and "money_ok C (intent_amount intent)"
  shows "map_prod summary id (execute_from C evs key intent n d) = transfer_spec C (evs n) key intent d"
proof -
  obtain r e where once: "execute_once C (evs n) key intent d = (r, e)"
    by fastforce
  have spec: "map_prod summary id (r, e) = transfer_spec C (evs n) key intent d"
    using execute_once_refines [OF assms(2-4), of key] no_fault_calm [OF assms(1)] once by simp
  then have "\<not> retries r n"
    using transfer_spec_final summary_retries by (metis fst_conv fst_map_prod)
  then show ?thesis
    using execute_from_stop [of C evs, OF once] spec by simp
qed

end

text \<open>The recorded request, seen from any later state.\<close>

lemma replay_later:
  assumes "ledger_inv y d1" and "backed C key intent res d1" and "grows d1 d2" and "no_fault ev"
  shows "execute_once C ev key intent d2 = (Ok \<lparr>res_outcome = Replayed, res_detail = res_detail res\<rparr>, d2)"
  using backed_grows [OF assms(1-3)] assms(4)
  by (auto simp: backed_def execute_once_def find_by_idempotency_key_def no_fault_def replay_def Let_def)

text \<open>Protected accounts cannot be negative, and all balances sum to zero.\<close>

lemma all_protected_zero:
  assumes "ledger_inv x d" and "\<forall>a \<in> set (accounts d). \<not> a_allows_negative_balance a"
  shows "\<forall>a \<in> set (accounts d). a_balance a = 0"
proof -
  have "\<forall>b \<in> set (map a_balance (accounts d)). 0 \<le> b"
    using ledger_inv_constraints [OF assms(1)] assms(2)
    by (auto simp: constraints_def account_ok_def accounts_check_def split: if_splits)
  then show ?thesis
    using balances_sum_zero [OF assms(1)] sum_list_nonneg_eq_0_iff [of "map a_balance (accounts d)"]
    by auto
qed

lemma not_accepts_protected:
  assumes "\<forall>a \<in> set (accounts d). a_balance a = 0"
    and "\<forall>a \<in> set (accounts d). \<not> a_allows_negative_balance a"
  shows "\<not> accepts C ev key intent d"
proof
  assume acc: "accepts C ev key intent d"
  then have "intent_check C intent d = None"
    by (simp add: accepts_def)
  then obtain f where "account_row d (from_account_id intent) = Some f"
    "a_allows_negative_balance f \<or> intent_units C intent \<le> a_balance f"
    by (rule intent_check_NoneE)
  moreover from this(1) have "f \<in> set (accounts d)"
    using row_Some unfolding account_row_def by metis
  ultimately show False
    using assms acc by (auto simp: accepts_def)
qed

text \<open>Which errors the parts of a transfer can end in.\<close>

lemma transactions_get_not_Validation [simp]: "transactions_get C f1 f2 i d \<noteq> Err (Validation m)"
proof -
  have "collect rs \<noteq> Err e" if "Err e \<notin> set rs" for rs :: "(ledger_error, 'b) result list" and e
    using that by (induction rs) (auto simp: result_simps)
  moreover have "entry_try_from C r \<noteq> Err (Validation m)" for r
    by (auto simp: entry_try_from_def result_simps)
  ultimately have "collect (map (entry_try_from C) rs) \<noteq> Err (Validation m)" for rs
    by (metis (no_types, lifting) imageE list.set_map)
  then show ?thesis
    by (auto simp: transactions_get_def result_simps)
qed

lemma lost_race_not_Validation:
  "key_row d key \<noteq> None \<Longrightarrow> lost_race C ev key h d \<noteq> Err (Validation m)"
  by (auto simp: lost_race_def replay_def find_by_idempotency_key_def result_simps split: if_splits)

lemma lock_accounts_not_Validation [simp]: "lock_accounts C ev ids d locked \<noteq> Err (Validation m)"
proof (induction ids arbitrary: locked)
  case (Cons cid ids)
  then show ?case
    by (cases cid) (auto simp: fetch_for_update_def result_simps)
qed simp

lemma transfer_body_not_Validation [simp]: "transfer_body C ev intent t \<noteq> Err (Validation m)"
proof -
  have curs: "check_currencies as cur \<noteq> Err (Validation m)" for as :: "'a AccountRow list" and cur
    by (induction as cur rule: check_currencies.induct) auto
  have adj: "adjust_balance C f i x t \<noteq> Err (Validation m)" for f i x t
    by (auto simp: adjust_balance_def adjust_error_def result_simps split: if_splits)
  have ins: "insert_entry C ev f e i a dir x cur t \<noteq> Err (Validation m)" for f e i a dir x cur t
    by (auto simp: insert_entry_def result_simps)
  show ?thesis
    unfolding transfer_body_def Let_def
    by (auto simp: result_simps curs adj ins simp del: sort_key_simps check_currencies.simps)
qed

lemma claim_collision_has_winner:
  assumes "honest ev" and "claim_key ev key h descr \<lparr>tx_base = d, tx_log = []\<rparr> = Err err"
    and "is_idempotency_key_collision err"
  shows "key_row d key \<noteq> None"
proof (cases "fault_error (at_fault ev ClaimKey)")
  case None
  then have "sql_insert_transaction (at_xid ev) (at_now ev) (at_txn_id ev) key h descr d = Err err"
    using assms(2) by (auto simp: claim_key_def tx_exec_def db_call_def tx_view_def result_simps)
  then have "key_row d key = None \<Longrightarrow> err = invalid_text \<or> (\<exists>c. err = check_violation c) \<or>
      err = unique_violation ''transactions_pkey''"
    by (auto simp: sql_insert_transaction_def insert_transactions_row_def split: if_splits option.splits)
  moreover have "\<not> is_idempotency_key_collision (check_violation c)" for c
    by (simp add: is_idempotency_key_collision_def check_violation_def pg_error_def sqlstate_defs)
  ultimately show ?thesis
    using assms(3) ref.claim_errors by auto
qed (use assms in \<open>auto simp: claim_key_def tx_exec_def db_call_def honest_def\<close>)

lemma execute_tx_not_Validation:
  assumes "honest ev"
  shows "fst (execute_tx C ev key intent h d) \<noteq> Err (Validation m)"
proof (cases "claim_key ev key h (intent_description intent) \<lparr>tx_base = d, tx_log = []\<rparr>")
  case (Err err)
  then show ?thesis
    using claim_collision_has_winner [OF assms Err] lost_race_not_Validation [of d key C ev h m]
    by (auto simp: execute_tx_def)
qed (auto simp: execute_tx_def commit_error_def result_simps split: result.split prod.split)

lemma execute_once_not_Validation:
  assumes "honest ev"
  shows "fst (execute_once C ev key intent d) \<noteq> Err (Validation m)"
  unfolding execute_once_def
  by (auto simp: execute_tx_not_Validation [OF assms] Let_def replay_def find_by_idempotency_key_def result_simps
      split: result.split option.split)

lemma execute_from_not_Validation:
  assumes "\<And>n. honest (evs n)"
  shows "fst (execute_from C evs key intent n d) \<noteq> Err (Validation m)"
proof (induction "MAX_CONFLICT_RETRIES - n" arbitrary: n d rule: less_induct)
  case less
  obtain r e where once: "execute_once C (evs n) key intent d = (r, e)"
    by fastforce
  show ?case
  proof (cases "retries r n")
    case True
    then show ?thesis
      unfolding execute_from_again [of C evs, OF once True]
      by (intro less.hyps) (auto simp: retries_def)
  next
    case False
    then show ?thesis
      using execute_from_stop [of C evs, OF once False] once
        execute_once_not_Validation [OF assms, of C n key intent d m] by simp
  qed
qed

section \<open>A concrete environment\<close>

definition sample_ev :: "(call \<Rightarrow> fault) \<Rightarrow> nat \<Rightarrow> attempt" where
  "sample_ev f n =
     \<lparr>at_now = 0, at_xid = 8 + n, at_txn_id = 20 + of_nat n, at_credit_id = 30 + of_nat n,
      at_debit_id = 40 + of_nat n, at_fault = f, at_race = id\<rparr>"

definition sample_transfer :: "rdec transfer_intent" where
  "sample_transfer = sample_intent (RDec 3 8) []"

lemma sample_transfer_ok: "money_ok ref_crates (intent_amount sample_transfer)"
  by (simp add: sample_transfer_def sample_intent_def money_ok_def dval_ref MAX_SCALE_def)

lemma sample_transfer_units: "intent_units ref_crates sample_transfer = 3"
  by (simp add: intent_units_def sample_transfer_def sample_intent_def dval_ref units_def)

lemma sample_transfer_simps:
  "from_account_id sample_transfer = 1" "to_account_id sample_transfer = 2"
  "intent_description sample_transfer = []"
  "m_currency (intent_amount sample_transfer) = Currency (lit ''EUR'')"
  by (simp_all add: sample_transfer_def sample_intent_def)

lemma sample_constraints: "constraints sample_ledger"
  using sample_ledger_inv by (rule ledger_inv_constraints)

lemma sample_rows:
  "account_row sample_ledger 1 = Some ((sample_account 1 True)\<lparr>a_balance := - 5\<rparr>)"
  "account_row sample_ledger 2 = Some ((sample_account 2 False)\<lparr>a_balance := 5\<rparr>)"
  "key_row sample_ledger (lit ''new'') = None" "key_row sample_ledger (lit ''k'') = Some (sample_transaction 3 7)"
  "transaction_row sample_ledger 20 = None" "row e_id (entries sample_ledger) 30 = None"
  "row e_id (entries sample_ledger) 40 = None"
  by (simp_all add: account_row_def key_row_def transaction_row_def row_def sample_ledger_def
      sample_books_def sample_account_def sample_transaction_def sample_entries_row_def)

lemma sample_fault_simps:
  "at_race (sample_ev f n) d = d" "at_xid (sample_ev f n) = 8 + n" "at_fault (sample_ev f n) = f"
  "at_txn_id (sample_ev f 0) = 20" "at_credit_id (sample_ev f 0) = 30" "at_debit_id (sample_ev f 0) = 40"
  by (simp_all add: sample_ev_def)

lemma sample_accepts: "accepts ref_crates (sample_ev f 0) (lit ''new'') sample_transfer sample_ledger"
  by (simp add: accepts_def sample_rows sample_transfer_simps sample_transfer_units sample_fault_simps
      intent_check_def transfer_check_def fresh_entry_ids_def sample_account_def)

lemma sample_attempts:
  assumes "\<And>e. fault_error (f ClaimKey) = Some e \<Longrightarrow> \<not> is_idempotency_key_collision e"
  shows "attempts_ok (sample_ev f)" and "alone (sample_ev f)"
  using assms by (simp_all add: attempts_ok_def alone_def fair_race_def honest_def sample_fault_simps)

lemma sample_text_ok: "text_ok (lit ''new'')" "text_ok []"
  by (simp_all add: text_ok_def lit_def)

lemma sample_spec:
  "transfer_spec ref_crates (sample_ev f 0) (lit ''new'') sample_transfer sample_ledger =
     (Ok (Created, 20), apply_writes (post_writes ref_crates (sample_ev f 0) (lit ''new'')
        sample_transfer sample_ledger) sample_ledger)"
  using sample_accepts [of f]
  by (simp add: transfer_spec_def accepts_def sample_fault_simps sample_transfer_simps sample_text_ok)

lemma sample_run:
  "\<exists>res d'. res_outcome res = Created \<and>
     execute ref_crates (sample_ev (\<lambda>_. NoFault)) (lit ''new'') sample_transfer sample_ledger = (Ok res, d')"
proof -
  obtain r d' where run: "execute ref_crates (sample_ev (\<lambda>_. NoFault)) (lit ''new'') sample_transfer sample_ledger = (r, d')"
    by fastforce
  then have "summary r = Ok (Created, 20)"
    using ref.execute_from_calm [of "sample_ev (\<lambda>_. NoFault)" 0 sample_ledger sample_transfer "lit ''new''"]
    by (simp add: execute_def sample_spec no_fault_def sample_fault_simps sample_constraints
        sample_transfer_ok)
  then show ?thesis
    using run by (cases r) auto
qed

lemma byte_256: "(256 :: byte) = 0"
  by code_simp

lemma mix_bytes_byte: "(of_nat (mix_bytes bs) :: byte) = sum_list (map (\<lambda>b. b + 1) bs)"
proof (induction bs rule: rev_induct)
  case Nil
  show ?case by (simp add: mix_bytes_def)
next
  case (snoc b bs)
  have wrap: "(of_nat (n mod 2 ^ 256) :: byte) = of_nat n" for n
  proof -
    have "n mod 2 ^ 256 mod 2 ^ 8 = n mod (2 :: nat) ^ 8"
      by (rule mod_mod_cancel) (simp add: le_imp_power_dvd)
    then show ?thesis
      by (simp add: word_of_nat_eq_iff take_bit_eq_mod)
  qed
  have "(of_nat (mix_bytes (bs @ [b])) :: byte) = of_nat (mix_bytes bs * 257 + unat b + 1)"
    by (simp only: mix_bytes_def foldl_append foldl.simps wrap)
  moreover have "(256 :: byte) * w = 0" for w
    by (simp only: byte_256 mult_zero_left)
  ultimately have "(of_nat (mix_bytes (bs @ [b])) :: byte) = of_nat (mix_bytes bs) + b + 1"
    by simp
  then show ?case
    using snoc by simp
qed

lemma mix256_last: "last (mix256 bs) = sum_list (map (\<lambda>b. b + 1) bs)"
  by (simp add: mix256_def Let_def mix_bytes_byte last_map last_rev)


lemma sample_canonical: "canonical ref_crates \<lparr>m_amount = RDec n 0, m_currency = Currency c\<rparr> =
   rd_to_string (RDec n 0) @ lit '' '' @ c" 
  by (simp add: canonical_def currency_to_string_def rd_normalize_def)

lemma sample_hashes_differ:
  "mix256 (request_payload ref_crates (sample_intent (RDec 3 0) [])) \<noteq>
   mix256 (request_payload ref_crates (sample_intent (RDec 4 0) []))"
proof
  assume "mix256 (request_payload ref_crates (sample_intent (RDec 3 0) [])) =
    mix256 (request_payload ref_crates (sample_intent (RDec 4 0) []))"
  then have "sum_list (map (\<lambda>b. b + 1) (request_payload ref_crates (sample_intent (RDec 3 0) []))) =
    sum_list (map (\<lambda>b. b + 1) (request_payload ref_crates (sample_intent (RDec 4 0) [])))"
    by (metis mix256_last)
  moreover have "utf8 (rd_to_string (RDec 3 0)) = [51]" "utf8 (rd_to_string (RDec 4 0)) = [52]"
    by (simp_all add: rd_to_string_def nat_digits.simps utf8_def utf8_nats_def)
  ultimately show False
    by (simp add: request_payload_def sample_intent_def sample_canonical)
qed

section \<open>Properties\<close>

text \<open>
  C1: when no call to the database fails, \<open>execute\<close> computes exactly the specified transfer: the
  same refusal for every request that must be refused, with the ledger unchanged, and otherwise the
  five writes of one transaction, whatever other sessions commit before the key is claimed.
\<close>

theorem execute_refines_spec:
  assumes "crate_contracts C" and "no_fault (evs 0)" and "constraints d"
    and "constraints (at_race (evs 0) d)" and "money_ok C (intent_amount intent)"
  shows "map_prod summary id (execute C evs key intent d) = transfer_spec C (evs 0) key intent d"
  unfolding execute_def
  using crate_contracts.execute_from_calm [OF assms(1), of evs 0 d intent key] assms(2-5) by simp

theorem execute_refines_spec_witness:
  "map_prod summary id (execute ref_crates (sample_ev (\<lambda>_. NoFault)) (lit ''new'') sample_transfer sample_ledger) =
     (Ok (Created, 20), apply_writes (post_writes ref_crates (sample_ev (\<lambda>_. NoFault) 0) (lit ''new'')
        sample_transfer sample_ledger) sample_ledger)"
  using execute_refines_spec [OF ref.crate_contracts_axioms, of "sample_ev (\<lambda>_. NoFault)" sample_ledger
      sample_transfer "lit ''new''"]
  by (simp add: no_fault_def sample_fault_simps sample_constraints sample_transfer_ok sample_spec)

text \<open>
  Whatever calls fail or lose their reply, and whatever other sessions commit in between, a
  transfer keeps the books: double entry, no empty transaction, balances equal to the postings, no
  protected account below zero, and a history that is only appended to. It never panics.
\<close>

lemma execute_keeps_ledger:
  assumes "crate_contracts C" and "attempts_ok evs" and "money_ok C (intent_amount intent)"
    and "ledger_inv (at_xid (evs 0)) d" and "execute C evs key intent d = (r, d')"
  shows "(\<exists>y. ledger_inv y d') \<and> extends d d' \<and> sweep_passes d' \<and> r \<noteq> Panic"
  using crate_contracts.execute_from_sound [OF assms(1-4), of key r d'] assms(5) ledger_inv_sweep
  by (auto simp: execute_def grows_def)

lemma execute_keeps_ledger_example:
  "\<exists>r d'. execute ref_crates (sample_ev (\<lambda>c. if c = Commit then LostReply (SqlxOther []) else NoFault))
       (lit ''new'') sample_transfer sample_ledger = (r, d') \<and> sweep_passes d' \<and> r \<noteq> Panic"
proof -
  let ?f = "\<lambda>c. if c = Commit then LostReply (SqlxOther []) else NoFault"
  obtain r d' where run: "execute ref_crates (sample_ev ?f) (lit ''new'') sample_transfer sample_ledger = (r, d')"
    by fastforce
  have "attempts_ok (sample_ev ?f)"
    by (rule sample_attempts) simp
  with run show ?thesis
    using execute_keeps_ledger [OF ref.crate_contracts_axioms _ sample_transfer_ok _ run]
      sample_ledger_inv by (auto simp: sample_fault_simps)
qed

text \<open>
  C3: exactly once. With any failures in any of the attempts, including a commit that took effect
  but whose reply was lost, the whole call leaves the ledger as it was or with exactly one posting
  of the requested transfer under the key, and a success means the posting is there.
\<close>

theorem execute_exactly_once:
  assumes "crate_contracts C" and "attempts_ok evs" and "alone evs"
    and "money_ok C (intent_amount intent)" and "ledger_inv (at_xid (evs 0)) d"
    and "execute C evs key intent d = (r, d')"
  shows "(d' = d \<or> (\<exists>n \<le> MAX_CONFLICT_RETRIES. accepts C (evs n) key intent d \<and>
      d' = apply_writes (post_writes C (evs n) key intent d) d)) \<and>
    (\<forall>res. r = Ok res \<longrightarrow> backed C key intent res d')"
  using crate_contracts.execute_from_once [OF assms(1-5), of key r d']
    crate_contracts.execute_from_sound [OF assms(1,2,4,5), of key r d'] assms(6)
  by (auto simp: execute_def)

text \<open>The commit of every attempt reports a serialization failure although it took effect.\<close>

definition lost_commit :: "call \<Rightarrow> fault" where
  "lost_commit c = (if c = Commit then LostReply (SqlxDatabase (Some SERIALIZATION_FAILURE) None) else NoFault)"

theorem execute_exactly_once_witness:
  "\<exists>r d'. execute ref_crates (sample_ev lost_commit) (lit ''new'') sample_transfer sample_ledger = (r, d') \<and>
     (d' = sample_ledger \<or> (\<exists>n \<le> MAX_CONFLICT_RETRIES. d' = apply_writes
        (post_writes ref_crates (sample_ev lost_commit n) (lit ''new'') sample_transfer sample_ledger) sample_ledger))"
proof -
  obtain r d' where run: "execute ref_crates (sample_ev lost_commit) (lit ''new'') sample_transfer sample_ledger = (r, d')"
    by fastforce
  have "attempts_ok (sample_ev lost_commit)" "alone (sample_ev lost_commit)"
    by (rule sample_attempts; simp add: lost_commit_def)+
  with run show ?thesis
    using execute_exactly_once [OF ref.crate_contracts_axioms _ _ sample_transfer_ok _ run]
      sample_ledger_inv by (auto simp: sample_fault_simps)
qed

text \<open>
  C17: a success can be repeated. Once a call has returned a result for a key, the same request under
  that key returns the very same transaction, marked as replayed, and changes nothing, however far
  the ledger has grown since.
\<close>

theorem replay_after_success:
  assumes "crate_contracts C" and "attempts_ok evs" and "money_ok C (intent_amount intent)"
    and "ledger_inv (at_xid (evs 0)) d" and "execute C evs key intent d = (Ok res, d1)"
    and "grows d1 d2" and "no_fault (evs' 0)"
  shows "execute C evs' key intent d2 = (Ok \<lparr>res_outcome = Replayed, res_detail = res_detail res\<rparr>, d2)"
proof -
  obtain y where "ledger_inv y d1" "backed C key intent res d1"
    using crate_contracts.execute_from_sound [OF assms(1-4), of key "Ok res" d1] assms(5)
    by (auto simp: execute_def)
  then have "execute_once C (evs' 0) key intent d2 =
      (Ok \<lparr>res_outcome = Replayed, res_detail = res_detail res\<rparr>, d2)"
    using replay_later assms(6,7) by blast
  then show ?thesis
    unfolding execute_def by (rule execute_from_stop) (simp add: retries_def)
qed

theorem replay_after_success_witness:
  "\<exists>res d1. execute ref_crates (sample_ev (\<lambda>_. NoFault)) (lit ''new'') sample_transfer sample_ledger = (Ok res, d1) \<and>
     execute ref_crates (sample_ev (\<lambda>_. NoFault)) (lit ''new'') sample_transfer d1 =
       (Ok \<lparr>res_outcome = Replayed, res_detail = res_detail res\<rparr>, d1)"
proof -
  obtain res d1 where run:
    "execute ref_crates (sample_ev (\<lambda>_. NoFault)) (lit ''new'') sample_transfer sample_ledger = (Ok res, d1)"
    using sample_run by blast
  have "attempts_ok (sample_ev (\<lambda>_. NoFault))"
    by (rule sample_attempts) simp
  from replay_after_success [OF ref.crate_contracts_axioms this sample_transfer_ok _ run grows_refl]
  show ?thesis
    using run sample_ledger_inv by (auto simp: sample_fault_simps no_fault_def)
qed

text \<open>
  C18: a key is bound to its request. Using it for a different request is refused as a conflict with
  nothing written, unless SHA-256 collides on exactly these two requests.
\<close>

theorem different_request_conflicts:
  assumes "crate_contracts C" and "no_fault (evs 0)"
    and "key_row d key = Some t" and "t_request_hash t = request_hash C original"
    and "well_formed_intent C original" and "well_formed_intent C intent"
    and "\<not> same_request C original intent"
    and "sha256 C (request_payload C original) = sha256 C (request_payload C intent) \<Longrightarrow>
      request_payload C original = request_payload C intent"
  shows "execute C evs key intent d = (Err (IdempotencyKeyConflict key), d)"
proof -
  have "t_request_hash t \<noteq> request_hash C intent"
    using crate_contracts.request_payload_eq_iff [OF assms(1,5,6)] assms(4,7,8)
    by (auto simp: request_hash_def)
  then have "execute_once C (evs 0) key intent d = (Err (IdempotencyKeyConflict key), d)"
    using assms(2,3)
    by (simp add: execute_once_def find_by_idempotency_key_def no_fault_def replay_def Let_def)
  then show ?thesis
    unfolding execute_def by (rule execute_from_stop) (simp add: retries_def)
qed

definition first_request :: "rdec transfer_intent" where
  "first_request = sample_intent (RDec 3 0) []"

definition used_key_ledger :: db where
  "used_key_ledger = sample_ledger\<lparr>transactions :=
     [(sample_transaction 3 7)\<lparr>t_request_hash := request_hash ref_crates first_request\<rparr>]\<rparr>"

theorem different_request_conflicts_witness:
  "execute ref_crates (sample_ev (\<lambda>_. NoFault)) (lit ''k'') (sample_intent (RDec 4 0) []) used_key_ledger =
   (Err (IdempotencyKeyConflict (lit ''k'')), used_key_ledger)"
proof (rule different_request_conflicts [OF ref.crate_contracts_axioms])
  show "key_row used_key_ledger (lit ''k'') =
      Some ((sample_transaction 3 7)\<lparr>t_request_hash := request_hash ref_crates first_request\<rparr>)"
    by (simp add: key_row_def row_def used_key_ledger_def) (simp add: sample_transaction_def)
  have "lit ''EUR'' \<in> set ISO_4217"
    by (simp add: ISO_4217_def)
  then show "well_formed_intent ref_crates first_request"
    "well_formed_intent ref_crates (sample_intent (RDec 4 0) [])"
    by (simp_all add: well_formed_intent_def first_request_def sample_intent_def money_ok_def dval_ref
        MAX_SCALE_def)
  show "no_fault (sample_ev (\<lambda>_. NoFault) 0)"
    by (simp add: no_fault_def sample_fault_simps)
  show "\<not> same_request ref_crates first_request (sample_intent (RDec 4 0) [])"
    by (simp add: same_request_def first_request_def sample_intent_def dval_ref)
qed (use sample_hashes_differ in \<open>simp_all add: first_request_def\<close>)

text \<open>
  C16: what an executed transfer does to the balances: the sender loses exactly the requested amount,
  the receiver gains it, and no other account changes.
\<close>

theorem transfer_moves_money:
  assumes "crate_contracts C" and "no_fault (evs 0)" and "at_race (evs 0) d = d" and "constraints d"
    and "money_ok C (intent_amount intent)"
    and "execute C evs key intent d = (Ok res, d')" and "res_outcome res = Created"
  shows "account_row d' i = map_option (\<lambda>r. r\<lparr>a_balance := a_balance r +
      (if i = from_account_id intent then - intent_units C intent
       else if i = to_account_id intent then intent_units C intent else 0)\<rparr>) (account_row d i) \<and>
    of_int (intent_units C intent) / 10 ^ 8 = dval C (m_amount (intent_amount intent)) \<and>
    0 < intent_units C intent"
proof -
  have spec: "transfer_spec C (evs 0) key intent d = (Ok (Created, txn_id (td_transaction (res_detail res))), d')"
    using crate_contracts.execute_from_calm [OF assms(1), of evs 0 d intent key] assms
    by (simp add: execute_def)
  then have acc: "accepts C (evs 0) key intent d" "d' = apply_writes (post_writes C (evs 0) key intent d) d"
    using assms(3)
    by (auto simp: transfer_spec_def accepts_def replay_spec_def Let_def split: option.splits if_splits)
  then have "from_account_id intent \<noteq> to_account_id intent" "0 < intent_units C intent"
    by (simp_all add: accepts_def)
  then show ?thesis
    using post_account_row [of intent C "evs 0" key d i] acc(2)
      crate_contracts.units_val(1) [OF assms(1,5)] by simp
qed

theorem transfer_moves_money_witness:
  "\<exists>res d'. execute ref_crates (sample_ev (\<lambda>_. NoFault)) (lit ''new'') sample_transfer sample_ledger = (Ok res, d') \<and>
     map_option a_balance (account_row d' 1) = Some (- 8) \<and> map_option a_balance (account_row d' 2) = Some 8"
proof -
  obtain res d' where run: "res_outcome res = Created"
    "execute ref_crates (sample_ev (\<lambda>_. NoFault)) (lit ''new'') sample_transfer sample_ledger = (Ok res, d')"
    using sample_run by blast
  note moves = transfer_moves_money [OF ref.crate_contracts_axioms _ _ sample_constraints
      sample_transfer_ok run(2,1)]
  show ?thesis
    using run(2) moves [of 1] moves [of 2]
    by (simp add: no_fault_def sample_fault_simps sample_rows sample_transfer_simps
        sample_transfer_units sample_account_def)
qed

text \<open>
  C15: overdrafts are refused. A protected sender that has less than the amount gets
  \<open>InsufficientFunds\<close>, a 422, and the ledger is unchanged; and whatever fails or races, no transfer
  ever leaves a protected account below zero.
\<close>

theorem no_overdraft:
  assumes "crate_contracts C" and "attempts_ok evs" and "money_ok C (intent_amount intent)"
    and "ledger_inv (at_xid (evs 0)) d" and "execute C evs key intent d = (r, d')"
  shows "(\<forall>a \<in> set (accounts d'). \<not> a_allows_negative_balance a \<longrightarrow> 0 \<le> a_balance a) \<and>
    (no_fault (evs 0) \<and> at_race (evs 0) d = d \<and> key_row d key = None \<and>
     transaction_row d (at_txn_id (evs 0)) = None \<and>
     text_ok key \<and> text_ok (intent_description intent) \<and>
     from_account_id intent \<noteq> to_account_id intent \<and> 0 < intent_units C intent \<and>
     account_row d (from_account_id intent) = Some f \<and> account_row d (to_account_id intent) = Some t \<and>
     a_currency f = as_str (m_currency (intent_amount intent)) \<and>
     a_currency t = as_str (m_currency (intent_amount intent)) \<and>
     \<not> a_allows_negative_balance f \<and> a_balance f < intent_units C intent \<longrightarrow>
     r = Err (InsufficientFunds (from_account_id intent)) \<and> d' = d)"
proof (intro conjI impI)
  obtain y where "ledger_inv y d'"
    using crate_contracts.execute_from_sound [OF assms(1-4), of key r d'] assms(5)
    by (auto simp: execute_def)
  then show "\<forall>a \<in> set (accounts d'). \<not> a_allows_negative_balance a \<longrightarrow> 0 \<le> a_balance a"
    by (auto simp: ledger_inv_def schema_inv_def constraints_def account_ok_def accounts_check_def
        split: if_splits)
next
  assume refused: "no_fault (evs 0) \<and> at_race (evs 0) d = d \<and> key_row d key = None \<and>
     transaction_row d (at_txn_id (evs 0)) = None \<and>
     text_ok key \<and> text_ok (intent_description intent) \<and>
     from_account_id intent \<noteq> to_account_id intent \<and> 0 < intent_units C intent \<and>
     account_row d (from_account_id intent) = Some f \<and> account_row d (to_account_id intent) = Some t \<and>
     a_currency f = as_str (m_currency (intent_amount intent)) \<and>
     a_currency t = as_str (m_currency (intent_amount intent)) \<and>
     \<not> a_allows_negative_balance f \<and> a_balance f < intent_units C intent"
  then have "intent_check C intent d = Some (InsufficientFunds (from_account_id intent))"
    by (simp add: intent_check_def transfer_check_def)
  with refused have "transfer_spec C (evs 0) key intent d = (Err (InsufficientFunds (from_account_id intent)), d)"
    by (simp add: transfer_spec_def Let_def)
  then have "map_prod summary id (r, d') = (Err (InsufficientFunds (from_account_id intent)), d)"
    using crate_contracts.execute_from_calm [OF assms(1), of evs 0 d intent key] refused assms(3,5)
      ledger_inv_constraints [OF assms(4)] by (simp add: execute_def)
  then show "r = Err (InsufficientFunds (from_account_id intent))" "d' = d"
    by (cases r; simp)+
qed

definition back_transfer :: "rdec transfer_intent" where
  "back_transfer = (sample_intent (RDec 9 8) [])\<lparr>from_account_id := 2, to_account_id := 1\<rparr>"

lemma back_transfer_ok: "money_ok ref_crates (intent_amount back_transfer)"
  "intent_units ref_crates back_transfer = 9" "from_account_id back_transfer = 2"
  "to_account_id back_transfer = 1" "m_currency (intent_amount back_transfer) = Currency (lit ''EUR'')"
  "intent_description back_transfer = []"
  by (simp_all add: back_transfer_def sample_intent_def money_ok_def dval_ref MAX_SCALE_def
      intent_units_def units_def)

theorem no_overdraft_witness:
  "execute ref_crates (sample_ev (\<lambda>_. NoFault)) (lit ''new'') back_transfer sample_ledger =
     (Err (InsufficientFunds 2), sample_ledger)"
proof -
  obtain r d' where run: "execute ref_crates (sample_ev (\<lambda>_. NoFault)) (lit ''new'') back_transfer sample_ledger = (r, d')"
    by fastforce
  have "attempts_ok (sample_ev (\<lambda>_. NoFault))"
    by (rule sample_attempts) simp
  from no_overdraft [OF ref.crate_contracts_axioms this back_transfer_ok(1) _ run,
      of "(sample_account 2 False)\<lparr>a_balance := 5\<rparr>" "(sample_account 1 True)\<lparr>a_balance := - 5\<rparr>"]
  show ?thesis
    using run sample_ledger_inv
    by (simp add: sample_fault_simps no_fault_def sample_rows back_transfer_ok sample_account_def
        sample_text_ok)
qed

text \<open>
  Money enters only through funding accounts. If every account is protected, all balances are
  zero and every transfer, under any failures, leaves the ledger as it is.
\<close>

lemma no_money_from_nothing:
  assumes "crate_contracts C" and "attempts_ok evs" and "alone evs"
    and "money_ok C (intent_amount intent)" and "ledger_inv (at_xid (evs 0)) d"
    and "\<forall>a \<in> set (accounts d). \<not> a_allows_negative_balance a"
    and "execute C evs key intent d = (r, d')"
  shows "(\<forall>a \<in> set (accounts d). a_balance a = 0) \<and> d' = d"
proof -
  have zero: "\<forall>a \<in> set (accounts d). a_balance a = 0"
    using all_protected_zero [OF assms(5,6)] .
  have "\<not> accepts C (evs n) key intent d" for n
    using not_accepts_protected [OF zero assms(6)] .
  then show ?thesis
    using zero crate_contracts.execute_from_once [OF assms(1-5), of key r d'] assms(7)
    by (auto simp: execute_def)
qed

definition protected_ledger :: db where
  "protected_ledger =
     \<lparr>accounts = [sample_account 1 False, sample_account 2 False], transactions = [], entries = []\<rparr>"

lemma no_money_from_nothing_example:
  "\<exists>r. execute ref_crates (sample_ev lost_commit) (lit ''new'') sample_transfer protected_ledger =
     (r, protected_ledger)"
proof -
  obtain r d' where run: "execute ref_crates (sample_ev lost_commit) (lit ''new'') sample_transfer protected_ledger = (r, d')"
    by fastforce
  have "ledger_inv 8 protected_ledger"
    by (simp add: protected_ledger_def ledger_inv_def schema_inv_def constraints_def account_ok_def
        sample_account_def accounts_check_def lit_def currency_shape_def derived_balance_def net_of_def)
  moreover have "attempts_ok (sample_ev lost_commit)" "alone (sample_ev lost_commit)"
    by (rule sample_attempts; simp add: lost_commit_def)+
  ultimately show ?thesis
    using run no_money_from_nothing [OF ref.crate_contracts_axioms _ _ sample_transfer_ok _ _ run]
    by (auto simp: sample_fault_simps protected_ledger_def sample_account_def)
qed

text \<open>
  C39: a receiver whose balance would reach \<open>10 ^ 12\<close> makes a well-formed, funded transfer fail with
  an opaque internal error (500), because the overflow of the balance column is not among the
  database errors that are classified; the ledger is unchanged.
\<close>

theorem receiver_overflow_is_internal_error:
  assumes "crate_contracts C" and "no_fault (evs 0)" and "at_race (evs 0) d = d" and "constraints d"
    and "money_ok C (intent_amount intent)"
    and "from_account_id intent \<noteq> to_account_id intent \<and> 0 < intent_units C intent"
    and "key_row d key = None" and "transaction_row d (at_txn_id (evs 0)) = None"
    and "text_ok key" and "text_ok (intent_description intent)"
    and "account_row d (from_account_id intent) = Some f"
    and "account_row d (to_account_id intent) = Some t"
    and "a_currency f = as_str (m_currency (intent_amount intent))"
    and "a_currency t = as_str (m_currency (intent_amount intent))"
    and "a_allows_negative_balance f \<or> intent_units C intent \<le> a_balance f"
    and "10 ^ 20 \<le> a_balance t + intent_units C intent"
  shows "execute C evs key intent d = (Err (Database numeric_overflow), d) \<and>
    resp_status (error_into_response C (Database numeric_overflow)) = 500"
proof -
  have "intent_check C intent d = Some (Database numeric_overflow)"
    using assms(11-16) by (auto simp: intent_check_def transfer_check_def)
  then have "transfer_spec C (evs 0) key intent d = (Err (Database numeric_overflow), d)"
    using assms(3,6-10) by (simp add: transfer_spec_def)
  then have "map_prod summary id (execute C evs key intent d) = (Err (Database numeric_overflow), d)"
    using crate_contracts.execute_from_calm [OF assms(1), of evs 0 d intent key] assms(2-5)
    by (simp add: execute_def)
  then show ?thesis
    by (cases "execute C evs key intent d"; cases "fst (execute C evs key intent d)")
       (auto simp: error_into_response_def)
qed

definition huge_ledger :: db where
  "huge_ledger =
     \<lparr>accounts = [(sample_account 1 True)\<lparr>a_balance := - 99999999999999999999\<rparr>,
                  (sample_account 2 False)\<lparr>a_balance := 99999999999999999999\<rparr>],
      transactions = [sample_transaction 3 7],
      entries = [(sample_entries_row 4 3 1 Credit)\<lparr>e_amount := 99999999999999999999\<rparr>,
                 (sample_entries_row 5 3 2 Debit)\<lparr>e_amount := 99999999999999999999\<rparr>]\<rparr>"

theorem receiver_overflow_is_internal_error_witness:
  "ledger_inv 8 huge_ledger \<and>
   execute ref_crates (sample_ev (\<lambda>_. NoFault)) (lit ''new'') sample_transfer huge_ledger =
     (Err (Database numeric_overflow), huge_ledger)"
proof
  show inv: "ledger_inv 8 huge_ledger"
    by (simp add: huge_ledger_def ledger_inv_def schema_inv_def constraints_def
        account_ok_def entry_ok_def sample_account_def sample_transaction_def sample_entries_row_def
        accounts_check_def lit_def currency_shape_def account_row_def transaction_row_def row_def
        net_of_def e_signed_def assert_transaction_balanced_def entries_of_def derived_balance_def)
  have rows: "key_row huge_ledger (lit ''new'') = None" "transaction_row huge_ledger 20 = None"
    "account_row huge_ledger 1 = Some ((sample_account 1 True)\<lparr>a_balance := - 99999999999999999999\<rparr>)"
    "account_row huge_ledger 2 = Some ((sample_account 2 False)\<lparr>a_balance := 99999999999999999999\<rparr>)"
    by (simp_all add: account_row_def key_row_def transaction_row_def row_def huge_ledger_def
        sample_account_def sample_transaction_def)
  show "execute ref_crates (sample_ev (\<lambda>_. NoFault)) (lit ''new'') sample_transfer huge_ledger =
     (Err (Database numeric_overflow), huge_ledger)"
    using receiver_overflow_is_internal_error [OF ref.crate_contracts_axioms,
        of "sample_ev (\<lambda>_. NoFault)" huge_ledger sample_transfer "lit ''new''"]
      rows ledger_inv_constraints [OF inv]
    by (simp add: no_fault_def sample_fault_simps sample_transfer_ok sample_transfer_simps
        sample_transfer_units sample_text_ok sample_account_def)
qed

text \<open>
  The retry loop is bounded: a call makes at most \<open>MAX_CONFLICT_RETRIES + 1\<close> attempts, so its
  outcome depends on nothing the environment does beyond them.
\<close>

lemma bounded_attempts:
  assumes "\<And>n. n \<le> MAX_CONFLICT_RETRIES \<Longrightarrow> evs n = evs' n"
  shows "execute C evs key intent d = execute C evs' key intent d"
  unfolding execute_def by (rule execute_from_cong [OF assms]) simp_all

lemma bounded_attempts_example:
  "execute ref_crates (sample_ev lost_commit) (lit ''new'') sample_transfer sample_ledger =
   execute ref_crates (\<lambda>n. if n \<le> 3 then sample_ev lost_commit n else sample_ev (\<lambda>_. NoFault) n)
     (lit ''new'') sample_transfer sample_ledger"
  by (rule bounded_attempts) (simp add: MAX_CONFLICT_RETRIES_def)

text \<open>
  C34: transient conflicts are absorbed: when the first attempts, at most three, are aborted by the
  database with a serialization failure or a deadlock and the next one is not disturbed, the caller
  sees exactly the specified result of that attempt.
\<close>

theorem conflicts_absorbed:
  assumes "crate_contracts C" and "n \<le> MAX_CONFLICT_RETRIES" and "no_fault (evs n)"
    and "constraints d" and "constraints (at_race (evs n) d)" and "money_ok C (intent_amount intent)"
    and "\<And>k. k < n \<Longrightarrow> \<exists>err. is_retryable_conflict err \<and>
      execute_once C (evs k) key intent d = (Err (Database err), d)"
  shows "map_prod summary id (execute C evs key intent d) = transfer_spec C (evs n) key intent d"
proof -
  have "execute C evs key intent d = execute_from C evs key intent k d" if "k \<le> n" for k
    using that
  proof (induction k)
    case (Suc k)
    then obtain err where "is_retryable_conflict err"
      "execute_once C (evs k) key intent d = (Err (Database err), d)"
      using assms(7) [of k] by auto
    then have "execute_from C evs key intent k d = execute_from C evs key intent (Suc k) d"
      using Suc.prems assms(2) by (intro execute_from_again) (auto simp: retries_def)
    with Suc show ?case by simp
  qed (simp add: execute_def)
  from this [of n] show ?thesis
    using crate_contracts.execute_from_calm [OF assms(1), of evs n d intent key] assms(3-6) by simp
qed

definition two_conflicts :: "nat \<Rightarrow> attempt" where
  "two_conflicts n = sample_ev (\<lambda>c. if n < 2 \<and> c = Begin
     then Fails (SqlxDatabase (Some DEADLOCK_DETECTED) None) else NoFault) n"

theorem conflicts_absorbed_witness:
  "map_prod summary id (execute ref_crates two_conflicts (lit ''new'') sample_transfer sample_ledger) =
   transfer_spec ref_crates (two_conflicts 2) (lit ''new'') sample_transfer sample_ledger"
proof (rule conflicts_absorbed [OF ref.crate_contracts_axioms])
  fix k :: nat assume "k < 2"
  then have "execute_once ref_crates (two_conflicts k) (lit ''new'') sample_transfer sample_ledger =
      (Err (Database (SqlxDatabase (Some DEADLOCK_DETECTED) None)), sample_ledger)"
    using ref.units_val(4) [OF sample_transfer_ok]
    by (simp add: execute_once_def two_conflicts_def sample_fault_simps find_by_idempotency_key_def
        sample_rows sample_transfer_simps sample_transfer_units)
  then show "\<exists>err. is_retryable_conflict err \<and>
      execute_once ref_crates (two_conflicts k) (lit ''new'') sample_transfer sample_ledger =
      (Err (Database err), sample_ledger)"
    by (auto simp: is_retryable_conflict_def)
qed (simp_all add: MAX_CONFLICT_RETRIES_def no_fault_def two_conflicts_def sample_fault_simps
    sample_constraints sample_transfer_ok)

text \<open>
  The branch for a collision without a winner is unreachable: as long as the key is reported as
  taken only by its unique index, a transfer never ends in \<open>Validation\<close>, under any failures.
\<close>

lemma collision_always_has_winner:
  assumes "\<And>n. honest (evs n)"
  shows "fst (execute C evs key intent d) \<noteq> Err (Validation m)"
  unfolding execute_def by (rule execute_from_not_Validation [OF assms])

lemma collision_always_has_winner_example:
  "fst (execute ref_crates (sample_ev lost_commit) (lit ''new'') sample_transfer sample_ledger) \<noteq>
     Err (Validation collision_message)"
  by (rule collision_always_has_winner) (simp add: honest_def sample_fault_simps lost_commit_def)

end
