(* ===== verification/Http.thy ===== *)
theory Http
  imports Transfer_Guarantees Config
begin

text \<open>
  \<open>src/http/\<close>: the handlers, the extraction of the idempotency key, the health probes, the mapping of
  results and panics to responses, and the dispatch of a request to its handler. What the HTTP
  framework does before a handler runs is its input: a path parameter that parsed, a JSON body that
  deserialized (its amount a decimal, its currency a code of the table) or the text of the rejection.
  \<open>HeaderValue::to_str\<close> is a parameter with the contract \<open>header_contract\<close>.
\<close>

section \<open>The idempotency key\<close>

type_synonym headers = "(string \<times> byte list) list"

definition MAX_IDEMPOTENCY_KEY_LEN :: nat where
  "MAX_IDEMPOTENCY_KEY_LEN = 255"

definition MAX_DESCRIPTION_LEN :: nat where
  "MAX_DESCRIPTION_LEN = 512"

definition MAX_NAME_LEN :: nat where
  "MAX_NAME_LEN = 255"

definition extract_idempotency_key ::
  "(byte list \<Rightarrow> str option) \<Rightarrow> headers \<Rightarrow> (ledger_error, str) result" where
  "extract_idempotency_key to_str headers =
     and_then (ok_or (map_of headers ''idempotency-key'') MissingIdempotencyKey) (\<lambda>raw.
     and_then (ok_or (to_str raw) (Validation (lit ''Idempotency-Key must be valid UTF-8''))) (\<lambda>s.
     let key = trim s in
     if key = [] then Err MissingIdempotencyKey
     else if length (utf8 key) > MAX_IDEMPOTENCY_KEY_LEN
     then Err (Validation (lit ''Idempotency-Key must be at most '' @ nat_digits MAX_IDEMPOTENCY_KEY_LEN @
            lit '' bytes''))
     else Ok key))"

section \<open>Handlers\<close>

record app_state =
  st_allow_funding_account_creation :: bool

definition state_of_config :: "'a config \<Rightarrow> app_state" where
  "state_of_config c = \<lparr>st_allow_funding_account_creation = allow_funding_account_creation c\<rparr>"

record create_account_request =
  car_name :: str
  car_currency :: currency
  car_allows_negative_balance :: bool

record 'd transfer_request =
  trq_from_account_id :: uuid
  trq_to_account_id :: uuid
  trq_amount :: 'd
  trq_currency :: currency
  trq_description :: str

text \<open>
  What the environment does to one request: the clock and the fresh id of a new account, failures of
  the single calls, and the attempts of a transfer.
\<close>

record request_env =
  rq_now :: timestamp
  rq_id :: uuid
  rq_fault :: fault
  rq_fault2 :: fault
  rq_attempts :: "nat \<Rightarrow> attempt"

definition http_accounts_create ::
  "'d crates \<Rightarrow> request_env \<Rightarrow> app_state \<Rightarrow> (str + create_account_request) \<Rightarrow> db \<Rightarrow>
   (ledger_error, nat \<times> 'd account) result \<times> db" where
  "http_accounts_create C rq state payload d =
     (case payload of
        Inl err \<Rightarrow> (Err (Validation err), d)
      | Inr request \<Rightarrow>
          if car_allows_negative_balance request \<and> \<not> st_allow_funding_account_creation state
          then (Err FundingAccountCreationDisabled, d)
          else let name = trim (car_name request) in
          if name = [] then (Err (Validation (lit ''name must not be empty'')), d)
          else if length name > MAX_NAME_LEN
          then (Err (Validation (lit ''name must be at most '' @ nat_digits MAX_NAME_LEN @
                  lit '' characters'')), d)
          else
            (case accounts_create C (rq_fault rq) (rq_now rq) (rq_id rq) name (car_currency request)
                    (car_allows_negative_balance request) d of
               (r, d') \<Rightarrow> (and_then r (\<lambda>account. Ok (201, account)), d')))"

definition http_accounts_get ::
  "'d crates \<Rightarrow> request_env \<Rightarrow> uuid \<Rightarrow> db \<Rightarrow> (ledger_error, 'd account) result" where
  "http_accounts_get C rq i d = accounts_get C (rq_fault rq) i d"

definition http_transactions_get ::
  "'d crates \<Rightarrow> request_env \<Rightarrow> uuid \<Rightarrow> db \<Rightarrow> (ledger_error, 'd transaction_detail) result" where
  "http_transactions_get C rq i d = transactions_get C (rq_fault rq) (rq_fault2 rq) i d"

fun outcome_status :: "transfer_outcome \<Rightarrow> nat" where
  "outcome_status Created = 201"
| "outcome_status Replayed = 200"

text \<open>Everything the handler does before it calls \<open>execute\<close>.\<close>

definition transfer_intent_of ::
  "'d crates \<Rightarrow> (str + 'd transfer_request) \<Rightarrow> (ledger_error, 'd transfer_intent) result" where
  "transfer_intent_of C payload =
     (case payload of
        Inl err \<Rightarrow> Err (Validation err)
      | Inr request \<Rightarrow>
          and_then (map_err MoneyError (money_new C (trq_amount request) (trq_currency request))) (\<lambda>amount.
          if length (trq_description request) > MAX_DESCRIPTION_LEN
          then Err (Validation (lit ''description must be at most '' @ nat_digits MAX_DESCRIPTION_LEN @
                 lit '' characters''))
          else Ok \<lparr>from_account_id = trq_from_account_id request,
                   to_account_id = trq_to_account_id request, intent_amount = amount,
                   intent_description = trq_description request\<rparr>))"

definition http_transfers_create ::
  "'d crates \<Rightarrow> (byte list \<Rightarrow> str option) \<Rightarrow> request_env \<Rightarrow> headers \<Rightarrow> (str + 'd transfer_request) \<Rightarrow> db \<Rightarrow>
   (ledger_error, nat \<times> 'd transaction_detail) result \<times> db" where
  "http_transfers_create C to_str rq headers payload d =
     (case and_then (extract_idempotency_key to_str headers) (\<lambda>key.
           and_then (transfer_intent_of C payload) (\<lambda>intent. Ok (key, intent))) of
        Err e \<Rightarrow> (Err e, d)
      | Panic \<Rightarrow> (Panic, d)
      | Ok (key, intent) \<Rightarrow>
          (case execute C (rq_attempts rq) key intent d of
             (r, d') \<Rightarrow> (and_then r (\<lambda>res. Ok (outcome_status (res_outcome res), res_detail res)), d')))"

section \<open>Responses\<close>

datatype 'd http_body =
    AccountBody "'d account"
  | TransactionBody "'d transaction_detail"
  | ErrorBody string str
  | HealthBody string "string option"

type_synonym 'd http_response = "nat \<times> 'd http_body"

definition live :: "'d http_response" where
  "live = (200, HealthBody ''ok'' None)"

definition ready :: "request_env \<Rightarrow> 'd http_response" where
  "ready rq =
     (case fault_error (rq_fault rq) of
        None \<Rightarrow> (200, HealthBody ''ok'' None)
      | Some _ \<Rightarrow> (503, HealthBody ''unavailable'' (Some ''database unreachable'')))"

definition handle_panic :: "'d http_response" where
  "handle_panic = (500, ErrorBody ''internal_error'' (lit ''an internal error occurred''))"

fun respond :: "'d crates \<Rightarrow> ('a \<Rightarrow> 'd http_response) \<Rightarrow> (ledger_error, 'a) result \<Rightarrow> 'd http_response" where
  "respond C ok (Ok x) = ok x"
| "respond C ok (Err e) =
     (let r = error_into_response C e in (resp_status r, ErrorBody (resp_code r) (resp_message r)))"
| "respond C ok Panic = handle_panic"

section \<open>Dispatch\<close>

datatype 'd http_request =
    GetLive
  | GetReady
  | PostAccounts "str + create_account_request"
  | GetAccount uuid
  | PostTransfers headers "str + 'd transfer_request"
  | GetTransaction uuid

fun router ::
  "'d crates \<Rightarrow> (byte list \<Rightarrow> str option) \<Rightarrow> app_state \<Rightarrow> request_env \<Rightarrow> 'd http_request \<Rightarrow> db \<Rightarrow>
   'd http_response \<times> db" where
  "router C to_str state rq GetLive d = (live, d)"
| "router C to_str state rq GetReady d = (ready rq, d)"
| "router C to_str state rq (PostAccounts payload) d =
     map_prod (respond C (\<lambda>(st, a). (st, AccountBody a))) id (http_accounts_create C rq state payload d)"
| "router C to_str state rq (GetAccount i) d =
     (respond C (\<lambda>a. (200, AccountBody a)) (http_accounts_get C rq i d), d)"
| "router C to_str state rq (PostTransfers headers payload) d =
     map_prod (respond C (\<lambda>(st, t). (st, TransactionBody t))) id
       (http_transfers_create C to_str rq headers payload d)"
| "router C to_str state rq (GetTransaction i) d =
     (respond C (\<lambda>t. (200, TransactionBody t)) (http_transactions_get C rq i d), d)"



section \<open>Header values\<close>

text \<open>\<open>HeaderValue::to_str\<close> yields the bytes as text when all are visible ASCII or tabs.\<close>

locale header_contract =
  fixes to_str :: "byte list \<Rightarrow> str option"
  assumes to_str_iff: "to_str bs = Some s \<longleftrightarrow> (\<forall>b \<in> set bs. b = 9 \<or> 32 \<le> b \<and> b < 127) \<and> s = map unat bs"
begin

lemma to_str_chars:
  assumes "to_str bs = Some s" and "c \<in> set s"
  shows "0 < c \<and> c < 128"
proof -
  obtain b where b: "b \<in> set bs" "c = unat b"
    using assms by (auto simp: to_str_iff)
  then have "b = 9 \<or> 32 \<le> b \<and> b < 127"
    using assms(1) by (auto simp: to_str_iff)
  then show ?thesis
    unfolding b(2) by (auto simp: word_le_nat_alt word_less_nat_alt)
qed

end

definition ascii_to_str :: "byte list \<Rightarrow> str option" where
  "ascii_to_str bs =
     (if \<forall>b \<in> set bs. b = 9 \<or> 32 \<le> b \<and> b < 127 then Some (map unat bs) else None)"

interpretation ascii: header_contract ascii_to_str
  by unfold_locales (auto simp: ascii_to_str_def)

lemma utf8_ascii_length: "\<forall>c \<in> set s. c < 128 \<Longrightarrow> length (utf8 s) = length s"
  by (induction s) (auto simp: utf8_def utf8_nats_def)

context header_contract
begin

lemma extract_Ok_iff:
  "extract_idempotency_key to_str headers = Ok key \<longleftrightarrow>
     (\<exists>raw. map_of headers ''idempotency-key'' = Some raw \<and>
        (\<forall>b \<in> set raw. b = 9 \<or> 32 \<le> b \<and> b < 127) \<and> key = trim (map unat raw) \<and> key \<noteq> [] \<and>
        length key \<le> MAX_IDEMPOTENCY_KEY_LEN)"
proof -
  have len: "length (utf8 (trim s)) = length (trim s)" if "to_str raw = Some s" for raw s
    using to_str_chars [OF that] set_trim [of s] by (intro utf8_ascii_length) blast
  have "extract_idempotency_key to_str headers = Ok key \<longleftrightarrow>
      (\<exists>raw s. map_of headers ''idempotency-key'' = Some raw \<and> to_str raw = Some s \<and>
         key = trim s \<and> key \<noteq> [] \<and> length (utf8 key) \<le> MAX_IDEMPOTENCY_KEY_LEN)"
    by (cases "map_of headers ''idempotency-key''";
        cases "to_str (the (map_of headers ''idempotency-key''))")
       (auto simp: extract_idempotency_key_def Let_def)
  also have "\<dots> \<longleftrightarrow> (\<exists>raw s. map_of headers ''idempotency-key'' = Some raw \<and> to_str raw = Some s \<and>
         key = trim s \<and> key \<noteq> [] \<and> length key \<le> MAX_IDEMPOTENCY_KEY_LEN)"
    using len by metis
  finally show ?thesis
    by (auto simp: to_str_iff)
qed

lemma extract_text_ok:
  assumes "extract_idempotency_key to_str headers = Ok key"
  shows "text_ok key"
proof -
  obtain raw s where "to_str raw = Some s" "key = trim s"
    using assms by (auto simp: extract_idempotency_key_def result_simps Let_def split: if_splits)
  then show ?thesis
    using to_str_chars set_trim [of s] by (force simp: text_ok_def)
qed

end









section \<open>Properties\<close>

text \<open>
  Which idempotency key a request carries: the header must be present and visible ASCII, it is
  taken without surrounding blanks, and it must then have 1 to 255 characters. A key that is
  accepted contains no zero, so the database can store it.
\<close>

lemma idempotency_key_extracted:
  assumes "header_contract to_str"
  shows "(extract_idempotency_key to_str headers = Ok key \<longleftrightarrow>
     (\<exists>raw. map_of headers ''idempotency-key'' = Some raw \<and>
        (\<forall>b \<in> set raw. b = 9 \<or> 32 \<le> b \<and> b < 127) \<and> key = trim (map unat raw) \<and>
        1 \<le> length key \<and> length key \<le> 255)) \<and>
    (extract_idempotency_key to_str headers = Ok key \<longrightarrow> text_ok key \<and> trim key = key)"
proof -
  have nonempty: "1 \<le> length key \<longleftrightarrow> key \<noteq> []"
    by (cases key) auto
  show ?thesis
    unfolding nonempty header_contract.extract_Ok_iff [OF assms] MAX_IDEMPOTENCY_KEY_LEN_def [symmetric]
    using header_contract.extract_text_ok [OF assms, of headers key]
      header_contract.extract_Ok_iff [OF assms, of headers key] trim_trim by blast
qed

lemma idempotency_key_extracted_example:
  "extract_idempotency_key ascii_to_str [(''idempotency-key'', bstr ''  abc '')] = Ok (lit ''abc'')"
  using idempotency_key_extracted [OF ascii.header_contract_axioms,
      of "[(''idempotency-key'', bstr ''  abc '')]" "lit ''abc''"]
  by (simp add: bstr_def lit_def trim_def is_whitespace_def)

text \<open>
  C25: opening an account when no call fails. The handler refuses a funding account unless the
  operator enabled them, and an empty or overlong name with a 422, before anything is written; a
  name that passes is stored trimmed, with a zero balance. The one valid-looking name it fails on
  is one with a zero character, which the database rejects and the caller sees as a 500.
\<close>

theorem create_account_outcomes:
  assumes "crate_contracts C" and "constraints d" and "rq_fault rq = NoFault"
    and "account_row d (rq_id rq) = None" and "as_str (car_currency request) \<in> set ISO_4217"
  shows "let (resp, d') = router C to_str state rq (PostAccounts (Inr request)) d;
             name = trim (car_name request) in
    if car_allows_negative_balance request \<and> \<not> st_allow_funding_account_creation state
    then fst resp = 403 \<and> d' = d
    else if length name = 0 \<or> 255 < length name then fst resp = 422 \<and> d' = d
    else if 0 \<in> set name then fst resp = 500 \<and> d' = d
    else fst resp = 201 \<and>
      (\<exists>r a. d' = d\<lparr>accounts := accounts d @ [r]\<rparr> \<and> snd resp = AccountBody a \<and> represents C a r \<and>
        a_id r = rq_id rq \<and> a_name r = name \<and> a_currency r = as_str (car_currency request) \<and>
        a_balance r = 0 \<and> a_allows_negative_balance r = car_allows_negative_balance request)"
proof -
  let ?name = "trim (car_name request)"
  let ?create = "accounts_create C NoFault (rq_now rq) (rq_id rq) ?name (car_currency request)
    (car_allows_negative_balance request) d"
  have nul: "?create = (Err (Database invalid_text), d)" if "0 \<in> set ?name"
    using that by (simp add: accounts_create_def sql_insert_account_def insert_accounts_row_def
        text_ok_def create_error_def invalid_text_def pg_error_def sqlstate_defs)
  have ok: "\<exists>a r. ?create = (Ok a, d\<lparr>accounts := accounts d @ [r]\<rparr>) \<and>
      represents C a r \<and> a_id r = rq_id rq \<and> a_name r = ?name \<and> a_currency r = as_str (car_currency request) \<and>
      a_balance r = 0 \<and> a_allows_negative_balance r = car_allows_negative_balance request"
    if "0 \<notin> set ?name" "?name \<noteq> []" "length ?name \<le> 255"
    by (rule crate_contracts.accounts_create_Ok [OF assms(1,2,4) _ that(3,1) assms(5)])
       (use that(2) in \<open>simp add: Suc_le_eq\<close>)
  show ?thesis
  proof (cases "?name = [] \<or> 255 < length ?name \<or> 0 \<in> set ?name")
    case True
    then show ?thesis
      using nul by (auto simp: http_accounts_create_def assms(3) MAX_NAME_LEN_def Let_def
          error_into_response_def)
  next
    case False
    then show ?thesis
      using ok by (fastforce simp: http_accounts_create_def assms(3) MAX_NAME_LEN_def Let_def
          error_into_response_def)
  qed
qed

definition sample_rq :: request_env where
  "sample_rq = \<lparr>rq_now = 0, rq_id = 9, rq_fault = NoFault, rq_fault2 = NoFault,
     rq_attempts = sample_ev (\<lambda>_. NoFault)\<rparr>"

definition alice_request :: create_account_request where
  "alice_request = \<lparr>car_name = lit '' alice '', car_currency = Currency (lit ''EUR''),
     car_allows_negative_balance = False\<rparr>"

theorem create_account_outcomes_witness:
  "fst (fst (router ref_crates ascii_to_str \<lparr>st_allow_funding_account_creation = False\<rparr> sample_rq
     (PostAccounts (Inr alice_request)) sample_ledger)) = 201"
proof -
  have cur: "as_str (car_currency alice_request) \<in> set ISO_4217"
    by (simp add: alice_request_def ISO_4217_def)
  have new: "account_row sample_ledger (rq_id sample_rq) = None"
    by (simp add: account_row_def sample_ledger_def sample_account_def row_def sample_rq_def)
  have name: "trim (car_name alice_request) = lit ''alice''" "0 \<notin> set (lit ''alice'')"
    "\<not> car_allows_negative_balance alice_request"
    by (simp_all add: alice_request_def trim_def lit_def is_whitespace_def)
  have lit_nonempty: "lit ''alice'' \<noteq> []" "lit ''alice'' \<noteq> [] \<and> \<not> 255 < length (lit ''alice'')"
    by (simp_all add: lit_def)
  have calm: "rq_fault sample_rq = NoFault"
    by (simp add: sample_rq_def)
  show ?thesis
    using create_account_outcomes [OF ref.crate_contracts_axioms sample_constraints calm new cur,
        of ascii_to_str "\<lparr>st_allow_funding_account_creation = False\<rparr>"]
    by (simp add: name lit_nonempty Let_def case_prod_beta del: router.simps)
qed




end
