(* ===== verification/Http_Stack.thy ===== *)
theory Http_Stack
  imports Http
begin

text \<open>
  \<open>app\<close> of \<open>src/http/mod.rs\<close>: the routes inside seven layers of \<open>tower_http\<close>. A layer is a function from
  services to services and a parameter of the model; what it is documented to do is the locale
  \<open>tower_layers\<close>. The comment in the source says that the order of the layers is load bearing; the
  properties are what the order buys: every request is answered in time and carries its id, whatever
  the handler does, and the layers print no credential.

  A service is seen through one request: when and how the handler ends, and what is written to the
  trace on the way. Of the body of a request only its declared length and how many of its bytes the
  handler may read are kept (\<open>None\<close> when nothing limits it).
\<close>

section \<open>Messages and services\<close>

record header_value =
  hv_bytes :: "byte list"
  hv_sensitive :: bool

record http_msg =
  hm_headers :: "(string \<times> header_value) list"
  hm_content_length :: "nat option"
  hm_readable :: "nat option"

record 'b http_reply =
  rp_status :: nat
  rp_headers :: "(string \<times> header_value) list"
  rp_body :: 'b

datatype 'b ending = Responds nat "'b http_reply" | Panics nat | Hangs

text \<open>The trace is the list of header values that were printed; a sensitive one prints as \<open>None\<close>.\<close>

type_synonym trace_log = "(string \<times> byte list option) list"

type_synonym 'b svc = "http_msg \<Rightarrow> 'b ending \<times> trace_log"

definition printed :: "string \<times> header_value \<Rightarrow> string \<times> byte list option" where
  "printed h = (fst h, if hv_sensitive (snd h) then None else Some (hv_bytes (snd h)))"

definition mark_sensitive :: "string list \<Rightarrow> http_msg \<Rightarrow> http_msg" where
  "mark_sensitive names m =
     m\<lparr>hm_headers := map (\<lambda>(n, v). (n, if n \<in> set names then v\<lparr>hv_sensitive := True\<rparr> else v)) (hm_headers m)\<rparr>"

definition with_request_id :: "string \<Rightarrow> byte list \<Rightarrow> http_msg \<Rightarrow> http_msg" where
  "with_request_id name fresh m =
     (if map_of (hm_headers m) name = None
      then m\<lparr>hm_headers := hm_headers m @ [(name, \<lparr>hv_bytes = fresh, hv_sensitive = False\<rparr>)]\<rparr> else m)"

section \<open>The stack\<close>

definition REQUEST_ID_HEADER :: string where
  "REQUEST_ID_HEADER = ''x-request-id''"

definition SENSITIVE_HEADERS :: "string list" where
  "SENSITIVE_HEADERS = [''authorization'', ''cookie'', ''proxy-authorization'']"

definition REQUEST_TIMEOUT :: nat where
  "REQUEST_TIMEOUT = 408"

text \<open>\<open>layer\<close> wraps what is there, so the last one in the source is the outermost.\<close>

record 'b layers =
  body_limit :: "nat \<Rightarrow> 'b svc \<Rightarrow> 'b svc"
  timeout_layer :: "nat \<Rightarrow> nat \<Rightarrow> 'b svc \<Rightarrow> 'b svc"
  catch_panic :: "'b http_reply \<Rightarrow> 'b svc \<Rightarrow> 'b svc"
  trace_layer :: "'b svc \<Rightarrow> 'b svc"
  sensitive_headers :: "string list \<Rightarrow> 'b svc \<Rightarrow> 'b svc"
  propagate_request_id :: "string \<Rightarrow> 'b svc \<Rightarrow> 'b svc"
  set_request_id :: "string \<Rightarrow> byte list \<Rightarrow> 'b svc \<Rightarrow> 'b svc"

text \<open>What \<open>handle_panic\<close> answers; \<open>axum::Json\<close> sets the content type of its response.\<close>

definition panic_reply :: "'d http_body http_reply" where
  "panic_reply =
     \<lparr>rp_status = fst (handle_panic :: 'd http_response),
      rp_headers = [(''content-type'', \<lparr>hv_bytes = bstr ''application/json'', hv_sensitive = False\<rparr>)],
      rp_body = snd handle_panic\<rparr>"

definition app ::
  "'d http_body layers \<Rightarrow> 'a config \<Rightarrow> byte list \<Rightarrow> 'd http_body svc \<Rightarrow> 'd http_body svc" where
  "app L config fresh routes =
     (let s = body_limit L (max_body_bytes config) routes;
          s = timeout_layer L REQUEST_TIMEOUT (request_timeout config) s;
          s = catch_panic L panic_reply s;
          s = trace_layer L s;
          s = sensitive_headers L SENSITIVE_HEADERS s;
          s = propagate_request_id L REQUEST_ID_HEADER s;
          s = set_request_id L REQUEST_ID_HEADER fresh s
      in s)"

section \<open>What the layers are documented to do\<close>

text \<open>
  A body limit answers \<open>413\<close> itself when the declared length is too large; otherwise it hands the
  request on with a body of which at most the limit can be read. A timeout drops a handler that has not
  finished in time and answers with the status it was given. What else these two answers contain is
  not assumed. The trace layer prints at most the headers of the request, and the value of a header that
  is marked as sensitive is never printed. The two request id layers fill in a missing id, and copy the
  id of the request to the response unless it has one.
\<close>

fun reply_map :: "('b http_reply \<Rightarrow> 'b http_reply) \<Rightarrow> 'b ending \<Rightarrow> 'b ending" where
  "reply_map f (Responds t r) = Responds t (f r)"
| "reply_map f (Panics t) = Panics t"
| "reply_map f Hangs = Hangs"

definition copy_id :: "string \<Rightarrow> http_msg \<Rightarrow> 'b http_reply \<Rightarrow> 'b http_reply" where
  "copy_id name m r =
     (case map_of (hm_headers m) name of
        Some v \<Rightarrow> if map_of (rp_headers r) name = None then r\<lparr>rp_headers := rp_headers r @ [(name, v)]\<rparr> else r
      | None \<Rightarrow> r)"

fun ends_by :: "nat \<Rightarrow> 'b ending \<Rightarrow> bool" where
  "ends_by T (Responds t r) \<longleftrightarrow> t \<le> T"
| "ends_by T (Panics t) \<longleftrightarrow> t \<le> T"
| "ends_by T Hangs \<longleftrightarrow> False"

locale tower_layers =
  fixes L :: "'b layers"
  assumes limit_pass: "case_option True (\<lambda>k. k \<le> n) (hm_content_length m) \<Longrightarrow>
      \<exists>k \<le> n. body_limit L n s m = s (m\<lparr>hm_readable := Some k\<rparr>)"
    and limit_refuse: "hm_content_length m = Some k \<Longrightarrow> n < k \<Longrightarrow>
      \<exists>r. body_limit L n s m = (Responds 0 r, []) \<and> rp_status r = 413"
    and timeout_pass: "ends_by T (fst (s m)) \<Longrightarrow> timeout_layer L st T s m = s m"
    and timeout_cut: "\<not> ends_by T (fst (s m)) \<Longrightarrow>
      \<exists>r lg. timeout_layer L st T s m = (Responds T r, lg) \<and> rp_status r = st \<and> set lg \<subseteq> set (snd (s m))"
    and catch: "catch_panic L h s m =
      (case fst (s m) of Panics t \<Rightarrow> (Responds t h, snd (s m)) | _ \<Rightarrow> s m)"
    and trace_same: "fst (trace_layer L s m) = fst (s m)"
    and trace_prints: "set (snd (trace_layer L s m)) \<subseteq> set (snd (s m)) \<union> printed ` set (hm_headers m)"
    and sensitive: "sensitive_headers L names s m = s (mark_sensitive names m)"
    and propagate: "propagate_request_id L name s m = map_prod (reply_map (copy_id name m)) id (s m)"
    and set_id: "set_request_id L name fresh s m = s (with_request_id name fresh m)"
begin

lemma limited:
  obtains (pass) k where "\<not> (\<exists>k > n. hm_content_length m = Some k)" "k \<le> n"
      "body_limit L n s m = s (m\<lparr>hm_readable := Some k\<rparr>)"
  | (refuse) r where "\<exists>k > n. hm_content_length m = Some k" "body_limit L n s m = (Responds 0 r, [])"
      "rp_status r = 413"
proof (cases "\<exists>k > n. hm_content_length m = Some k")
  case True
  then show thesis
    using refuse limit_refuse by blast
next
  case False
  then have "case_option True (\<lambda>k. k \<le> n) (hm_content_length m)"
    by (auto simp: not_less split: option.split)
  with False show thesis
    using pass limit_pass by blast
qed

text \<open>The three inner layers: always an answer, never later than the timeout.\<close>

lemma timed:
  obtains t q lg where "catch_panic L h (timeout_layer L st T s) m = (Responds t q, lg)" and "t \<le> T"
    and "set lg \<subseteq> set (snd (s m))"
    and "case fst (s m) of
      Responds u p \<Rightarrow> if u \<le> T then q = p else rp_status q = st
    | Panics u \<Rightarrow> if u \<le> T then q = h else rp_status q = st
    | Hangs \<Rightarrow> rp_status q = st"
proof (cases "ends_by T (fst (s m))")
  case True
  then have tm: "timeout_layer L st T s m = s m"
    by (rule timeout_pass)
  obtain e lg where sm: "s m = (e, lg)"
    by (cases "s m")
  show thesis
    by (cases e) (use True sm that in \<open>auto simp: catch tm\<close>)
next
  case False
  then obtain r lg where "timeout_layer L st T s m = (Responds T r, lg)" "rp_status r = st"
      "set lg \<subseteq> set (snd (s m))"
    using timeout_cut by blast
  then show thesis
    using False that [of T r lg] by (cases "fst (s m)") (auto simp: catch)
qed

lemma guarded:
  fixes h st T n s m
  defines "g \<equiv> catch_panic L h (timeout_layer L st T (body_limit L n s)) m"
  obtains (pass) k t q where "\<not> (\<exists>k > n. hm_content_length m = Some k)" "k \<le> n"
      "fst g = Responds t q" "t \<le> T" "set (snd g) \<subseteq> set (snd (s (m\<lparr>hm_readable := Some k\<rparr>)))"
      "case fst (s (m\<lparr>hm_readable := Some k\<rparr>)) of
         Responds u p \<Rightarrow> if u \<le> T then q = p else rp_status q = st
       | Panics u \<Rightarrow> if u \<le> T then q = h else rp_status q = st
       | Hangs \<Rightarrow> rp_status q = st"
  | (refuse) q where "\<exists>k > n. hm_content_length m = Some k" "fst g = Responds 0 q" "rp_status q = 413"
      "snd g = []"
proof -
  obtain t q lg where q: "g = (Responds t q, lg)" "t \<le> T" "set lg \<subseteq> set (snd (body_limit L n s m))"
      "case fst (body_limit L n s m) of
         Responds u p \<Rightarrow> if u \<le> T then q = p else rp_status q = st
       | Panics u \<Rightarrow> if u \<le> T then q = h else rp_status q = st
       | Hangs \<Rightarrow> rp_status q = st"
    unfolding g_def by (rule timed)
  show thesis
  proof (cases rule: limited [of n m s])
    case (pass k)
    then show thesis
      using that(1) [of k t q] q by simp
  next
    case (refuse r)
    have "timeout_layer L st T (body_limit L n s) m = (Responds 0 r, [])"
      using timeout_pass [where s = "body_limit L n s" and m = m] refuse(2) by simp
    then have "g = (Responds 0 r, [])"
      by (simp add: g_def catch)
    then show thesis
      using that(2) [of r] refuse by simp
  qed
qed

end

text \<open>Layers that do just that.\<close>

definition ref_layers :: "'b \<Rightarrow> 'b layers" where
  "ref_layers b =
     \<lparr>body_limit = \<lambda>n s m. case hm_content_length m of
          Some k \<Rightarrow> if n < k then (Responds 0 \<lparr>rp_status = 413, rp_headers = [], rp_body = b\<rparr>, [])
            else s (m\<lparr>hm_readable := Some k\<rparr>)
        | None \<Rightarrow> s (m\<lparr>hm_readable := Some n\<rparr>),
      timeout_layer = \<lambda>st T s m. if ends_by T (fst (s m)) then s m
        else (Responds T \<lparr>rp_status = st, rp_headers = [], rp_body = b\<rparr>, snd (s m)),
      catch_panic = \<lambda>h s m. case fst (s m) of Panics t \<Rightarrow> (Responds t h, snd (s m)) | _ \<Rightarrow> s m,
      trace_layer = \<lambda>s m. (fst (s m), map printed (hm_headers m) @ snd (s m)),
      sensitive_headers = \<lambda>names s m. s (mark_sensitive names m),
      propagate_request_id = \<lambda>name s m. map_prod (reply_map (copy_id name m)) id (s m),
      set_request_id = \<lambda>name fresh s m. s (with_request_id name fresh m)\<rparr>"

interpretation ref_layers: tower_layers "ref_layers b" for b
  by unfold_locales (auto simp: ref_layers_def not_less split: option.split)

section \<open>The application\<close>

abbreviation seen :: "byte list \<Rightarrow> http_msg \<Rightarrow> http_msg" where
  "seen fresh m \<equiv> mark_sensitive SENSITIVE_HEADERS (with_request_id REQUEST_ID_HEADER fresh m)"

lemma request_id_present: "map_of (hm_headers (with_request_id name fresh m)) name \<noteq> None"
  by (simp add: with_request_id_def map_add_def split: option.split)

lemma content_length_seen [simp]: "hm_content_length (seen fresh m) = hm_content_length m"
  by (simp add: mark_sensitive_def with_request_id_def)

lemma app_eval:
  assumes "tower_layers L"
  shows "fst (app L config fresh routes m) =
      reply_map (copy_id REQUEST_ID_HEADER (with_request_id REQUEST_ID_HEADER fresh m))
        (fst (catch_panic L panic_reply (timeout_layer L REQUEST_TIMEOUT (request_timeout config)
          (body_limit L (max_body_bytes config) routes)) (seen fresh m)))"
    and "set (snd (app L config fresh routes m)) \<subseteq>
      set (snd (catch_panic L panic_reply (timeout_layer L REQUEST_TIMEOUT (request_timeout config)
          (body_limit L (max_body_bytes config) routes)) (seen fresh m))) \<union> printed ` set (hm_headers (seen fresh m))"
  using tower_layers.trace_prints [OF assms]
  by (simp_all add: app_def tower_layers.set_id [OF assms] tower_layers.propagate [OF assms]
      tower_layers.sensitive [OF assms] tower_layers.trace_same [OF assms])

lemma mark_prints: "n \<in> set names \<Longrightarrow> (n, Some v) \<notin> printed ` set (hm_headers (mark_sensitive names m))"
  by (auto simp: mark_sensitive_def printed_def)

lemma copy_id_simps [simp]: "rp_status (copy_id name m r) = rp_status r" "rp_body (copy_id name m r) = rp_body r"
  by (simp_all add: copy_id_def split: option.split)

lemma copy_id_present:
  "map_of (hm_headers m) name \<noteq> None \<Longrightarrow> map_of (rp_headers (copy_id name m r)) name \<noteq> None"
  by (auto simp: copy_id_def map_add_def split: option.splits)

lemma copy_id_value:
  "map_of (rp_headers r) name = None \<Longrightarrow> map_of (rp_headers (copy_id name m r)) name = map_of (hm_headers m) name"
  by (auto simp: copy_id_def map_add_def split: option.splits)

lemma with_request_id_value:
  "map_option hv_bytes (map_of (hm_headers (with_request_id name fresh m)) name) =
     Some (case map_of (hm_headers m) name of Some v \<Rightarrow> hv_bytes v | None \<Rightarrow> fresh)"
  by (auto simp: with_request_id_def map_add_def split: option.splits)

lemma panic_reply_facts:
  "rp_status (panic_reply :: 'd http_body http_reply) = 500"
  "rp_body (panic_reply :: 'd http_body http_reply) =
     ErrorBody ''internal_error'' (lit ''an internal error occurred'')"
  "map_of (rp_headers (panic_reply :: 'd http_body http_reply)) ''x-request-id'' = None"
  by (simp_all add: panic_reply_def handle_panic_def)

section \<open>Properties\<close>

text \<open>
  C26: every request is answered within the configured request timeout, whatever the handler does,
  panicking or hanging included, and the answer carries a request id. A body declared larger than the
  limit is answered 413. Otherwise the handler runs on the request with its id set, its credentials
  marked and at most the limit of its body readable; its own response is returned if it ends in time, the
  500 envelope of every internal error if it panics in time, and 408 if it is too late or hangs. When it
  ends in time and does not set the header itself, the id of the answer is the one the client sent, or
  the generated one if it sent none.
\<close>

theorem request_always_answered:
  assumes "tower_layers L"
  shows "\<exists>t r. fst (app L config fresh routes m) = Responds t r \<and> t \<le> request_timeout config \<and>
    map_of (rp_headers r) ''x-request-id'' \<noteq> None \<and>
    (if \<exists>k > max_body_bytes config. hm_content_length m = Some k then rp_status r = 413
     else \<exists>k \<le> max_body_bytes config.
       let own_id = (map_option hv_bytes (map_of (rp_headers r) ''x-request-id'') =
             Some (case map_of (hm_headers m) ''x-request-id'' of Some v \<Rightarrow> hv_bytes v | None \<Rightarrow> fresh)) in
       case fst (routes ((seen fresh m)\<lparr>hm_readable := Some k\<rparr>)) of
         Responds u q \<Rightarrow>
           if u \<le> request_timeout config
           then rp_status r = rp_status q \<and> rp_body r = rp_body q \<and>
                (map_of (rp_headers q) ''x-request-id'' = None \<longrightarrow> own_id)
           else rp_status r = 408
       | Panics u \<Rightarrow>
           if u \<le> request_timeout config
           then rp_status r = 500 \<and> own_id \<and>
                rp_body r = ErrorBody ''internal_error'' (lit ''an internal error occurred'')
           else rp_status r = 408
       | Hangs \<Rightarrow> rp_status r = 408)"
proof -
  let ?m = "with_request_id REQUEST_ID_HEADER fresh m"
  let ?g = "catch_panic L panic_reply (timeout_layer L REQUEST_TIMEOUT (request_timeout config)
      (body_limit L (max_body_bytes config) routes)) (seen fresh m)"
  have run: "fst (app L config fresh routes m) = reply_map (copy_id REQUEST_ID_HEADER ?m) (fst ?g)"
    by (rule app_eval(1) [OF assms])
  have present: "map_of (rp_headers (copy_id REQUEST_ID_HEADER ?m q)) ''x-request-id'' \<noteq> None"
    for q :: "'a http_body http_reply"
    using copy_id_present [OF request_id_present, of REQUEST_ID_HEADER fresh m q]
    by (simp add: REQUEST_ID_HEADER_def)
  have own: "map_option hv_bytes (map_of (rp_headers (copy_id REQUEST_ID_HEADER ?m q)) ''x-request-id'') =
      Some (case map_of (hm_headers m) ''x-request-id'' of Some v \<Rightarrow> hv_bytes v | None \<Rightarrow> fresh)"
    if "map_of (rp_headers q) ''x-request-id'' = None" for q :: "'a http_body http_reply"
    using copy_id_value [of q REQUEST_ID_HEADER ?m] with_request_id_value [of REQUEST_ID_HEADER fresh m] that
    by (simp add: REQUEST_ID_HEADER_def)
  note panic = panic_reply_facts [where 'd = 'a]
  show ?thesis
  proof (cases rule: tower_layers.guarded [OF assms, of "max_body_bytes config" "seen fresh m" panic_reply
        REQUEST_TIMEOUT "request_timeout config" routes])
    case (1 k t q)
    then have "\<not> (\<exists>k > max_body_bytes config. hm_content_length m = Some k)"
      by simp
    with 1 show ?thesis
      unfolding run 1(3) reply_map.simps
      using present [of q] own [of q] panic
      by (intro exI [of _ t] exI [of _ "copy_id REQUEST_ID_HEADER ?m q"] conjI)
         (auto simp: Let_def REQUEST_TIMEOUT_def split: ending.splits if_splits intro!: exI [of _ k])
  next
    case (2 q)
    then show ?thesis
      unfolding run 2(2) reply_map.simps using present [of q] by auto
  qed
qed

definition sample_config :: "unit config" where
  "sample_config =
     \<lparr>database_url = lit ''postgres://localhost/ledger'', bind_addr = (), pool = pool_config_default,
      request_timeout = 30, max_body_bytes = 64 * 1024, shutdown_grace = 20,
      allow_funding_account_creation = False\<rparr>"

definition sample_msg :: http_msg where
  "sample_msg = \<lparr>hm_headers = [(''authorization'', \<lparr>hv_bytes = [1, 2, 3], hv_sensitive = False\<rparr>)],
     hm_content_length = Some 300, hm_readable = None\<rparr>"

definition hanging :: "unit http_body svc" where
  "hanging m = (Hangs, map printed (hm_headers m))"

theorem request_always_answered_witness:
  "\<exists>t r. fst (app (ref_layers (HealthBody [] None)) sample_config [7] hanging sample_msg) = Responds t r \<and> t \<le> 30 \<and>
     map_of (rp_headers r) ''x-request-id'' \<noteq> None \<and> rp_status r = 408"
  using request_always_answered [OF ref_layers.tower_layers_axioms,
      of "HealthBody [] None" sample_config "[7]" hanging sample_msg]
  by (auto simp: hanging_def sample_msg_def sample_config_def Let_def)

text \<open>
  C27: the layers keep credentials out of the trace. The handler receives the request with every
  \<open>Authorization\<close>, \<open>Cookie\<close> and \<open>Proxy-Authorization\<close> header marked as sensitive, and a value of such a
  header appears in the trace only if that handler wrote it there itself: no layer prints it, the trace
  layer included, because the headers are marked before it sees them.
\<close>

theorem credentials_not_traced:
  assumes "tower_layers L" and "n \<in> {''authorization'', ''cookie'', ''proxy-authorization''}"
  shows "\<exists>k. let m' = (seen fresh m)\<lparr>hm_readable := k\<rparr> in
    (\<forall>v. (n, v) \<in> set (hm_headers m') \<longrightarrow> hv_sensitive v) \<and>
    (\<forall>b. (n, Some b) \<in> set (snd (app L config fresh routes m)) \<longrightarrow> (n, Some b) \<in> set (snd (routes m')))"
proof -
  let ?g = "catch_panic L panic_reply (timeout_layer L REQUEST_TIMEOUT (request_timeout config)
      (body_limit L (max_body_bytes config) routes)) (seen fresh m)"
  have marked: "hv_sensitive v" if "(n, v) \<in> set (hm_headers (seen fresh m))" for v
    using that assms(2) by (auto simp: mark_sensitive_def SENSITIVE_HEADERS_def)
  have "(n, Some b) \<notin> printed ` set (hm_headers (seen fresh m))" for b
    by (rule mark_prints) (use assms(2) in \<open>simp add: SENSITIVE_HEADERS_def\<close>)
  then have traced: "(n, Some b) \<in> set (snd ?g)" if "(n, Some b) \<in> set (snd (app L config fresh routes m))" for b
    using app_eval(2) [OF assms(1), of config fresh routes m] that by blast
  show ?thesis
  proof (cases rule: tower_layers.guarded [OF assms(1), of "max_body_bytes config" "seen fresh m" panic_reply
        REQUEST_TIMEOUT "request_timeout config" routes])
    case (1 k t q)
    then show ?thesis
      using marked traced by (intro exI [of _ "Some k"]) (auto simp: Let_def)
  next
    case (2 q)
    then show ?thesis
      using marked traced by (auto simp: Let_def)
  qed
qed

definition silent :: "unit http_body svc" where
  "silent m = (Hangs, [])"

theorem credentials_not_traced_witness:
  "(''authorization'', Some [1, 2, 3]) \<notin>
     set (snd (app (ref_layers (HealthBody [] None)) sample_config [7] silent sample_msg))"
  using credentials_not_traced [OF ref_layers.tower_layers_axioms, of "''authorization''" "[7]" sample_msg
      "HealthBody [] None" sample_config silent]
  by (simp add: Let_def silent_def)

end
