(* ===== verification/Startup.thy ===== *)
theory Startup
  imports Http_Stack
begin

text \<open>
  \<open>src/main.rs\<close> and \<open>connect\<close> of \<open>src/db/mod.rs\<close>: the order in which the process reads its settings,
  opens the pool, migrates, binds, serves and drains, and the contexts it adds to errors. What the
  operating system, the database and the runtime answer is the record \<open>platform\<close>; the events are the
  calls and log lines of \<open>main\<close> in order. Whether requests still running after the signal end, and
  when, is part of the platform, and so is how long the pool takes to close.
\<close>

section \<open>The pool\<close>

record pool_options =
  po_max_connections :: nat
  po_min_connections :: nat
  po_acquire_timeout :: nat
  po_max_lifetime :: nat
  po_idle_timeout :: nat
  po_after_connect :: str

definition connect_options :: "pool_config \<Rightarrow> pool_options" where
  "connect_options config =
     \<lparr>po_max_connections = max_connections config, po_min_connections = min_connections config,
      po_acquire_timeout = acquire_timeout config, po_max_lifetime = max_lifetime config,
      po_idle_timeout = idle_timeout config, po_after_connect = after_connect_sql config\<rparr>"

section \<open>The process\<close>

datatype os_signal = SIGINT | SIGTERM | OtherSignal

record 'a platform =
  pf_env :: env
  pf_filter_ok :: "str \<Rightarrow> bool"
  pf_parse_addr :: "str \<Rightarrow> 'a option"
  pf_show_addr :: "'a \<Rightarrow> str"
  pf_connect :: "str \<Rightarrow> pool_options \<Rightarrow> str option"
  pf_migrate :: "str option"
  pf_bind :: "'a \<Rightarrow> str option"
  pf_serve :: "str option"
  pf_signals :: "os_signal list"
  pf_requests_end :: "nat option"
  pf_close_time :: "nat option"

datatype 'a event =
    TracingInit str bool
  | LogStarting str 'a nat
  | Connect str pool_options
  | Migrate
  | BuildApp app_state
  | Bind 'a
  | LogListening 'a
  | Serve
  | LogSignal os_signal
  | LogDraining
  | ClosePool
  | WarnNotDrained
  | LogShutdownComplete

text \<open>An error with its contexts, outermost first; \<open>Running\<close> when \<open>main\<close> has not returned.\<close>

datatype exit = Running | Exits nat "(str list, unit) result"

definition init_tracing :: "'a platform \<Rightarrow> 'a event" where
  "init_tracing p =
     TracingInit
       (case pf_env p ''RUST_LOG'' of
          Value s \<Rightarrow> if pf_filter_ok p s then s else lit ''info,sqlx=warn''
        | _ \<Rightarrow> lit ''info,sqlx=warn'')
       (pf_env p ''LOG_FORMAT'' = Value (lit ''json''))"

text \<open>The first of the two signals to arrive.\<close>

fun shutdown_signal :: "os_signal list \<Rightarrow> os_signal option" where
  "shutdown_signal [] = None"
| "shutdown_signal (OtherSignal # ss) = shutdown_signal ss"
| "shutdown_signal (s # ss) = Some s"

text \<open>
  \<open>serve.await\<close>: ends with an error of the listener, or after a signal once the requests under way are
  done; how long that takes is not limited here. \<open>None\<close> when it does not return.
\<close>

definition serve_await :: "'a platform \<Rightarrow> (nat \<times> (str, unit) result \<times> 'a event list) option" where
  "serve_await p =
     (case pf_serve p of
        Some err \<Rightarrow> Some (0, Err err, [])
      | None \<Rightarrow>
          (case (shutdown_signal (pf_signals p), pf_requests_end p) of
             (Some s, Some t) \<Rightarrow> Some (t, Ok (), [LogSignal s])
           | _ \<Rightarrow> None))"

text \<open>\<open>tokio::time::timeout(config.shutdown_grace, pool.close())\<close>\<close>

definition drain :: "nat \<Rightarrow> nat option \<Rightarrow> nat \<times> 'a event list" where
  "drain grace close_time =
     (case close_time of
        Some t \<Rightarrow> if t \<le> grace then (t, [ClosePool]) else (grace, [ClosePool, WarnNotDrained])
      | None \<Rightarrow> (grace, [ClosePool, WarnNotDrained]))"

definition serve_and_drain :: "'a platform \<Rightarrow> 'a config \<Rightarrow> exit \<times> 'a event list" where
  "serve_and_drain p config =
     (case serve_await p of
        None \<Rightarrow>
          (Running, [Serve] @ (case shutdown_signal (pf_signals p) of None \<Rightarrow> [] | Some s \<Rightarrow> [LogSignal s]))
      | Some (t, r, es) \<Rightarrow>
          (let (u, ds) = drain (shutdown_grace config) (pf_close_time p) in
           (Exits (t + u) (map_err (\<lambda>err. [lit ''server error'', err]) r),
            [Serve] @ es @ [LogDraining] @ ds @ [LogShutdownComplete])))"

definition main :: "'a platform \<Rightarrow> exit \<times> 'a event list" where
  "main p =
     (let e0 = [init_tracing p] in
      case from_env (pf_parse_addr p) (pf_env p) of
        Err err \<Rightarrow> (Exits 0 (Err [err]), e0)
      | Panic \<Rightarrow> (Exits 0 Panic, e0)
      | Ok config \<Rightarrow>
          let addr = bind_addr config;
              e1 = e0 @ [LogStarting (redacted_database_url config) addr (max_connections (pool config)),
                         Connect (database_url config) (connect_options (pool config))] in
          (case pf_connect p (database_url config) (connect_options (pool config)) of
             Some err \<Rightarrow> (Exits 0 (Err [lit ''failed to connect to the database'', err]), e1)
           | None \<Rightarrow>
               let e2 = e1 @ [Migrate] in
               (case pf_migrate p of
                  Some err \<Rightarrow> (Exits 0 (Err [lit ''failed to run migrations'', err]), e2)
                | None \<Rightarrow>
                    let e3 = e2 @ [BuildApp (state_of_config config), Bind addr] in
                    (case pf_bind p addr of
                       Some err \<Rightarrow> (Exits 0 (Err [lit ''failed to bind '' @ pf_show_addr p addr, err]), e3)
                     | None \<Rightarrow>
                         (case serve_and_drain p config of
                            (r, es) \<Rightarrow> (r, e3 @ [LogListening addr] @ es))))))"

section \<open>Runs of the process\<close>

definition startup_events :: "'a platform \<Rightarrow> 'a config \<Rightarrow> 'a event list" where
  "startup_events p config =
     [init_tracing p,
      LogStarting (redact_url (database_url config)) (bind_addr config) (max_connections (pool config)),
      Connect (database_url config) (connect_options (pool config)), Migrate,
      BuildApp (state_of_config config), Bind (bind_addr config), LogListening (bind_addr config)]"

lemma main_cases:
  obtains config where "from_env (pf_parse_addr p) (pf_env p) = Ok config"
      "pf_connect p (database_url config) (connect_options (pool config)) = None" "pf_migrate p = None"
      "pf_bind p (bind_addr config) = None" "fst (main p) = fst (serve_and_drain p config)"
      "snd (main p) = startup_events p config @ snd (serve_and_drain p config)"
  | r where "fst (main p) = Exits 0 r" "r \<noteq> Ok ()" "Serve \<notin> set (snd (main p))"
proof (cases "from_env (pf_parse_addr p) (pf_env p)")
  case (Ok config)
  show thesis
  proof (cases "pf_connect p (database_url config) (connect_options (pool config)) = None \<and>
      pf_migrate p = None \<and> pf_bind p (bind_addr config) = None")
    case True
    then show thesis
      using Ok that(1) by (simp add: main_def startup_events_def redacted_database_url_def split_beta Let_def)
  next
    case False
    have "\<exists>r. fst (main p) = Exits 0 r \<and> r \<noteq> Ok () \<and> Serve \<notin> set (snd (main p))"
      by (cases "pf_connect p (database_url config) (connect_options (pool config))"; cases "pf_migrate p";
          cases "pf_bind p (bind_addr config)")
         (use False Ok in \<open>auto simp: main_def init_tracing_def Let_def\<close>)
    with that(2) show thesis by blast
  qed
qed (use that(2) in \<open>auto simp: main_def init_tracing_def\<close>)

lemma drain_le: "fst (drain grace c) \<le> grace"
  by (auto simp: drain_def split: option.split)

lemma drain_events:
  "snd (drain grace c) = ClosePool # (if \<exists>t \<le> grace. c = Some t then [] else [WarnNotDrained])"
  by (auto simp: drain_def split: option.split)

lemma serve_and_drain_Running:
  "fst (serve_and_drain p config) = Running \<longleftrightarrow>
     pf_serve p = None \<and> (shutdown_signal (pf_signals p) = None \<or> pf_requests_end p = None)"
  by (auto simp: serve_and_drain_def serve_await_def split_beta split: option.split)

lemma serve_and_drain_events:
  "snd (serve_and_drain p config) =
     [Serve] @
     (case (pf_serve p, shutdown_signal (pf_signals p)) of (None, Some s) \<Rightarrow> [LogSignal s] | _ \<Rightarrow> []) @
     (if fst (serve_and_drain p config) = Running then []
      else [LogDraining, ClosePool] @
        (if \<exists>t \<le> shutdown_grace config. pf_close_time p = Some t then [] else [WarnNotDrained]) @
        [LogShutdownComplete])"
  using drain_events [of "shutdown_grace config" "pf_close_time p"]
  by (auto simp: serve_and_drain_def serve_await_def split_beta split: option.split)

section \<open>What is written to the log\<close>

fun logged :: "'a event \<Rightarrow> bool" where
  "logged (Connect _ _) = False"
| "logged Migrate = False"
| "logged (BuildApp _) = False"
| "logged (Bind _) = False"
| "logged Serve = False"
| "logged ClosePool = False"
| "logged _ = True"

definition log_of :: "'a event list \<Rightarrow> 'a event list" where
  "log_of es = filter logged es"

lemma log_of_append [simp]: "log_of (es @ fs) = log_of es @ log_of fs"
  by (simp add: log_of_def)

definition with_url :: "'a platform \<Rightarrow> str \<Rightarrow> 'a platform" where
  "with_url p v = p\<lparr>pf_env := (pf_env p)(''DATABASE_URL'' := Value v)\<rparr>"

lemma with_url_simps [simp]:
  "pf_parse_addr (with_url p v) = pf_parse_addr p" "pf_show_addr (with_url p v) = pf_show_addr p"
  "pf_connect (with_url p v) = pf_connect p" "pf_migrate (with_url p v) = pf_migrate p"
  "pf_bind (with_url p v) = pf_bind p" "pf_serve (with_url p v) = pf_serve p"
  "pf_signals (with_url p v) = pf_signals p" "pf_requests_end (with_url p v) = pf_requests_end p"
  "pf_close_time (with_url p v) = pf_close_time p" "init_tracing (with_url p v) = init_tracing p"
  by (simp_all add: with_url_def init_tracing_def split: env_var.split)


section \<open>Properties\<close>

text \<open>
  C31: the events of every run, in order. The process reads its settings, logs the redacted connection
  string, opens the pool, migrates, binds and serves; the first stage that fails ends it with an error
  and without any later event, in particular without serving and without closing the pool. A run that
  gets to serve logs the signal that stopped it, and when the requests are done, or the listener
  failed, closes the pool, warning when that takes longer than the grace period, before it exits.
\<close>

theorem startup_order:
  "(\<forall>config. from_env (pf_parse_addr p) (pf_env p) = Ok config \<longrightarrow>
    (let stages =
       [init_tracing p,
        LogStarting (redact_url (database_url config)) (bind_addr config) (max_connections (pool config)),
        Connect (database_url config) (connect_options (pool config)), Migrate,
        BuildApp (state_of_config config), Bind (bind_addr config), LogListening (bind_addr config)] in
     case (pf_connect p (database_url config) (connect_options (pool config)), pf_migrate p,
           pf_bind p (bind_addr config)) of
       (Some err, _, _) \<Rightarrow> (\<exists>ctx. fst (main p) = Exits 0 (Err [ctx, err])) \<and> snd (main p) = take 3 stages
     | (None, Some err, _) \<Rightarrow> (\<exists>ctx. fst (main p) = Exits 0 (Err [ctx, err])) \<and> snd (main p) = take 4 stages
     | (None, None, Some err) \<Rightarrow> (\<exists>ctx. fst (main p) = Exits 0 (Err [ctx, err])) \<and> snd (main p) = take 6 stages
     | (None, None, None) \<Rightarrow>
         (fst (main p) = Running \<longleftrightarrow>
           pf_serve p = None \<and> (shutdown_signal (pf_signals p) = None \<or> pf_requests_end p = None)) \<and>
         snd (main p) = stages @ [Serve] @
           (case (pf_serve p, shutdown_signal (pf_signals p)) of (None, Some s) \<Rightarrow> [LogSignal s] | _ \<Rightarrow> []) @
           (if fst (main p) = Running then []
            else [LogDraining, ClosePool] @
              (if \<exists>t \<le> shutdown_grace config. pf_close_time p = Some t then [] else [WarnNotDrained]) @
              [LogShutdownComplete]))) \<and>
   (\<forall>err. from_env (pf_parse_addr p) (pf_env p) = Err err \<longrightarrow>
     main p = (Exits 0 (Err [err]), [init_tracing p]))"
  (is "(\<forall>config. ?ok config \<longrightarrow> ?run config) \<and> _")
proof (intro conjI allI impI)
  fix config assume config: "from_env (pf_parse_addr p) (pf_env p) = Ok config"
  note serving = serve_and_drain_Running [of p config] serve_and_drain_events [of p config]
  let ?c = "pf_connect p (database_url config) (connect_options (pool config))"
  let ?b = "pf_bind p (bind_addr config)"
  consider (connect) err where "?c = Some err" | (migrate) err where "?c = None" "pf_migrate p = Some err"
    | (bind) err where "?c = None" "pf_migrate p = None" "?b = Some err"
    | (serve) "?c = None" "pf_migrate p = None" "?b = None"
    by (cases ?c; cases "pf_migrate p"; cases ?b) auto
  then show "?run config"
  proof cases
    case serve
    then have "main p = (fst (serve_and_drain p config), startup_events p config @ snd (serve_and_drain p config))"
      using config by (simp add: main_def startup_events_def redacted_database_url_def split_beta Let_def)
    with serving serve show ?thesis
      by (simp add: startup_events_def Let_def)
  qed (use config in \<open>simp_all add: main_def redacted_database_url_def Let_def\<close>)
qed (simp add: main_def Let_def)

definition sample_platform :: "unit platform" where
  "sample_platform =
     \<lparr>pf_env = sample_env, pf_filter_ok = \<lambda>_. True, pf_parse_addr = \<lambda>_. Some (), pf_show_addr = \<lambda>_. [],
      pf_connect = \<lambda>_ _. None, pf_migrate = None, pf_bind = \<lambda>_. None, pf_serve = None,
      pf_signals = [OtherSignal, SIGTERM], pf_requests_end = Some 300, pf_close_time = None\<rparr>"

lemma sample_platform_serves:
  "Serve \<in> set (snd (main sample_platform))" "fst (main sample_platform) = Exits 320 (Ok ())"
  by (simp_all add: main_def sample_platform_def from_env_def pool_from_env_def sample_env_def env_or_def
      env_secs_def env_parse_def validate_def serve_and_drain_def serve_await_def drain_def)

theorem startup_order_witness:
  "\<exists>config. from_env (pf_parse_addr sample_platform) (pf_env sample_platform) = Ok config \<and>
     snd (main sample_platform) =
       [init_tracing sample_platform,
        LogStarting (redact_url (database_url config)) (bind_addr config) (max_connections (pool config)),
        Connect (database_url config) (connect_options (pool config)), Migrate,
        BuildApp (state_of_config config), Bind (bind_addr config), LogListening (bind_addr config), Serve,
        LogSignal SIGTERM, LogDraining, ClosePool, WarnNotDrained, LogShutdownComplete]"
proof -
  obtain config where config: "from_env (pf_parse_addr sample_platform) (pf_env sample_platform) = Ok config"
    using sample_platform_serves(1) by (cases rule: main_cases [of sample_platform]) auto
  have answers: "pf_connect sample_platform u opts = None" "pf_migrate sample_platform = None"
      "pf_bind sample_platform a = None" "pf_serve sample_platform = None"
      "shutdown_signal (pf_signals sample_platform) = Some SIGTERM" "pf_close_time sample_platform = None" for u opts a
    by (simp_all add: sample_platform_def)
  have "fst (main sample_platform) \<noteq> Running"
    by (simp add: sample_platform_serves(2))
  then have "snd (main sample_platform) =
       [init_tracing sample_platform,
        LogStarting (redact_url (database_url config)) (bind_addr config) (max_connections (pool config)),
        Connect (database_url config) (connect_options (pool config)), Migrate,
        BuildApp (state_of_config config), Bind (bind_addr config), LogListening (bind_addr config), Serve,
        LogSignal SIGTERM, LogDraining, ClosePool, WarnNotDrained, LogShutdownComplete]"
    using startup_order [of sample_platform] config answers by (simp add: Let_def)
  with config show ?thesis by blast
qed




text \<open>
  Minting stays an operator decision from the environment to the handlers: the state the routes run
  with allows funding accounts only if \<open>ALLOW_FUNDING_ACCOUNT_CREATION\<close> is set to exactly \<open>true\<close>.
\<close>

lemma funding_needs_opt_in:
  assumes "BuildApp st \<in> set (snd (main p))" and "st_allow_funding_account_creation st"
  shows "pf_env p ''ALLOW_FUNDING_ACCOUNT_CREATION'' = Value (lit ''true'')"
proof -
  obtain config where config: "from_env (pf_parse_addr p) (pf_env p) = Ok config" "st = state_of_config config"
    using assms(1)
    by (auto simp: main_def init_tracing_def serve_and_drain_def serve_await_def drain_def Let_def
        split: result.splits option.splits prod.splits if_splits)
  have "env_parse parse_bool (pf_env p) ''ALLOW_FUNDING_ACCOUNT_CREATION'' False =
      Ok (allow_funding_account_creation config)"
    using config(1) by (auto simp: from_env_def result_simps Let_def split: env_var.splits)
  then show ?thesis
    using assms(2) config(2) parse_bool_true
    by (auto simp: state_of_config_def env_parse_def result_simps split: env_var.splits)
qed

definition funding_platform :: "unit platform" where
  "funding_platform = sample_platform\<lparr>pf_env :=
     sample_env(''ALLOW_FUNDING_ACCOUNT_CREATION'' := Value (lit ''true''))\<rparr>"

lemma funding_needs_opt_in_example:
  "\<exists>st. BuildApp st \<in> set (snd (main funding_platform)) \<and> st_allow_funding_account_creation st \<and>
     pf_env funding_platform ''ALLOW_FUNDING_ACCOUNT_CREATION'' = Value (lit ''true'')"
proof -
  have "BuildApp \<lparr>st_allow_funding_account_creation = True\<rparr> \<in> set (snd (main funding_platform))"
    by (simp add: main_def funding_platform_def sample_platform_def from_env_def pool_from_env_def sample_env_def
        env_or_def env_secs_def env_parse_def validate_def serve_and_drain_def serve_await_def drain_def
        state_of_config_def parse_bool_def)
  with funding_needs_opt_in [OF this] show ?thesis
    by auto
qed

text \<open>
  C33: what a shutdown takes. After a signal the process waits for the requests under way for as long as
  they take, for ever if one does not end, and only then gives the pool at most the shutdown grace
  period to close. The grace period does not limit the requests.
\<close>

theorem shutdown_waits_for_requests:
  assumes "Serve \<in> set (snd (main p))" and "pf_serve p = None" and "shutdown_signal (pf_signals p) \<noteq> None"
  shows "(pf_requests_end p = None \<longrightarrow> fst (main p) = Running) \<and>
    (\<forall>q. pf_requests_end p = Some q \<longrightarrow>
      (\<exists>config t. from_env (pf_parse_addr p) (pf_env p) = Ok config \<and> fst (main p) = Exits (q + t) (Ok ()) \<and>
         t \<le> shutdown_grace config))"
proof (cases rule: main_cases [of p])
  case (1 config)
  obtain s where "shutdown_signal (pf_signals p) = Some s"
    using assms(3) by blast
  then show ?thesis
    using 1(1,5) assms(2) by (auto simp: serve_and_drain_def serve_await_def split_beta drain_le)
qed (use assms(1) in simp)

theorem shutdown_waits_for_requests_witness:
  "\<exists>config t. from_env (pf_parse_addr sample_platform) (pf_env sample_platform) = Ok config \<and>
     fst (main sample_platform) = Exits (300 + t) (Ok ()) \<and> t \<le> shutdown_grace config"
  using shutdown_waits_for_requests [OF sample_platform_serves(1)] by (simp add: sample_platform_def)

end
