(* ===== verification/Session_Steps.thy ===== *)
theory Session_Steps
  imports Transfer_Correctness
begin

text \<open>
  One attempt of \<open>execute_once\<close> as a session of the database, one statement at a time. \<open>advance\<close> runs
  the next statement against the rows committed at that moment and the session's own writes, as
  \<open>READ COMMITTED\<close> does. Run without interruption a session computes what \<open>execute_once\<close> computes;
  theory \<open>Concurrency\<close> interleaves sessions.
\<close>

section \<open>Sessions\<close>

datatype 'd pc =
    AtFind | AtClaim | AtLock1 | AtLock2 | AtAdjustFrom | AtAdjustTo | AtCredit | AtDebit | AtCommit
  | Stopped "(ledger_error, 'd transfer_result) result"

record 'd session =
  s_key :: str
  s_intent :: "'d transfer_intent"
  s_ev :: attempt
  s_pc :: "'d pc"
  s_log :: "write list"
  s_locked :: "uuid \<rightharpoonup> 'd AccountRow"

definition start :: "str \<Rightarrow> 'd transfer_intent \<Rightarrow> attempt \<Rightarrow> 'd session" where
  "start key intent ev =
     \<lparr>s_key = key, s_intent = intent, s_ev = ev, s_pc = AtFind, s_log = [], s_locked = Map.empty\<rparr>"

definition lock_order :: "'d session \<Rightarrow> uuid list" where
  "lock_order s = sort [from_account_id (s_intent s), to_account_id (s_intent s)]"

lemma lock_order_update [simp]:
  "lock_order (s\<lparr>s_pc := p\<rparr>) = lock_order s" "lock_order (s\<lparr>s_log := l\<rparr>) = lock_order s"
  "lock_order (s\<lparr>s_locked := m\<rparr>) = lock_order s"
  by (simp_all add: lock_order_def)

definition s_tx :: "db \<Rightarrow> 'd session \<Rightarrow> tx" where
  "s_tx d s = \<lparr>tx_base = d, tx_log = s_log s\<rparr>"

lemma s_tx_update [simp]: "s_tx d (s\<lparr>s_pc := p\<rparr>) = s_tx d s" "s_tx d (s\<lparr>s_locked := m\<rparr>) = s_tx d s"
  by (simp_all add: s_tx_def)

abbreviation s_hash :: "'d crates \<Rightarrow> 'd session \<Rightarrow> byte list" where
  "s_hash C s \<equiv> request_hash C (s_intent s)"

abbreviation s_amount :: "'d session \<Rightarrow> 'd" where
  "s_amount s \<equiv> m_amount (intent_amount (s_intent s))"

abbreviation s_currency :: "'d session \<Rightarrow> currency" where
  "s_currency s \<equiv> m_currency (intent_amount (s_intent s))"

text \<open>An error ends the attempt; the transaction is dropped with everything it wrote.\<close>

fun resume :: "'d session \<Rightarrow> (ledger_error, 'd session) result \<Rightarrow> 'd session" where
  "resume s (Ok s') = s'"
| "resume s (Err e) = s\<lparr>s_pc := Stopped (Err e)\<rparr>"
| "resume s Panic = s\<lparr>s_pc := Stopped Panic\<rparr>"

section \<open>Statements\<close>

definition find_step :: "'d crates \<Rightarrow> db \<Rightarrow> 'd session \<Rightarrow> 'd session" where
  "find_step C d s =
     resume s (and_then (find_by_idempotency_key NoFault (s_key s) d) (\<lambda>opt.
       case opt of
         Some record \<Rightarrow>
           Ok (s\<lparr>s_pc := Stopped (replay C (calm (s_ev s)) (s_key s) record (s_hash C s) d)\<rparr>)
       | None \<Rightarrow>
           if from_account_id (s_intent s) = to_account_id (s_intent s) then Err SelfTransfer
           else if \<not> is_positive C (intent_amount (s_intent s)) then Err NonPositiveAmount
           else Ok (s\<lparr>s_pc := AtClaim\<rparr>)))"

definition claim_step :: "'d crates \<Rightarrow> db \<Rightarrow> 'd session \<Rightarrow> 'd session" where
  "claim_step C d s =
     (case claim_key (calm (s_ev s)) (s_key s) (s_hash C s) (intent_description (s_intent s)) (s_tx d s) of
        Ok t \<Rightarrow> s\<lparr>s_pc := AtLock1, s_log := tx_log t\<rparr>
      | Err err \<Rightarrow>
          s\<lparr>s_pc := Stopped
            (if is_idempotency_key_collision err
             then lost_race C (calm (s_ev s)) (s_key s) (s_hash C s) d
             else Err (Database err))\<rparr>
      | Panic \<Rightarrow> s\<lparr>s_pc := Stopped Panic\<rparr>)"

definition lock_row :: "'d crates \<Rightarrow> uuid \<Rightarrow> db \<Rightarrow> 'd session \<Rightarrow> (ledger_error, 'd session) result" where
  "lock_row C i d s =
     and_then (fetch_for_update C NoFault i (tx_view (s_tx d s))) (\<lambda>opt.
     and_then (ok_or opt (AccountNotFound i)) (\<lambda>r.
     Ok (s\<lparr>s_locked := (s_locked s)(i \<mapsto> r)\<rparr>)))"

text \<open>Between the second lock and the first update the program only compares what it has read.\<close>

definition locked_checks :: "'d crates \<Rightarrow> 'd session \<Rightarrow> (ledger_error, unit) result" where
  "locked_checks C s =
     and_then (ok_or_panic (s_locked s (from_account_id (s_intent s)))) (\<lambda>from.
     and_then (ok_or_panic (s_locked s (to_account_id (s_intent s)))) (\<lambda>to.
     and_then (check_currencies [from, to] (s_currency s)) (\<lambda>_.
     if \<not> ar_allows_negative_balance from \<and> d_lt C (ar_balance from) (s_amount s)
     then Err (InsufficientFunds (ar_id from)) else Ok ())))"

definition lock1_step :: "'d crates \<Rightarrow> db \<Rightarrow> 'd session \<Rightarrow> 'd session" where
  "lock1_step C d s =
     resume s (and_then (lock_row C (lock_order s ! 0) d s) (\<lambda>s'. Ok (s'\<lparr>s_pc := AtLock2\<rparr>)))"

definition lock2_step :: "'d crates \<Rightarrow> db \<Rightarrow> 'd session \<Rightarrow> 'd session" where
  "lock2_step C d s =
     resume s (and_then (lock_row C (lock_order s ! 1) d s) (\<lambda>s'.
       and_then (locked_checks C s') (\<lambda>_. Ok (s'\<lparr>s_pc := AtAdjustFrom\<rparr>))))"

text \<open>A statement on the locked row of one of the two accounts.\<close>

definition row_step ::
  "'d session \<Rightarrow> uuid \<Rightarrow> ('d AccountRow \<Rightarrow> tx \<Rightarrow> (ledger_error, tx) result) \<Rightarrow> db \<Rightarrow> 'd pc \<Rightarrow> 'd session" where
  "row_step s i stmt d next =
     resume s (and_then (ok_or_panic (s_locked s i)) (\<lambda>r.
       and_then (stmt r (s_tx d s)) (\<lambda>t. Ok (s\<lparr>s_log := tx_log t, s_pc := next\<rparr>))))"

definition commit_step :: "'d crates \<Rightarrow> db \<Rightarrow> 'd session \<Rightarrow> 'd session \<times> db" where
  "commit_step C d s =
     (case tx_commit NoFault (s_tx d s) of
        (Err err, d') \<Rightarrow>
          (s\<lparr>s_pc := Stopped (Err (commit_error (from_account_id (s_intent s)) err))\<rparr>, d')
      | (Panic, d') \<Rightarrow> (s\<lparr>s_pc := Stopped Panic\<rparr>, d')
      | (Ok _, d') \<Rightarrow>
          (s\<lparr>s_pc := Stopped
             (and_then (transactions_get C NoFault NoFault (at_txn_id (s_ev s)) d')
                (\<lambda>detail. Ok \<lparr>res_outcome = Created, res_detail = detail\<rparr>))\<rparr>, d'))"

definition advance :: "'d crates \<Rightarrow> db \<Rightarrow> 'd session \<Rightarrow> 'd session \<times> db" where
  "advance C d s =
     (let from = from_account_id (s_intent s); to = to_account_id (s_intent s); ev = calm (s_ev s) in
      case s_pc s of
        AtFind \<Rightarrow> (find_step C d s, d)
      | AtClaim \<Rightarrow> (claim_step C d s, d)
      | AtLock1 \<Rightarrow> (lock1_step C d s, d)
      | AtLock2 \<Rightarrow> (lock2_step C d s, d)
      | AtAdjustFrom \<Rightarrow>
          (row_step s from (\<lambda>r. adjust_balance C NoFault (ar_id r) (d_neg C (s_amount s))) d AtAdjustTo, d)
      | AtAdjustTo \<Rightarrow>
          (row_step s to (\<lambda>r. adjust_balance C NoFault (ar_id r) (s_amount s)) d AtCredit, d)
      | AtCredit \<Rightarrow>
          (row_step s from (\<lambda>r. insert_entry C ev NoFault (at_credit_id ev) (at_txn_id ev) (ar_id r) Credit
             (s_amount s) (s_currency s)) d AtDebit, d)
      | AtDebit \<Rightarrow>
          (row_step s to (\<lambda>r. insert_entry C ev NoFault (at_debit_id ev) (at_txn_id ev) (ar_id r) Debit
             (s_amount s) (s_currency s)) d AtCommit, d)
      | AtCommit \<Rightarrow> commit_step C d s
      | Stopped _ \<Rightarrow> (s, d))"

section \<open>A session on its own\<close>

inductive finishes ::
  "'d crates \<Rightarrow> 'd session \<Rightarrow> db \<Rightarrow> (ledger_error, 'd transfer_result) result \<Rightarrow> db \<Rightarrow> bool"
  for C where
  halt: "s_pc s = Stopped r \<Longrightarrow> finishes C s d r d"
| more: "(\<And>r. s_pc s \<noteq> Stopped r) \<Longrightarrow> advance C d s = (s', d') \<Longrightarrow> finishes C s' d' r d'' \<Longrightarrow>
    finishes C s d r d''"

inductive_cases finishesE: "finishes C s d r e"

lemma finishes_Stopped: "s_pc s = Stopped q \<Longrightarrow> finishes C s d r e \<longleftrightarrow> r = q \<and> e = d"
  by (auto intro: finishes.halt elim: finishesE)

lemma finishes_step:
  assumes "\<And>q. s_pc s \<noteq> Stopped q" and "advance C d s = (s', d')"
  shows "finishes C s d r e \<longleftrightarrow> finishes C s' d' r e"
proof
  assume "finishes C s d r e"
  then show "finishes C s' d' r e"
    by (rule finishesE) (use assms in simp_all)
qed (rule finishes.more [OF assms])

text \<open>What remains of \<open>execute_once\<close> after the body of the transfer.\<close>

definition close ::
  "'d crates \<Rightarrow> uuid \<Rightarrow> db \<Rightarrow> (ledger_error, uuid \<times> tx) result \<Rightarrow>
   (ledger_error, 'd transfer_result) result \<times> db" where
  "close C tid d body =
     (case body of
        Panic \<Rightarrow> (Panic, d)
      | Err e \<Rightarrow> (Err e, d)
      | Ok (from_id, t) \<Rightarrow>
          (case tx_commit NoFault t of
             (Err err, d') \<Rightarrow> (Err (commit_error from_id err), d')
           | (Panic, d') \<Rightarrow> (Panic, d')
           | (Ok _, d') \<Rightarrow>
               (and_then (transactions_get C NoFault NoFault tid d')
                  (\<lambda>detail. Ok \<lparr>res_outcome = Created, res_detail = detail\<rparr>), d')))"

lemma close_fail [simp]: "close C tid d (Err x) = (Err x, d)" "close C tid d Panic = (Panic, d)"
  by (simp_all add: close_def)

lemma close_and_then:
  "close C tid d (and_then r f) =
     (case r of Panic \<Rightarrow> (Panic, d) | Err e \<Rightarrow> (Err e, d) | Ok x \<Rightarrow> close C tid d (f x))"
  by (cases r) (simp_all add: close_def)

lemma finishes_commit:
  "s_pc s = AtCommit \<Longrightarrow> finishes C s d r e \<longleftrightarrow>
     close C (at_txn_id (s_ev s)) d (Ok (from_account_id (s_intent s), s_tx d s)) = (r, e)"
  by (cases "tx_commit NoFault (s_tx d s)"; cases "fst (tx_commit NoFault (s_tx d s))")
     (auto simp: finishes_step advance_def commit_step_def close_def finishes_Stopped)

lemma finishes_row_step:
  assumes "advance C d s = (row_step s i stmt d nxt, d)" and "\<And>q. s_pc s \<noteq> Stopped q"
    and "s_locked s i = Some q" and "\<And>t. stmt q (s_tx d s) = Ok t \<Longrightarrow> tx_base t = d"
    and "\<And>l. finishes C (s\<lparr>s_log := l, s_pc := nxt\<rparr>) d r e \<longleftrightarrow>
      close C tid d (k \<lparr>tx_base = d, tx_log = l\<rparr>) = (r, e)"
  shows "finishes C s d r e \<longleftrightarrow> close C tid d (and_then (stmt q (s_tx d s)) k) = (r, e)"
proof (cases "stmt q (s_tx d s)")
  case (Ok t)
  then have "t = \<lparr>tx_base = d, tx_log = tx_log t\<rparr>"
    using assms(4) by (cases t) simp
  with Ok show ?thesis
    using assms(3) assms(5) [of "tx_log t"] unfolding finishes_step [OF assms(2,1)]
    by (simp add: row_step_def close_and_then)
qed (use assms(3) in \<open>auto simp: finishes_step [OF assms(2,1)] row_step_def close_and_then finishes_Stopped\<close>)

lemma adjust_balance_base: "adjust_balance C f i x t = Ok t' \<Longrightarrow> tx_base t' = tx_base t"
  unfolding adjust_balance_def using tx_exec_base by (auto simp: result_simps)

lemma insert_entry_base: "insert_entry C ev f a b c dir x cur t = Ok t' \<Longrightarrow> tx_base t' = tx_base t"
  unfolding insert_entry_def using tx_exec_base by (auto simp: result_simps)

lemma s_tx_base [simp]: "tx_base (s_tx d s) = d"
  by (simp add: s_tx_def)

text \<open>The statements after the locks, as the program chains them.\<close>

definition debit_rest where
  "debit_rest C ev intent f g t =
     and_then (insert_entry C (calm ev) NoFault (at_debit_id ev) (at_txn_id ev) (ar_id g)
       Debit (m_amount (intent_amount intent)) (m_currency (intent_amount intent)) t) (\<lambda>t. Ok (ar_id f, t))"

definition credit_rest where
  "credit_rest C ev intent f g t =
     and_then (insert_entry C (calm ev) NoFault (at_credit_id ev) (at_txn_id ev) (ar_id f)
       Credit (m_amount (intent_amount intent)) (m_currency (intent_amount intent)) t)
       (debit_rest C ev intent f g)"

definition to_rest where
  "to_rest C ev intent f g t =
     and_then (adjust_balance C NoFault (ar_id g) (m_amount (intent_amount intent)) t)
       (credit_rest C ev intent f g)"

definition from_rest where
  "from_rest C ev intent f g t =
     and_then (adjust_balance C NoFault (ar_id f) (d_neg C (m_amount (intent_amount intent))) t)
       (to_rest C ev intent f g)"

definition locked_rest where
  "locked_rest C ev intent locked t =
     and_then (ok_or_panic (locked (from_account_id intent))) (\<lambda>f.
     and_then (ok_or_panic (locked (to_account_id intent))) (\<lambda>g.
     and_then (check_currencies [f, g] (m_currency (intent_amount intent))) (\<lambda>_.
     if \<not> ar_allows_negative_balance f \<and> d_lt C (ar_balance f) (m_amount (intent_amount intent))
     then Err (InsufficientFunds (ar_id f)) else from_rest C ev intent f g t)))"

abbreviation fetched where
  "fetched C i d \<equiv>
     and_then (fetch_for_update C NoFault i d) (\<lambda>opt. ok_or opt (AccountNotFound i))"

lemmas rest_defs = debit_rest_def credit_rest_def to_rest_def from_rest_def locked_rest_def

definition locked_pair where
  "locked_pair s f g \<longleftrightarrow> s_locked s (from_account_id (s_intent s)) = Some f \<and>
     s_locked s (to_account_id (s_intent s)) = Some g \<and> ar_id f = from_account_id (s_intent s)"

lemma locked_pair_update [simp]: "locked_pair (s\<lparr>s_log := l, s_pc := p\<rparr>) f g \<longleftrightarrow> locked_pair s f g"
  by (simp add: locked_pair_def)

lemma finishes_debit:
  assumes "s_pc s = AtDebit" and "locked_pair s f g"
  shows "finishes C s d r e \<longleftrightarrow>
    close C (at_txn_id (s_ev s)) d (debit_rest C (s_ev s) (s_intent s) f g (s_tx d s)) = (r, e)"
  unfolding debit_rest_def
  by (rule finishes_row_step [where i = "to_account_id (s_intent s)" and nxt = AtCommit and q = g and
        stmt = "\<lambda>q. insert_entry C (calm (s_ev s)) NoFault (at_debit_id (s_ev s)) (at_txn_id (s_ev s)) (ar_id q)
          Debit (s_amount s) (s_currency s)"])
     (use assms in \<open>auto simp: advance_def locked_pair_def finishes_commit s_tx_def dest: insert_entry_base\<close>)

lemma finishes_credit:
  assumes "s_pc s = AtCredit" and "locked_pair s f g"
  shows "finishes C s d r e \<longleftrightarrow>
    close C (at_txn_id (s_ev s)) d (credit_rest C (s_ev s) (s_intent s) f g (s_tx d s)) = (r, e)"
  unfolding credit_rest_def
  by (rule finishes_row_step [where i = "from_account_id (s_intent s)" and nxt = AtDebit and q = f and
        stmt = "\<lambda>q. insert_entry C (calm (s_ev s)) NoFault (at_credit_id (s_ev s)) (at_txn_id (s_ev s)) (ar_id q)
          Credit (s_amount s) (s_currency s)"])
     (use assms in \<open>auto simp: advance_def locked_pair_def [of s] finishes_debit s_tx_def dest: insert_entry_base\<close>)

lemma finishes_to:
  assumes "s_pc s = AtAdjustTo" and "locked_pair s f g"
  shows "finishes C s d r e \<longleftrightarrow>
    close C (at_txn_id (s_ev s)) d (to_rest C (s_ev s) (s_intent s) f g (s_tx d s)) = (r, e)"
  unfolding to_rest_def
  by (rule finishes_row_step [where i = "to_account_id (s_intent s)" and nxt = AtCredit and q = g and
        stmt = "\<lambda>q. adjust_balance C NoFault (ar_id q) (s_amount s)"])
     (use assms in \<open>auto simp: advance_def locked_pair_def [of s] finishes_credit s_tx_def dest: adjust_balance_base\<close>)

lemma finishes_from:
  assumes "s_pc s = AtAdjustFrom" and "locked_pair s f g"
  shows "finishes C s d r e \<longleftrightarrow>
    close C (at_txn_id (s_ev s)) d (from_rest C (s_ev s) (s_intent s) f g (s_tx d s)) = (r, e)"
  unfolding from_rest_def
  by (rule finishes_row_step [where i = "from_account_id (s_intent s)" and nxt = AtAdjustTo and q = f and
        stmt = "\<lambda>q. adjust_balance C NoFault (ar_id q) (d_neg C (s_amount s))"])
     (use assms in \<open>auto simp: advance_def locked_pair_def [of s] finishes_to s_tx_def dest: adjust_balance_base\<close>)

lemma fetched_id: "fetched C i d = Ok r \<Longrightarrow> ar_id r = i"
  by (auto simp: fetch_for_update_def account_row_def decode_account_def result_simps dest: row_Some)

lemma lock_row_fetched:
  "lock_row C i d s =
     and_then (fetched C i (tx_view (s_tx d s))) (\<lambda>r. Ok (s\<lparr>s_locked := (s_locked s)(i \<mapsto> r)\<rparr>))"
  by (simp add: lock_row_def and_then_assoc)

lemma lock_order_pair: "lock_order s = [lock_order s ! 0, lock_order s ! 1]"
  by (simp add: lock_order_def)

lemma lock_order_cases:
  "lock_order s ! 0 = from_account_id (s_intent s) \<and> lock_order s ! 1 = to_account_id (s_intent s) \<or>
   lock_order s ! 0 = to_account_id (s_intent s) \<and> lock_order s ! 1 = from_account_id (s_intent s)"
  by (simp add: lock_order_def)

lemma finishes_lock2:
  assumes "s_pc s = AtLock2" and "s_locked s = [lock_order s ! 0 \<mapsto> q]" and "ar_id q = lock_order s ! 0"
  shows "finishes C s d r e \<longleftrightarrow>
    close C (at_txn_id (s_ev s)) d
      (and_then (fetched C (lock_order s ! 1) (tx_view (s_tx d s))) (\<lambda>p.
         locked_rest C (s_ev s) (s_intent s) ((s_locked s)(lock_order s ! 1 \<mapsto> p)) (s_tx d s))) = (r, e)"
proof (cases "fetched C (lock_order s ! 1) (tx_view (s_tx d s))")
  case (Ok p)
  define s' where "s' = s\<lparr>s_locked := (s_locked s)(lock_order s ! 1 \<mapsto> p)\<rparr>"
  have "\<exists>f. s_locked s' (from_account_id (s_intent s)) = Some f \<and> ar_id f = from_account_id (s_intent s)"
    "\<exists>g. s_locked s' (to_account_id (s_intent s)) = Some g"
    using lock_order_cases [of s] fetched_id [OF Ok] assms(2,3) by (auto simp: s'_def)
  then obtain f g where fg: "s_locked s' (from_account_id (s_intent s)) = Some f"
    "s_locked s' (to_account_id (s_intent s)) = Some g" "ar_id f = from_account_id (s_intent s)"
    by blast
  have "finishes C s d r e \<longleftrightarrow>
      finishes C (resume s (and_then (locked_checks C s') (\<lambda>_. Ok (s'\<lparr>s_pc := AtAdjustFrom\<rparr>)))) d r e"
    using assms(1) Ok by (subst finishes_step) (auto simp: advance_def lock2_step_def lock_row_fetched s'_def)
  also have "\<dots> \<longleftrightarrow> close C (at_txn_id (s_ev s)) d
      (locked_rest C (s_ev s) (s_intent s) (s_locked s') (s_tx d s)) = (r, e)"
    using fg finishes_from [of "s'\<lparr>s_pc := AtAdjustFrom\<rparr>" f g C d r e]
    by (cases "check_currencies [f, g] (s_currency s)")
       (auto simp: locked_checks_def locked_rest_def locked_pair_def close_and_then s_tx_def s'_def
         finishes_Stopped simp del: check_currencies.simps)
  finally show ?thesis
    unfolding Ok by (simp add: s'_def)
qed (use assms(1) in \<open>auto simp: finishes_step advance_def lock2_step_def lock_row_fetched finishes_Stopped\<close>)

lemma transfer_body_rest:
  "transfer_body C (calm ev) intent t =
     and_then (lock_accounts C (calm ev)
         (zip [LockFirst, LockSecond] (sort [from_account_id intent, to_account_id intent]))
         (tx_view t) Map.empty)
       (\<lambda>locked. locked_rest C ev intent locked t)"
  unfolding transfer_body_def rest_defs [abs_def] Let_def calm_simps ..

lemma lock_accounts_pair:
  "lock_accounts C (calm ev) (zip [LockFirst, LockSecond] [a, b]) d Map.empty =
     and_then (fetched C a d) (\<lambda>q. and_then (fetched C b d) (\<lambda>p. Ok ((Map.empty(a \<mapsto> q))(b \<mapsto> p))))"
  by (simp add: and_then_assoc [symmetric])

lemma finishes_lock1:
  assumes "s_pc s = AtLock1" and "s_locked s = Map.empty"
  shows "finishes C s d r e \<longleftrightarrow>
    close C (at_txn_id (s_ev s)) d (transfer_body C (calm (s_ev s)) (s_intent s) (s_tx d s)) = (r, e)"
proof -
  let ?v = "tx_view (s_tx d s)" and ?a = "lock_order s ! 0" and ?b = "lock_order s ! 1"
  have body: "transfer_body C (calm (s_ev s)) (s_intent s) (s_tx d s) =
      and_then (fetched C ?a ?v) (\<lambda>q. and_then (fetched C ?b ?v) (\<lambda>p.
        locked_rest C (s_ev s) (s_intent s) ((Map.empty(?a \<mapsto> q))(?b \<mapsto> p)) (s_tx d s)))"
    unfolding transfer_body_rest lock_order_def [symmetric]
    by (subst (1) lock_order_pair) (simp only: lock_accounts_pair and_then_assoc [symmetric] and_then.simps)
  show ?thesis
  proof (cases "fetched C ?a ?v")
    case (Ok q)
    have "finishes C s d r e \<longleftrightarrow> finishes C (s\<lparr>s_locked := [?a \<mapsto> q], s_pc := AtLock2\<rparr>) d r e"
      using assms Ok by (subst finishes_step) (auto simp: advance_def lock1_step_def lock_row_fetched)
    then show ?thesis
      using finishes_lock2 [of "s\<lparr>s_locked := [?a \<mapsto> q], s_pc := AtLock2\<rparr>" q C d r e] fetched_id [OF Ok]
      unfolding body Ok by simp
  qed (use assms(1) in \<open>auto simp: body finishes_step advance_def lock1_step_def lock_row_fetched
      finishes_Stopped\<close>)
qed

lemma execute_tx_close:
  "execute_tx C (calm ev) key intent hash d =
     (case claim_key (calm ev) key hash (intent_description intent) \<lparr>tx_base = d, tx_log = []\<rparr> of
        Panic \<Rightarrow> (Panic, d)
      | Err err \<Rightarrow>
          if is_idempotency_key_collision err then (lost_race C (calm ev) key hash d, d)
          else (Err (Database err), d)
      | Ok t \<Rightarrow> close C (at_txn_id ev) d (transfer_body C (calm ev) intent t))"
  by (simp add: execute_tx_def close_def split: result.split prod.split)

lemma claim_key_base: "claim_key ev key hash descr t = Ok t' \<Longrightarrow> tx_base t' = tx_base t"
  unfolding claim_key_def by (rule tx_exec_base)

lemma finishes_claim:
  assumes "s_pc s = AtClaim" and "s_log s = []" and "s_locked s = Map.empty"
  shows "finishes C s d r e \<longleftrightarrow>
    execute_tx C (calm (s_ev s)) (s_key s) (s_intent s) (s_hash C s) d = (r, e)"
proof -
  have tx: "s_tx d s = \<lparr>tx_base = d, tx_log = []\<rparr>"
    using assms(2) by (simp add: s_tx_def)
  show ?thesis
  proof (cases "claim_key (calm (s_ev s)) (s_key s) (s_hash C s) (intent_description (s_intent s))
      \<lparr>tx_base = d, tx_log = []\<rparr>")
    case (Ok t)
    then have "t = \<lparr>tx_base = d, tx_log = tx_log t\<rparr>"
      using claim_key_base by (cases t) fastforce
    moreover have "finishes C s d r e \<longleftrightarrow> finishes C (s\<lparr>s_pc := AtLock1, s_log := tx_log t\<rparr>) d r e"
      using assms(1) Ok by (subst finishes_step) (auto simp: advance_def claim_step_def tx)
    ultimately show ?thesis
      using Ok assms(3) finishes_lock1 [of "s\<lparr>s_pc := AtLock1, s_log := tx_log t\<rparr>" C d r e]
      by (simp add: execute_tx_close s_tx_def)
  qed (use assms(1) in \<open>auto simp: execute_tx_close finishes_step advance_def claim_step_def tx finishes_Stopped\<close>)
qed

text \<open>An attempt whose calls all succeed, with \<open>race\<close> as what the other sessions commit meanwhile.\<close>

definition raced :: "(db \<Rightarrow> db) \<Rightarrow> attempt \<Rightarrow> attempt" where
  "raced race ev = (calm ev)\<lparr>at_race := race\<rparr>"

lemma raced_simps [simp]:
  "at_fault (raced race ev) c = NoFault" "at_xid (raced race ev) = at_xid ev" "at_now (raced race ev) = at_now ev"
  "at_txn_id (raced race ev) = at_txn_id ev" "at_credit_id (raced race ev) = at_credit_id ev"
  "at_debit_id (raced race ev) = at_debit_id ev" "at_race (raced race ev) = race"
  by (simp_all add: raced_def)

lemma lock_accounts_raced: "lock_accounts C (raced race ev) ids d locked = lock_accounts C (calm ev) ids d locked"
  by (induction C "calm ev" ids d locked rule: lock_accounts.induct) simp_all

lemma raced_cong:
  "replay C (raced race ev) = replay C (calm ev)" "execute_tx C (raced race ev) = execute_tx C (calm ev)"
proof -
  have calls: "claim_key (raced race ev) = claim_key (calm ev)" "insert_entry C (raced race ev) = insert_entry C (calm ev)"
    "replay C (raced race ev) = replay C (calm ev)"
    by (simp_all add: fun_eq_iff claim_key_def insert_entry_def replay_def)
  have lost: "lost_race C (raced race ev) = lost_race C (calm ev)"
    by (simp add: fun_eq_iff lost_race_def calls)
  have body: "transfer_body C (raced race ev) = transfer_body C (calm ev)"
    by (rule ext)+ (unfold transfer_body_def Let_def lock_accounts_raced calls raced_simps calm_simps, rule refl)
  show "replay C (raced race ev) = replay C (calm ev)"
    by (rule calls)
  show "execute_tx C (raced race ev) = execute_tx C (calm ev)"
    by (rule ext)+ (unfold execute_tx_def calls lost body raced_simps calm_simps, rule refl)
qed

lemma finishes_start:
  "finishes C (start key intent ev) d r e \<longleftrightarrow> execute_once C (raced id ev) key intent d = (r, e)"
  using finishes_claim [of "(start key intent ev)\<lparr>s_pc := AtClaim\<rparr>" C d r e]
  by (cases "find_by_idempotency_key NoFault key d")
     (auto simp: execute_once_def finishes_step advance_def find_step_def start_def finishes_Stopped
       Let_def raced_cong split: option.split)

end
