(* ===== verification/Session_Stages.thy ===== *)
theory Session_Stages
  imports Session_Steps
begin

text \<open>
  Where a session can be. Between two of its statements a session is determined by its request and
  the committed rows: \<open>stage\<close> computes the log and the locked rows it has then, \<open>guard\<close> is what it has
  checked to get there. Every statement leads from one stage to the next or ends the attempt
  (\<open>moves\<close>), and a change by another session that leaves the locked rows and the claimed key alone
  leaves the stage alone (\<open>stage_frame\<close>).
\<close>

section \<open>Stages\<close>

fun rank :: "'d pc \<Rightarrow> nat" where
  "rank AtFind = 0" | "rank AtClaim = 1" | "rank AtLock1 = 2" | "rank AtLock2 = 3"
| "rank AtAdjustFrom = 4" | "rank AtAdjustTo = 5" | "rank AtCredit = 6" | "rank AtDebit = 7"
| "rank AtCommit = 8" | "rank (Stopped r) = 9"

text \<open>How many of its five writes a session has made.\<close>

fun written :: "'d pc \<Rightarrow> nat" where
  "written AtLock1 = 1" | "written AtLock2 = 1" | "written AtAdjustFrom = 1" | "written AtAdjustTo = 2"
| "written AtCredit = 3" | "written AtDebit = 4" | "written AtCommit = 5" | "written _ = 0"

text \<open>The rows it has locked, and whether its claim of the key is still uncommitted.\<close>

fun holds_at :: "'d pc \<Rightarrow> uuid list \<Rightarrow> uuid set" where
  "holds_at AtLock2 ids = {ids ! 0}" | "holds_at AtAdjustFrom ids = set ids"
| "holds_at AtAdjustTo ids = set ids" | "holds_at AtCredit ids = set ids"
| "holds_at AtDebit ids = set ids" | "holds_at AtCommit ids = set ids" | "holds_at _ ids = {}"

definition holds :: "'d session \<Rightarrow> uuid set" where
  "holds s = holds_at (s_pc s) (lock_order s)"

definition active :: "'d pc \<Rightarrow> bool" where
  "active p \<longleftrightarrow> 2 \<le> rank p \<and> rank p \<le> 8"

definition held_rows :: "'d crates \<Rightarrow> db \<Rightarrow> uuid set \<Rightarrow> uuid \<rightharpoonup> 'd AccountRow" where
  "held_rows C d ids i = (if i \<in> ids then map_option (decode_account C) (account_row d i) else None)"

definition stage :: "'d crates \<Rightarrow> db \<Rightarrow> 'd session \<Rightarrow> 'd pc \<Rightarrow> 'd session" where
  "stage C d s p =
     s\<lparr>s_pc := p, s_log := take (written p) (post_writes C (s_ev s) (s_key s) (s_intent s) d),
       s_locked := held_rows C d (holds_at p (lock_order s))\<rparr>"

definition sensible :: "'d crates \<Rightarrow> 'd session \<Rightarrow> bool" where
  "sensible C s \<longleftrightarrow> from_account_id (s_intent s) \<noteq> to_account_id (s_intent s) \<and> 0 < intent_units C (s_intent s)"

definition claimed :: "'d crates \<Rightarrow> db \<Rightarrow> 'd session \<Rightarrow> bool" where
  "claimed C d s \<longleftrightarrow> sensible C s \<and> text_ok (s_key s) \<and> text_ok (intent_description (s_intent s)) \<and>
     key_row d (s_key s) = None"

definition funded :: "'d crates \<Rightarrow> db \<Rightarrow> 'd session \<Rightarrow> bool" where
  "funded C d s \<longleftrightarrow>
     (case (account_row d (from_account_id (s_intent s)), account_row d (to_account_id (s_intent s))) of
        (Some f, Some g) \<Rightarrow>
          a_currency f = as_str (s_currency s) \<and> a_currency g = as_str (s_currency s) \<and>
          (a_allows_negative_balance f \<or> intent_units C (s_intent s) \<le> a_balance f)
      | _ \<Rightarrow> False)"

definition room_from :: "'d crates \<Rightarrow> db \<Rightarrow> 'd session \<Rightarrow> bool" where
  "room_from C d s \<longleftrightarrow> \<bar>balance_of d (from_account_id (s_intent s)) - intent_units C (s_intent s)\<bar> < 10 ^ 20"

definition room_to :: "'d crates \<Rightarrow> db \<Rightarrow> 'd session \<Rightarrow> bool" where
  "room_to C d s \<longleftrightarrow> \<bar>balance_of d (to_account_id (s_intent s)) + intent_units C (s_intent s)\<bar> < 10 ^ 20"

fun guard :: "'d crates \<Rightarrow> db \<Rightarrow> 'd session \<Rightarrow> 'd pc \<Rightarrow> bool" where
  "guard C d s AtFind = True"
| "guard C d s AtClaim = sensible C s"
| "guard C d s AtLock1 = claimed C d s"
| "guard C d s AtLock2 \<longleftrightarrow> claimed C d s \<and> account_row d (lock_order s ! 0) \<noteq> None"
| "guard C d s AtAdjustFrom \<longleftrightarrow> claimed C d s \<and> funded C d s"
| "guard C d s AtAdjustTo \<longleftrightarrow> claimed C d s \<and> funded C d s \<and> room_from C d s"
| "guard C d s (Stopped r) = False"
| "guard C d s p \<longleftrightarrow> claimed C d s \<and> funded C d s \<and> room_from C d s \<and> room_to C d s"

fun next_pc :: "'d pc \<Rightarrow> 'd pc" where
  "next_pc AtFind = AtClaim" | "next_pc AtClaim = AtLock1" | "next_pc AtLock1 = AtLock2"
| "next_pc AtLock2 = AtAdjustFrom" | "next_pc AtAdjustFrom = AtAdjustTo" | "next_pc AtAdjustTo = AtCredit"
| "next_pc AtCredit = AtDebit" | "next_pc AtDebit = AtCommit" | "next_pc p = p"

text \<open>The next statement either completes, or fails and ends the attempt with the rows as they were.\<close>

definition moves :: "'d crates \<Rightarrow> db \<Rightarrow> 'd session \<Rightarrow> 'd pc \<Rightarrow> 'd pc \<Rightarrow> bool" where
  "moves C d s p q \<longleftrightarrow>
     (if guard C d s q then advance C d (stage C d s p) = (stage C d s q, d)
      else \<exists>r. advance C d (stage C d s p) = ((stage C d s p)\<lparr>s_pc := Stopped r\<rparr>, d))"

text \<open>What every running session may assume: the identifiers it drew are its own.\<close>

definition unused :: "db \<Rightarrow> attempt \<Rightarrow> bool" where
  "unused d ev \<longleftrightarrow> transaction_row d (at_txn_id ev) = None \<and> fresh_entry_ids ev d \<and>
     at_xid ev \<notin> t_created_xid ` set (transactions d)"

lemma stage_simps [simp]:
  "s_pc (stage C d s p) = p" "s_key (stage C d s p) = s_key s" "s_intent (stage C d s p) = s_intent s"
  "s_ev (stage C d s p) = s_ev s" "lock_order (stage C d s p) = lock_order s"
  "stage C d (stage C e s q) p = stage C d s p"
  by (simp_all add: stage_def lock_order_def)

lemma guard_accepts:
  assumes "rank AtCredit \<le> rank p" and "guard C d s p" and "unused d (s_ev s)"
  shows "accepts C (s_ev s) (s_key s) (s_intent s) d"
  using assms
  by (cases p) (auto simp: accepts_def unused_def claimed_def sensible_def funded_def room_from_def
      room_to_def balance_of_def intent_check_def transfer_check_def split: option.splits)

lemma funded_cong:
  assumes "s_intent s' = s_intent s"
  shows "funded C d s' = funded C d s"
  unfolding funded_def assms ..

lemma guard_stage [simp]: "guard C d (stage C e s q) p = guard C d s p"
  by (cases p) (simp_all add: claimed_def sensible_def funded_cong [of "stage C e s q" s] room_from_def room_to_def)

lemma guard_rows:
  assumes "funded C d s"
  obtains f g where "account_row d (from_account_id (s_intent s)) = Some f"
    and "account_row d (to_account_id (s_intent s)) = Some g"
    and "a_currency f = as_str (s_currency s)" and "a_currency g = as_str (s_currency s)"
    and "a_allows_negative_balance f \<or> intent_units C (s_intent s) \<le> a_balance f"
  using assms by (auto simp: funded_def split: option.splits)

lemma set_lock_order: "set (lock_order s) = {from_account_id (s_intent s), to_account_id (s_intent s)}"
  by (auto simp: lock_order_def)

section \<open>The view of a session\<close>

lemma stage_tx:
  "s_tx d (stage C d s p) =
     \<lparr>tx_base = d, tx_log = take (written p) (post_writes C (s_ev s) (s_key s) (s_intent s) d)\<rparr>"
  by (simp add: stage_def s_tx_def)

lemma stage_view_claim:
  "written p = 1 \<Longrightarrow> tx_view (s_tx d (stage C d s p)) =
     apply_write (InsertTransaction (claim_row C (s_ev s) (s_key s) (s_intent s))) d"
  by (simp add: stage_tx tx_view_def post_writes_def)

lemma held_pair:
  assumes "holds_at p (lock_order s) = set (lock_order s)"
    and "account_row d (from_account_id (s_intent s)) = Some f"
    and "account_row d (to_account_id (s_intent s)) = Some g"
  shows "s_locked (stage C d s p) (from_account_id (s_intent s)) = Some (decode_account C f)"
    and "s_locked (stage C d s p) (to_account_id (s_intent s)) = Some (decode_account C g)"
  using assms by (simp_all add: stage_def held_rows_def set_lock_order)

lemma decode_id: "account_row d i = Some r \<Longrightarrow> ar_id (decode_account C r) = i"
  using row_Some unfolding account_row_def decode_account_def by fastforce

lemma fetched_eval:
  "fetched C i d = (case account_row d i of
     None \<Rightarrow> Err (AccountNotFound i) | Some r \<Rightarrow> Ok (decode_account C r))"
  by (simp add: fetch_for_update_def split: option.split)

text \<open>The database transaction of a stage, as the claim followed by the first writes of the body.\<close>

lemma post_body_claim: "post_body C ev intent (apply_write (InsertTransaction r) d) = post_body C ev intent d"
  by (simp add: post_body_def balance_of_def table_simps)

lemma stage_posted:
  assumes "written p = Suc n"
  shows "s_tx d (stage C d s p) =
    posted n C (s_ev s) (s_intent s) (s_tx d (stage C d s AtAdjustFrom))"
  using assms by (simp add: stage_tx posted_def tx_view_def post_writes_def post_body_claim)

text \<open>A statement on a locked row, at a stage.\<close>

lemma moves_row:
  assumes "advance C d (stage C d s p) = (row_step (stage C d s p) i stmt d p', d)"
    and "s_locked (stage C d s p) i = Some q"
    and "stmt q (s_tx d (stage C d s p)) = (if guard C d s p' then Ok (s_tx d (stage C d s p')) else Err x)"
    and "holds_at p' (lock_order s) = holds_at p (lock_order s)"
  shows "moves C d s p p'"
  unfolding moves_def assms(1) row_step_def assms(2) using assms(3,4)
  by (auto simp: stage_tx) (simp add: stage_def)

section \<open>From stage to stage\<close>

context crate_contracts
begin

lemma claim_constraints:
  assumes "constraints d" and "unused d (s_ev s)" and "claimed C d s" and "written p = 1"
  shows "constraints (tx_view (s_tx d (stage C d s p)))"
  unfolding stage_view_claim [OF assms(4)]
  by (rule constraints_write [OF assms(1)])
     (use assms(2,3) hash_length in \<open>simp add: claim_row_def unused_def claimed_def\<close>)

lemma moves_find:
  assumes "constraints d" and "money_ok C (intent_amount (s_intent s))" and "key_row d (s_key s) = None"
  shows "moves C d s AtFind AtClaim"
  using assms units_val(4) [OF assms(2)]
  by (auto simp: moves_def advance_def find_step_def sensible_def find_by_idempotency_key_def)
     (auto simp: stage_def held_rows_def)

lemma moves_claim:
  assumes "unused d (s_ev s)" and "sensible C s"
  shows "moves C d s AtClaim AtLock1"
  using assms
  unfolding moves_def advance_def Let_def stage_simps pc.case claim_step_def stage_tx written.simps
    take_0 claim_key_calm
  by (auto simp: claimed_def unused_def) (simp_all add: stage_def post_writes_def)

lemma moves_lock1:
  assumes "claimed C d s"
  shows "moves C d s AtLock1 AtLock2"
  using assms
  by (cases "account_row d (lock_order s ! 0)")
     (auto simp: moves_def advance_def lock1_step_def lock_row_fetched stage_view_claim fetched_eval table_simps,
      simp_all add: stage_def held_rows_def fun_eq_iff)

lemma locked_checks_eval:
  assumes "constraints d" and "money_ok C (intent_amount (s_intent s))"
    and f: "account_row d (from_account_id (s_intent s)) = Some f"
    and g: "account_row d (to_account_id (s_intent s)) = Some g"
    and "s_locked s (from_account_id (s_intent s)) = Some (decode_account C f)"
    and "s_locked s (to_account_id (s_intent s)) = Some (decode_account C g)"
  shows "(locked_checks C s = Ok () \<longleftrightarrow> funded C d s) \<and> locked_checks C s \<noteq> Panic"
proof -
  have low: "d_lt C (ar_balance (decode_account C f)) (s_amount s) \<longleftrightarrow> a_balance f < intent_units C (s_intent s)"
    using balance_lt_units [OF assms(2)] constraints_account_row [OF assms(1) f] by simp
  have cur: "ar_currency (decode_account C r) = s_currency s \<longleftrightarrow> a_currency r = as_str (s_currency s)" for r
    by (cases "s_currency s") (simp add: decode_account_def)
  show ?thesis
    unfolding locked_checks_def assms(5,6) funded_def f g
    by (auto simp: low cur) (simp_all add: decode_account_def)
qed

lemma moves_lock2:
  assumes "constraints d" and "money_ok C (intent_amount (s_intent s))" and "claimed C d s"
    and lo: "account_row d (lock_order s ! 0) \<noteq> None"
  shows "moves C d s AtLock2 AtAdjustFrom"
proof -
  let ?s = "stage C d s AtLock2"
  have run: "advance C d ?s = (resume ?s (and_then (fetched C (lock_order s ! 1) (tx_view (s_tx d ?s))) (\<lambda>r.
      let s' = ?s\<lparr>s_locked := (s_locked ?s)(lock_order s ! 1 \<mapsto> r)\<rparr> in
      and_then (locked_checks C s') (\<lambda>_. Ok (s'\<lparr>s_pc := AtAdjustFrom\<rparr>)))), d)"
    by (simp add: advance_def lock2_step_def lock_row_fetched and_then_assoc [symmetric] Let_def)
  show ?thesis
  proof (cases "account_row d (lock_order s ! 1)")
    case None
    then have "\<not> funded C d s"
      using lock_order_cases [of s] by (auto simp: funded_def split: option.split)
    with None show ?thesis
      unfolding moves_def run by (auto simp: fetched_eval stage_view_claim table_simps)
  next
    case (Some r)
    let ?l = "held_rows C d (set (lock_order s))"
    define s' where "s' = ?s\<lparr>s_locked := ?l\<rparr>"
    have "(s_locked ?s)(lock_order s ! 1 \<mapsto> decode_account C r) = ?l"
      using Some by (subst (2) lock_order_pair) (auto simp: stage_def held_rows_def fun_eq_iff)
    then have run': "advance C d ?s =
        (resume ?s (and_then (locked_checks C s') (\<lambda>_. Ok (s'\<lparr>s_pc := AtAdjustFrom\<rparr>))), d)"
      unfolding run s'_def using Some by (simp add: fetched_eval stage_view_claim table_simps Let_def)
    obtain f g where fg: "account_row d (from_account_id (s_intent s)) = Some f"
      "account_row d (to_account_id (s_intent s)) = Some g"
      using lock_order_cases [of s] lo Some by auto
    have "(locked_checks C s' = Ok () \<longleftrightarrow> funded C d s') \<and> locked_checks C s' \<noteq> Panic"
      by (rule locked_checks_eval [OF assms(1)])
         (use assms(2) fg in \<open>simp_all add: s'_def held_rows_def set_lock_order\<close>)
    moreover have "funded C d s' = funded C d s"
      by (rule funded_cong) (simp add: s'_def)
    moreover have "s'\<lparr>s_pc := AtAdjustFrom\<rparr> = stage C d s AtAdjustFrom"
      by (simp add: s'_def stage_def)
    ultimately show ?thesis
      unfolding moves_def run' using assms(3) by (cases "locked_checks C s'") auto
  qed
qed

lemma guard_movable:
  assumes "constraints d" and "money_ok C (intent_amount (s_intent s))" and "unused d (s_ev s)"
    and "claimed C d s" and "funded C d s"
  obtains f g where "movable C (s_ev s) (s_intent s) (s_tx d (stage C d s AtAdjustFrom)) f g"
    and "account_row d (from_account_id (s_intent s)) = Some f"
    and "account_row d (to_account_id (s_intent s)) = Some g"
proof -
  obtain f g where fg: "account_row d (from_account_id (s_intent s)) = Some f"
    "account_row d (to_account_id (s_intent s)) = Some g"
    "a_currency f = as_str (s_currency s)" "a_currency g = as_str (s_currency s)"
    "a_allows_negative_balance f \<or> intent_units C (s_intent s) \<le> a_balance f"
    using guard_rows [OF assms(5)] by blast
  have "constraints (tx_view (s_tx d (stage C d s AtAdjustFrom)))"
    using assms(1,3,4) by (intro claim_constraints) simp_all
  then have "movable C (s_ev s) (s_intent s) (s_tx d (stage C d s AtAdjustFrom)) f g"
    using assms(2-4) fg
    by (auto simp: movable_def stage_view_claim table_simps claimed_def sensible_def unused_def)
       (simp_all add: claim_row_def)
  with fg that show thesis by blast
qed

lemma moves_adjust_from:
  assumes "constraints d" and "money_ok C (intent_amount (s_intent s))" and "unused d (s_ev s)"
    and "guard C d s AtAdjustFrom"
  shows "moves C d s AtAdjustFrom AtAdjustTo"
proof -
  obtain f g where mv: "movable C (s_ev s) (s_intent s) (s_tx d (stage C d s AtAdjustFrom)) f g"
    and fg: "account_row d (from_account_id (s_intent s)) = Some f" "account_row d (to_account_id (s_intent s)) = Some g"
    using guard_movable [OF assms(1-3)] assms(4) by auto
  show ?thesis
  proof (rule moves_row [where x = "Database numeric_overflow"])
    show "s_locked (stage C d s AtAdjustFrom) (from_account_id (s_intent s)) = Some (decode_account C f)"
      by (rule held_pair(1) [OF _ fg]) simp
    show "adjust_balance C NoFault (ar_id (decode_account C f)) (d_neg C (s_amount s)) (s_tx d (stage C d s AtAdjustFrom)) =
        (if guard C d s AtAdjustTo then Ok (s_tx d (stage C d s AtAdjustTo)) else Err (Database numeric_overflow))"
      using adjust_from_eval [OF mv] assms(4) fg
      by (simp add: decode_id [OF fg(1)] stage_posted [where p = AtAdjustTo] room_from_def balance_of_def)
  qed (simp_all add: advance_def)
qed

lemma moves_adjust_to:
  assumes "constraints d" and "money_ok C (intent_amount (s_intent s))" and "unused d (s_ev s)"
    and "guard C d s AtAdjustTo"
  shows "moves C d s AtAdjustTo AtCredit"
proof -
  obtain f g where mv: "movable C (s_ev s) (s_intent s) (s_tx d (stage C d s AtAdjustFrom)) f g"
    and fg: "account_row d (from_account_id (s_intent s)) = Some f" "account_row d (to_account_id (s_intent s)) = Some g"
    using guard_movable [OF assms(1-3)] assms(4) by auto
  show ?thesis
  proof (rule moves_row [where x = "Database numeric_overflow"])
    show "s_locked (stage C d s AtAdjustTo) (to_account_id (s_intent s)) = Some (decode_account C g)"
      by (rule held_pair(2) [OF _ fg]) simp
    show "adjust_balance C NoFault (ar_id (decode_account C g)) (s_amount s) (s_tx d (stage C d s AtAdjustTo)) =
        (if guard C d s AtCredit then Ok (s_tx d (stage C d s AtCredit)) else Err (Database numeric_overflow))"
      using adjust_to_eval [OF mv] assms(4) fg
      by (simp add: decode_id [OF fg(2)] stage_posted [where p = AtAdjustTo] stage_posted [where p = AtCredit]
          room_from_def room_to_def balance_of_def numeral_2_eq_2)
  qed (simp_all add: advance_def)
qed

text \<open>Once both balances are changed nothing can fail: the entries belong to the session's own claim.\<close>

lemma moves_entries:
  assumes "constraints d" and "money_ok C (intent_amount (s_intent s))" and "unused d (s_ev s)"
    and "guard C d s AtCredit"
  shows "moves C d s AtCredit AtDebit" and "moves C d s AtDebit AtCommit"
proof -
  obtain f g where mv: "movable C (s_ev s) (s_intent s) (s_tx d (stage C d s AtAdjustFrom)) f g"
    and fg: "account_row d (from_account_id (s_intent s)) = Some f" "account_row d (to_account_id (s_intent s)) = Some g"
    using guard_movable [OF assms(1-3)] assms(4) by auto
  have ids: "row e_id (entries (tx_view (s_tx d (stage C d s AtAdjustFrom)))) (at_credit_id (s_ev s)) = None"
    "row e_id (entries (tx_view (s_tx d (stage C d s AtAdjustFrom)))) (at_debit_id (s_ev s)) = None"
    "at_credit_id (s_ev s) \<noteq> at_debit_id (s_ev s)"
    using assms(3) by (simp_all add: stage_view_claim table_simps unused_def fresh_entry_ids_def)
  note locked = held_pair [OF _ fg, of AtCredit C] held_pair [OF _ fg, of AtDebit C]
  note eval = entries_eval [OF mv] and tx = stage_posted [where p = AtCredit] stage_posted [where p = AtDebit]
    stage_posted [where p = AtCommit]
  show "moves C d s AtCredit AtDebit"
    by (rule moves_row [where q = "decode_account C f" and x = "Database numeric_overflow" and
          i = "from_account_id (s_intent s)" and
          stmt = "\<lambda>r. insert_entry C (calm (s_ev s)) NoFault (at_credit_id (s_ev s)) (at_txn_id (s_ev s)) (ar_id r)
            Credit (s_amount s) (s_currency s)"])
       (use assms(4) locked(1) eval(1) ids in
         \<open>simp_all add: advance_def insert_entry_calm_cong decode_id [OF fg(1)] tx numeral_eq_Suc\<close>)
  show "moves C d s AtDebit AtCommit"
    by (rule moves_row [where q = "decode_account C g" and x = "Database numeric_overflow" and
          i = "to_account_id (s_intent s)" and
          stmt = "\<lambda>r. insert_entry C (calm (s_ev s)) NoFault (at_debit_id (s_ev s)) (at_txn_id (s_ev s)) (ar_id r)
            Debit (s_amount s) (s_currency s)"])
       (use assms(4) locked(4) eval(2) ids in
         \<open>simp_all add: advance_def insert_entry_calm_cong decode_id [OF fg(2)] tx numeral_eq_Suc\<close>)
qed

lemma moves_next:
  assumes "constraints d" and "money_ok C (intent_amount (s_intent s))" and "unused d (s_ev s)"
    and "guard C d s p" and "p = AtFind \<Longrightarrow> key_row d (s_key s) = None" and "p \<noteq> AtCommit"
  shows "moves C d s p (next_pc p)"
proof (cases p)
  case AtFind
  then show ?thesis using moves_find [OF assms(1,2)] assms(5) by simp
next
  case AtClaim
  then show ?thesis using moves_claim [OF assms(3)] assms(4) by simp
next
  case AtLock1
  then show ?thesis using moves_lock1 assms(4) by simp
next
  case AtLock2
  then show ?thesis using moves_lock2 [OF assms(1,2)] assms(4) by simp
next
  case AtAdjustFrom
  then show ?thesis using moves_adjust_from [OF assms(1-3)] assms(4) by simp
next
  case AtAdjustTo
  then show ?thesis using moves_adjust_to [OF assms(1-3)] assms(4) by simp
next
  case AtCredit
  then show ?thesis using moves_entries(1) [OF assms(1-3)] assms(4) by simp
next
  case AtDebit
  then show ?thesis using moves_entries(2) [OF assms(1-3)] assms(4) by simp
qed (use assms(4,6) in simp_all)

lemma guard_next: "guard C d s (next_pc p) \<Longrightarrow> p \<noteq> AtFind \<Longrightarrow> guard C d s p"
  using lock_order_cases [of s] by (cases p) (auto simp: claimed_def funded_def split: option.splits)

text \<open>At every stage, what is left of the session is what is left of \<open>execute_tx\<close> on the committed rows.\<close>

lemma on_course:
  assumes "constraints d" and "money_ok C (intent_amount (s_intent s))" and "unused d (s_ev s)"
    and "guard C d s p" and "p \<noteq> AtFind"
  shows "finishes C (stage C d s p) d r e \<longleftrightarrow>
    execute_tx C (calm (s_ev s)) (s_key s) (s_intent s) (s_hash C s) d = (r, e)"
proof -
  have same: "finishes C (stage C d s (next_pc p)) d r e \<longleftrightarrow> finishes C (stage C d s p) d r e"
    if "guard C d s (next_pc p)" and "p \<noteq> AtFind" and "p \<noteq> AtCommit" for p
  proof -
    have "guard C d s p"
      by (rule guard_next [OF that(1,2)])
    then have "advance C d (stage C d s p) = (stage C d s (next_pc p), d)" "\<And>r. p \<noteq> Stopped r"
      using moves_next [OF assms(1-3), of p] that unfolding moves_def by auto
    then show ?thesis
      by (subst (2) finishes_step) auto
  qed
  have claim: "finishes C (stage C d s AtClaim) d r e \<longleftrightarrow>
      execute_tx C (calm (s_ev s)) (s_key s) (s_intent s) (s_hash C s) d = (r, e)"
    by (subst finishes_claim) (simp_all add: stage_def held_rows_def fun_eq_iff)
  have "finishes C (stage C d s p) d r e \<longleftrightarrow> finishes C (stage C d s AtClaim) d r e"
    using assms(4,5)
  proof (induction "rank p" arbitrary: p)
    case (Suc n)
    obtain q where q: "p = next_pc q" "q \<noteq> AtCommit" "q \<noteq> AtFind \<or> p = AtClaim" "rank q = n"
      using Suc.hyps(2) Suc.prems(1) that [of AtFind] that [of AtClaim] that [of AtLock1] that [of AtLock2]
        that [of AtAdjustFrom] that [of AtAdjustTo] that [of AtCredit] that [of AtDebit]
      by (cases p) simp_all
    show ?case
    proof (cases "p = AtClaim")
      case False
      then have "guard C d s q" "q \<noteq> AtFind"
        using q Suc.prems guard_next by auto
      then show ?thesis
        using Suc.hyps(1) [of q] same [of q] q Suc.prems(1) by simp
    qed simp
  next
    case (0 p)
    then show ?case by (cases p) simp_all
  qed
  with claim show ?thesis by simp
qed

lemma commit_eval:
  assumes "constraints d" and "unused d (s_ev s)"
  shows "\<exists>r. advance C d (stage C d s AtCommit) =
    ((stage C d s AtCommit)\<lparr>s_pc := Stopped r\<rparr>,
     apply_writes (post_writes C (s_ev s) (s_key s) (s_intent s) d) d)"
proof -
  let ?ws = "post_writes C (s_ev s) (s_key s) (s_intent s) d"
  have "take 5 ?ws = ?ws"
    by (simp add: post_writes_def post_body_def)
  moreover have "sql_commit (inserted_entries ?ws) (apply_writes ?ws d) = Ok ()"
    by (rule post_commit [OF assms(1)]) (use assms(2) in \<open>simp add: unused_def\<close>)
  ultimately have "tx_commit NoFault (s_tx d (stage C d s AtCommit)) = (Ok (), apply_writes ?ws d)"
    unfolding stage_tx written.simps tx_commit_def tx_view_def fault.case tx.select_convs by (simp only:) simp
  then show ?thesis
    by (auto simp: advance_def commit_step_def)
qed

text \<open>
  Once a session has passed the lookup of its key at \<open>d0\<close>, the rest of it is \<open>execute_once\<close> with the
  present rows as what was committed since.
\<close>

lemma execute_once_late:
  assumes "money_ok C (intent_amount intent)" and "from_account_id intent \<noteq> to_account_id intent"
    and "0 < intent_units C intent" and "key_row d0 key = None"
  shows "execute_once C (raced (\<lambda>_. d) ev) key intent d0 =
    execute_tx C (calm ev) key intent (request_hash C intent) d"
  using assms units_val(4) [OF assms(1)]
  by (simp add: execute_once_def find_by_idempotency_key_def raced_cong Let_def)

lemma stop_at_find:
  assumes "advance C d (stage C d s AtFind) = (s', d')" and "s_pc s' = Stopped r"
  shows "d' = d" and "s' = (stage C d s AtFind)\<lparr>s_pc := Stopped r\<rparr>"
    and "execute_once C (raced race (s_ev s)) (s_key s) (s_intent s) d = (r, d)"
  using assms
  by (cases "find_by_idempotency_key NoFault (s_key s) d";
      force simp: execute_once_def advance_def find_step_def Let_def raced_cong split: option.splits if_splits)+

section \<open>Steps of a session and of the others\<close>

lemma stage_stop:
  assumes "constraints d" and "money_ok C (intent_amount (s_intent s))" and "unused d (s_ev s)"
    and "guard C d s p" and "p \<noteq> AtFind"
    and "advance C d (stage C d s p) = (s', d')" and "s_pc s' = Stopped r"
  shows "execute_tx C (calm (s_ev s)) (s_key s) (s_intent s) (s_hash C s) d = (r, d')"
proof -
  have "\<And>q. s_pc (stage C d s p) \<noteq> Stopped q"
    using assms(4) by auto
  then have "finishes C (stage C d s p) d r d'"
    using assms(6,7) by (subst finishes_step) (auto simp: finishes_Stopped)
  then show ?thesis
    using on_course [OF assms(1-5)] by simp
qed

lemma find_taken:
  "key_row d (s_key s) \<noteq> None \<Longrightarrow> advance C d (stage C d s AtFind) = (s', d') \<Longrightarrow> \<exists>r. s_pc s' = Stopped r"
  by (auto simp: advance_def find_step_def find_by_idempotency_key_def)

lemma session_step:
  assumes "constraints d" and "money_ok C (intent_amount (s_intent s))" and "unused d (s_ev s)"
    and "guard C d s p" and "advance C d (stage C d s p) = (s', d')"
  obtains (on) "p \<noteq> AtCommit" "guard C d s (next_pc p)" "s' = stage C d s (next_pc p)" "d' = d"
      "p = AtFind \<longrightarrow> key_row d (s_key s) = None"
  | (find) r where "p = AtFind" "s' = (stage C d s p)\<lparr>s_pc := Stopped r\<rparr>" "d' = d"
      "\<And>race. execute_once C (raced race (s_ev s)) (s_key s) (s_intent s) d = (r, d)"
  | (stop) r where "p \<noteq> AtFind" "s' = (stage C d s p)\<lparr>s_pc := Stopped r\<rparr>"
      "execute_tx C (calm (s_ev s)) (s_key s) (s_intent s) (s_hash C s) d = (r, d')"
      "d' = d \<or> p = AtCommit \<and> d' = apply_writes (post_writes C (s_ev s) (s_key s) (s_intent s) d) d"
proof (cases "p = AtFind \<and> (\<exists>r. s_pc s' = Stopped r)")
  case True
  then obtain r where "s_pc s' = Stopped r"
    by blast
  with True show thesis
    using find stop_at_find [of d s s' d' r] assms(5) by blast
next
  case False
  then have new: "p = AtFind \<longrightarrow> key_row d (s_key s) = None"
    using find_taken assms(5) by blast
  show thesis
  proof (cases "p = AtCommit")
    case True
    then show thesis
      using stop stage_stop [OF assms(1-4) _ assms(5)] commit_eval [OF assms(1,3)] assms(5) by fastforce
  next
    case commit: False
    then have mv: "moves C d s p (next_pc p)"
      using moves_next [OF assms(1-4)] new by blast
    show thesis
    proof (cases "guard C d s (next_pc p)")
      case True
      then show thesis
        using commit new mv on assms(5) by (simp add: moves_def)
    next
      case stopped: False
      then obtain r where r: "s' = (stage C d s p)\<lparr>s_pc := Stopped r\<rparr>" "d' = d"
        using mv assms(5) by (auto simp: moves_def)
      then have "p \<noteq> AtFind"
        using False by auto
      with r show thesis
        using stop [of r] stage_stop [OF assms(1-4) _ assms(5)] by auto
    qed
  qed
qed

end

lemma stage_frame:
  assumes "\<forall>i \<in> holds_at p (lock_order s). account_row d' i = account_row d i"
  shows "stage C d' s p = stage C d s p"
proof -
  have "take (written p) (post_writes C ev key (s_intent s) d') = take (written p) (post_writes C ev key (s_intent s) d)"
    for ev key
    using assms by (cases p) (simp_all add: post_writes_def post_body_def balance_of_def set_lock_order)
  moreover have "held_rows C d' (holds_at p (lock_order s)) = held_rows C d (holds_at p (lock_order s))"
    using assms by (simp add: held_rows_def fun_eq_iff)
  ultimately show ?thesis
    by (simp add: stage_def)
qed

lemma guard_frame:
  assumes "\<forall>i \<in> holds_at p (lock_order s). account_row d' i = account_row d i"
    and "active p \<Longrightarrow> key_row d' (s_key s) = None" and "guard C d s p"
  shows "guard C d' s p"
proof -
  have "funded C d' s = funded C d s" "room_from C d' s = room_from C d s" "room_to C d' s = room_to C d s"
    if "rank AtAdjustFrom \<le> rank p"
    using that assms(1,3) unfolding funded_def room_from_def room_to_def balance_of_def
    by (cases p; simp add: set_lock_order)+
  then show ?thesis
    using assms by (cases p) (simp_all add: claimed_def active_def)
qed

end
