(* ===== verification/Concurrency.thy ===== *)
theory Concurrency
  imports Session_Stages
begin

text \<open>
  Concurrent transfers. A system is the committed rows and the sessions of the service, each somewhere
  in its attempt (theory \<open>Session_Steps\<close>); a step runs one statement of one session, lets a session
  fail, admits a request or opens an account. A session waits where the database makes it wait: at
  the unique index on the key while another session's claim of that key is uncommitted, and at a row
  that another session has locked. The module comment of \<open>src/db/transfers.rs\<close> argues that under
  \<open>READ COMMITTED\<close> this is linearizable, that replays never create entries twice and that the
  ascending lock order excludes deadlock; the properties below are these three claims.
\<close>

section \<open>Systems\<close>

record 'd system =
  sys_db :: db
  sys_xid :: xid
  sys_sess :: "'d session list"

definition running :: "'d session \<Rightarrow> bool" where
  "running s \<longleftrightarrow> rank (s_pc s) \<noteq> 9"

lemma running_iff: "running s \<longleftrightarrow> (\<forall>r. s_pc s \<noteq> Stopped r)"
  by (cases "s_pc s") (simp_all add: running_def)

text \<open>What a session waits for, and the session it waits for.\<close>

fun wants_at :: "'d pc \<Rightarrow> uuid list \<Rightarrow> uuid set" where
  "wants_at AtLock1 ids = {ids ! 0}" | "wants_at AtLock2 ids = {ids ! 1}" | "wants_at _ ids = {}"

definition waits_for :: "'d session \<Rightarrow> 'd session \<Rightarrow> bool" where
  "waits_for s t \<longleftrightarrow>
     s_pc s = AtClaim \<and> active (s_pc t) \<and> s_key t = s_key s \<or>
     wants_at (s_pc s) (lock_order s) \<inter> holds t \<noteq> {}"

definition blocked :: "'d system \<Rightarrow> nat \<Rightarrow> bool" where
  "blocked \<sigma> i \<longleftrightarrow>
     (\<exists>j < length (sys_sess \<sigma>). j \<noteq> i \<and> waits_for (sys_sess \<sigma> ! i) (sys_sess \<sigma> ! j))"

definition set_session :: "'d system \<Rightarrow> nat \<Rightarrow> 'd session \<Rightarrow> db \<Rightarrow> 'd system" where
  "set_session \<sigma> i s d = \<sigma>\<lparr>sys_db := d, sys_sess := (sys_sess \<sigma>)[i := s]\<rparr>"

text \<open>The identifiers a request draws are used by nobody else.\<close>

definition entry_ids :: "attempt \<Rightarrow> uuid set" where
  "entry_ids ev = {at_credit_id ev, at_debit_id ev}"

definition fresh_for :: "attempt \<Rightarrow> 'd system \<Rightarrow> bool" where
  "fresh_for ev \<sigma> \<longleftrightarrow>
     at_xid ev = sys_xid \<sigma> \<and> unused (sys_db \<sigma>) ev \<and>
     (\<forall>s \<in> set (sys_sess \<sigma>). at_txn_id (s_ev s) \<noteq> at_txn_id ev \<and> entry_ids (s_ev s) \<inter> entry_ids ev = {})"

text \<open>One session runs its next statement.\<close>

inductive run_step :: "'d crates \<Rightarrow> nat \<Rightarrow> 'd system \<Rightarrow> 'd system \<Rightarrow> bool" for C i \<sigma> where
  "i < length (sys_sess \<sigma>) \<Longrightarrow> running (sys_sess \<sigma> ! i) \<Longrightarrow> \<not> blocked \<sigma> i \<Longrightarrow>
   advance C (sys_db \<sigma>) (sys_sess \<sigma> ! i) = (s', d') \<Longrightarrow> run_step C i \<sigma> (set_session \<sigma> i s' d')"

inductive_cases run_stepE: "run_step C i \<sigma> \<sigma>'"

text \<open>
  Everything that can happen. A session can lose its connection, time out or be cancelled at any
  point, and at the commit that can hide from it that the commit took effect.
\<close>

inductive cstep :: "'d crates \<Rightarrow> 'd system \<Rightarrow> 'd system \<Rightarrow> bool" for C \<sigma> where
  run: "run_step C i \<sigma> \<sigma>' \<Longrightarrow> cstep C \<sigma> \<sigma>'"
| abort: "i < length (sys_sess \<sigma>) \<Longrightarrow> running (sys_sess \<sigma> ! i) \<Longrightarrow>
    cstep C \<sigma> (set_session \<sigma> i ((sys_sess \<sigma> ! i)\<lparr>s_pc := Stopped (Err (Database e))\<rparr>) (sys_db \<sigma>))"
| lost_reply: "i < length (sys_sess \<sigma>) \<Longrightarrow> s_pc (sys_sess \<sigma> ! i) = AtCommit \<Longrightarrow>
    advance C (sys_db \<sigma>) (sys_sess \<sigma> ! i) = (s', d') \<Longrightarrow>
    cstep C \<sigma> (set_session \<sigma> i ((sys_sess \<sigma> ! i)\<lparr>s_pc := Stopped (Err (Database e))\<rparr>) d')"
| request: "money_ok C (intent_amount intent) \<Longrightarrow> fresh_for ev \<sigma> \<Longrightarrow>
    cstep C \<sigma> (\<sigma>\<lparr>sys_xid := Suc (sys_xid \<sigma>), sys_sess := sys_sess \<sigma> @ [start key intent ev]\<rparr>)"
| open_account: "accounts_create C f now i name cur allows (sys_db \<sigma>) = (res, d') \<Longrightarrow>
    cstep C \<sigma> (\<sigma>\<lparr>sys_db := d'\<rparr>)"

definition idle_system :: "'d system \<Rightarrow> bool" where
  "idle_system \<sigma> \<longleftrightarrow> ledger_inv (sys_xid \<sigma>) (sys_db \<sigma>) \<and> sys_sess \<sigma> = []"

definition system_reach :: "'d crates \<Rightarrow> 'd system \<Rightarrow> bool" where
  "system_reach C \<sigma> \<longleftrightarrow> (\<exists>\<sigma>0. idle_system \<sigma>0 \<and> (cstep C)\<^sup>*\<^sup>* \<sigma>0 \<sigma>)"

section \<open>The invariant\<close>

text \<open>Two sessions never hold the same row or the same uncommitted key.\<close>

definition apart :: "'d session \<Rightarrow> 'd session \<Rightarrow> bool" where
  "apart s t \<longleftrightarrow>
     at_txn_id (s_ev s) \<noteq> at_txn_id (s_ev t) \<and> at_xid (s_ev s) \<noteq> at_xid (s_ev t) \<and>
     entry_ids (s_ev s) \<inter> entry_ids (s_ev t) = {} \<and> holds s \<inter> holds t = {} \<and>
     \<not> (active (s_pc s) \<and> active (s_pc t) \<and> s_key s = s_key t)"

text \<open>What a session that has answered may rely on.\<close>

definition settled :: "'d crates \<Rightarrow> db \<Rightarrow> 'd session \<Rightarrow> (ledger_error, 'd transfer_result) result \<Rightarrow> bool" where
  "settled C d s r \<longleftrightarrow> r \<noteq> Panic \<and>
     (\<forall>res. r = Ok res \<longrightarrow> backed C (s_key s) (s_intent s) res d \<and>
        (res_outcome res = Created \<longrightarrow> txn_id (td_transaction (res_detail res)) = at_txn_id (s_ev s)))"

definition looked_up :: "db \<Rightarrow> 'd session \<Rightarrow> bool" where
  "looked_up d s \<longleftrightarrow> (\<exists>d0. grows d0 d \<and> constraints d0 \<and> key_row d0 (s_key s) = None)"

definition on_stage :: "'d crates \<Rightarrow> db \<Rightarrow> 'd session \<Rightarrow> bool" where
  "on_stage C d s \<longleftrightarrow> unused d (s_ev s) \<and> s = stage C d s (s_pc s) \<and> guard C d s (s_pc s) \<and>
     (s_pc s \<noteq> AtFind \<longrightarrow> looked_up d s)"

definition sess_ok :: "'d crates \<Rightarrow> xid \<Rightarrow> db \<Rightarrow> 'd session \<Rightarrow> bool" where
  "sess_ok C x d s \<longleftrightarrow> money_ok C (intent_amount (s_intent s)) \<and> at_xid (s_ev s) < x \<and>
     (running s \<longrightarrow> on_stage C d s) \<and> (\<forall>r. s_pc s = Stopped r \<longrightarrow> settled C d s r)"

definition sys_inv :: "'d crates \<Rightarrow> 'd system \<Rightarrow> bool" where
  "sys_inv C \<sigma> \<longleftrightarrow> ledger_inv (sys_xid \<sigma>) (sys_db \<sigma>) \<and>
     (\<forall>s \<in> set (sys_sess \<sigma>). sess_ok C (sys_xid \<sigma>) (sys_db \<sigma>) s) \<and>
     (\<forall>i < length (sys_sess \<sigma>). \<forall>j < length (sys_sess \<sigma>). i \<noteq> j \<longrightarrow> apart (sys_sess \<sigma> ! i) (sys_sess \<sigma> ! j))"

lemma apart_sym: "apart s t \<Longrightarrow> apart t s"
  by (auto simp: apart_def)

lemma apart_stop: "apart s t \<Longrightarrow> apart (s\<lparr>s_pc := Stopped r\<rparr>) t"
  by (auto simp: apart_def holds_def active_def)

section \<open>What the others do to a session\<close>

lemma sess_env:
  assumes "ledger_inv y d" and "sess_ok C x d s" and "x \<le> x'" and "grows d d'"
    and "running s \<Longrightarrow> unused d' (s_ev s)"
    and "running s \<Longrightarrow> \<forall>i \<in> holds s. account_row d' i = account_row d i"
    and "active (s_pc s) \<Longrightarrow> key_row d' (s_key s) = None"
  shows "sess_ok C x' d' s"
proof -
  have "on_stage C d' s" if "running s"
  proof -
    have st: "s = stage C d s (s_pc s)" "guard C d s (s_pc s)" and "s_pc s \<noteq> AtFind \<longrightarrow> looked_up d s"
      using assms(2) that by (simp_all add: sess_ok_def on_stage_def)
    moreover have "looked_up d s \<Longrightarrow> looked_up d' s"
      using assms(4) grows_trans by (auto simp: looked_up_def)
    moreover have rows: "\<forall>i \<in> holds_at (s_pc s) (lock_order s). account_row d' i = account_row d i"
      using assms(6) [OF that] by (simp add: holds_def)
    moreover have "stage C d' s (s_pc s) = s"
      using stage_frame [OF rows, of C] st(1) by simp
    ultimately show ?thesis
      using guard_frame [OF rows assms(7) st(2)] assms(5) [OF that] by (simp add: on_stage_def)
  qed
  moreover have "settled C d s r \<Longrightarrow> settled C d' s r" for r
    using backed_grows [OF assms(1) _ assms(4)] by (auto simp: settled_def)
  ultimately show ?thesis
    using assms(2,3) by (auto simp: sess_ok_def)
qed

lemma active_claimed: "guard C d s p \<Longrightarrow> active p \<Longrightarrow> claimed C d s"
  by (cases p) (simp_all add: active_def)

lemma unused_append:
  assumes "transactions d' = transactions d @ [t]" and "entries d' = entries d @ [e, f]" and "unused d ev"
    and "t_id t \<noteq> at_txn_id ev" and "t_created_xid t \<noteq> at_xid ev" and "{e_id e, e_id f} \<inter> entry_ids ev = {}"
  shows "unused d' ev"
  using assms by (auto simp: unused_def transaction_row_def row_None fresh_entry_ids_def entry_ids_def)

text \<open>Another session commits its transfer.\<close>

lemma post_env:
  assumes "ledger_inv x d" and "sess_ok C x d s" and "apart s t" and "s_pc t = AtCommit"
    and "sensible C t" and "grows d d'"
    and "d' = apply_writes (post_writes C (s_ev t) (s_key t) (s_intent t) d) d"
  shows "sess_ok C x d' s"
proof (rule sess_env [OF assms(1,2) order_refl assms(6)])
  have tables: "transactions d' = transactions d @ [claim_row C (s_ev t) (s_key t) (s_intent t)]"
    "entries d' = entries d @ [credit_posting C (s_ev t) (s_intent t), debit_posting C (s_ev t) (s_intent t)]"
    by (simp_all add: assms(7) post_tables)
  show "unused d' (s_ev s)" if "running s"
    by (rule unused_append [OF tables])
       (use assms(2,3) that in \<open>auto simp: sess_ok_def on_stage_def apart_def claim_row_def credit_posting_def
          debit_posting_def posting_def entry_ids_def\<close>)
  have "holds t = {from_account_id (s_intent t), to_account_id (s_intent t)}"
    using assms(4) by (simp add: holds_def set_lock_order)
  then show "\<forall>i \<in> holds s. account_row d' i = account_row d i"
    using assms(3,5) unfolding assms(7) apart_def sensible_def
    by (auto simp: post_account_row option.map_ident_strong)
  show "key_row d' (s_key s) = None" if "active (s_pc s)"
  proof -
    have "claimed C d s"
      using assms(2) active_claimed that by (force simp: sess_ok_def on_stage_def running_def active_def)
    moreover have "s_key t \<noteq> s_key s"
      using assms(3,4) that by (auto simp: apart_def active_def)
    ultimately show ?thesis
      by (simp add: key_row_def tables row_append claimed_def claim_row_def)
  qed
qed

text \<open>Somebody opens an account.\<close>

lemma open_env:
  assumes "ledger_inv x d" and "sess_ok C x d s" and "d' = apply_write (InsertAccount a) d"
  shows "sess_ok C x d' s"
proof (rule sess_env [OF assms(1,2) order_refl])
  have same: "entries d' = entries d" "transactions d' = transactions d"
    by (simp_all add: assms(3) table_simps)
  then show "grows d d'"
    using apply_write_extends [of d "InsertAccount a"] by (simp add: grows_def entries_of_def assms(3))
  show "unused d' (s_ev s)" if "running s"
    using assms(2) that same by (simp add: sess_ok_def on_stage_def unused_def transaction_row_def fresh_entry_ids_def)
  show "\<forall>i \<in> holds s. account_row d' i = account_row d i" if "running s"
  proof -
    have "account_row d i \<noteq> None" if "i \<in> holds s" for i
      using assms(2) \<open>running s\<close> that unfolding sess_ok_def on_stage_def holds_def
      by (cases "s_pc s") (auto simp: funded_def set_lock_order split: option.splits)
    then show ?thesis
      unfolding assms(3) account_row_write by (force split: option.split)
  qed
  show "key_row d' (s_key s) = None" if "active (s_pc s)"
    using assms(2) active_claimed [of C d s] that same
    by (force simp: sess_ok_def on_stage_def running_def active_def claimed_def key_row_def)
qed

section \<open>Steps keep the invariant\<close>

lemma sys_inv_set:
  assumes "sys_inv C \<sigma>" and "i < length (sys_sess \<sigma>)" and "ledger_inv (sys_xid \<sigma>) d'"
    and "sess_ok C (sys_xid \<sigma>) d' s'"
    and "\<And>j. j < length (sys_sess \<sigma>) \<Longrightarrow> j \<noteq> i \<Longrightarrow>
      apart s' (sys_sess \<sigma> ! j) \<and> sess_ok C (sys_xid \<sigma>) d' (sys_sess \<sigma> ! j)"
  shows "sys_inv C (set_session \<sigma> i s' d')"
  using assms apart_sym
  by (auto simp: sys_inv_def set_session_def nth_list_update all_set_conv_all_nth)

lemma holds_next: "holds_at (next_pc p) (lock_order s) \<subseteq> holds_at p (lock_order s) \<union> wants_at p (lock_order s)"
proof -
  have "set (lock_order s) = {lock_order s ! 0, lock_order s ! 1}"
    by (subst lock_order_pair) simp
  then show ?thesis
    by (cases p) auto
qed

lemma active_next: "active (next_pc p) \<Longrightarrow> active p \<or> p = AtClaim"
  by (cases p) (simp_all add: active_def)

lemma apart_next:
  assumes "apart s t" and "\<not> waits_for s t" and "s' = stage C d s (next_pc (s_pc s))"
  shows "apart s' t"
  using assms holds_next [of "s_pc s" s] active_next [of "s_pc s"]
  by (auto simp: apart_def waits_for_def holds_def)

lemma transfer_spec_Created: "fst (transfer_spec C ev key intent d) = Ok (Created, i) \<Longrightarrow> i = at_txn_id ev"
  by (auto simp: transfer_spec_def replay_spec_def Let_def split: option.splits if_splits)

lemma raced_honest: "honest (raced race ev)"
  by (simp add: honest_def)

context crate_contracts
begin

lemma once_settled:
  assumes "constraints d0" and "constraints d" and "money_ok C (intent_amount (s_intent s))"
    and "execute_once C (raced (\<lambda>_. d) (s_ev s)) (s_key s) (s_intent s) d0 = (r, d')"
  shows "settled C d' s r"
proof -
  let ?ev = "raced (\<lambda>_. d) (s_ev s)"
  have cons: "constraints (at_race ?ev d0)"
    using assms(2) by simp
  have "calm ?ev = ?ev"
    by (simp add: raced_def calm_def)
  then have "summary r = fst (transfer_spec C ?ev (s_key s) (s_intent s) d0)"
    using execute_once_refines [OF assms(1) cons assms(3), of "s_key s"] assms(4) by (metis fst_conv fst_map_prod)
  then show ?thesis
    using execute_once_backed [OF raced_honest assms(1) cons assms(3)] transfer_spec_Created
      execute_once_not_Panic [OF raced_honest assms(1) cons assms(3), of "s_key s"] assms(4)
    unfolding settled_def by (metis fst_conv raced_simps(4) summary.simps(1))
qed

text \<open>
  What one statement of one session does, at any reachable state: it moves the session to its next
  stage, or it ends the session with the result of \<open>execute_once\<close> as if everything since the lookup
  had happened at this moment.
\<close>

lemma run_cases:
  assumes "sys_inv C \<sigma>" and "i < length (sys_sess \<sigma>)" and "running (sys_sess \<sigma> ! i)"
    and "advance C (sys_db \<sigma>) (sys_sess \<sigma> ! i) = (s', d')"
  defines "s \<equiv> sys_sess \<sigma> ! i" and "d \<equiv> sys_db \<sigma>"
  obtains (on) "s' = stage C d s (next_pc (s_pc s))" "on_stage C d s'" "d' = d" "running s'" "s_pc s \<noteq> AtCommit"
  | (stop) r d0 where "s' = s\<lparr>s_pc := Stopped r\<rparr>" "grows d0 d" "constraints d0"
      "execute_once C (raced (\<lambda>_. d) (s_ev s)) (s_key s) (s_intent s) d0 = (r, d')"
      "d' = d \<or> s_pc s = AtCommit \<and> accepts C (s_ev s) (s_key s) (s_intent s) d \<and>
         d' = apply_writes (post_writes C (s_ev s) (s_key s) (s_intent s) d) d"
proof -
  have "sess_ok C (sys_xid \<sigma>) d s" and cons: "constraints d"
    using assms(1,2) ledger_inv_constraints by (auto simp: sys_inv_def s_def d_def)
  then have m: "money_ok C (intent_amount (s_intent s))" and un: "unused d (s_ev s)"
    and st: "s = stage C d s (s_pc s)" and g: "guard C d s (s_pc s)" and lk: "s_pc s \<noteq> AtFind \<longrightarrow> looked_up d s"
    using assms(3) by (simp_all add: sess_ok_def on_stage_def s_def)
  have "advance C d (stage C d s (s_pc s)) = (s', d')"
    using assms(4) st by (simp add: s_def d_def)
  from cons m un g this show thesis
  proof (cases rule: session_step)
    case on
    have "looked_up d s"
      using lk on(5) cons by (auto simp: looked_up_def intro: grows_refl)
    then have "on_stage C d s'" "running s'"
      using un on(1,2,3) by (auto simp: on_stage_def looked_up_def running_iff)
    with on that(1) show thesis by blast
  next
    case (find r)
    then show thesis
      using that(2) [of r d] st cons by simp
  next
    case (stop r)
    have sens: "from_account_id (s_intent s) \<noteq> to_account_id (s_intent s)" "0 < intent_units C (s_intent s)"
      using g stop(1) by (cases "s_pc s"; simp add: claimed_def sensible_def)+
    obtain d0 where d0: "grows d0 d" "constraints d0" "key_row d0 (s_key s) = None"
      using lk stop(1) by (auto simp: looked_up_def)
    have "s_pc s = AtCommit \<Longrightarrow> accepts C (s_ev s) (s_key s) (s_intent s) d"
      using guard_accepts [OF _ g un] by simp
    then show thesis
      using that(2) [of r d0] stop st d0 execute_once_late [OF m sens d0(3), of d "s_ev s"] by auto
  qed
qed

lemma others_ok:
  assumes "sys_inv C \<sigma>" and "i < length (sys_sess \<sigma>)" and "j < length (sys_sess \<sigma>)" and "j \<noteq> i"
  shows "apart (sys_sess \<sigma> ! i) (sys_sess \<sigma> ! j) \<and> sess_ok C (sys_xid \<sigma>) (sys_db \<sigma>) (sys_sess \<sigma> ! j)"
  using assms by (simp add: sys_inv_def)

text \<open>A session that is at its commit, whatever answer it gets to see.\<close>

lemma commit_keeps:
  assumes "sys_inv C \<sigma>" and "i < length (sys_sess \<sigma>)" and "s = sys_sess \<sigma> ! i" and "d = sys_db \<sigma>"
    and "s_pc s = AtCommit" and acc: "accepts C (s_ev s) (s_key s) (s_intent s) d"
    and "d' = apply_writes (post_writes C (s_ev s) (s_key s) (s_intent s) d) d" and "settled C d' s r"
  shows "sys_inv C (set_session \<sigma> i (s\<lparr>s_pc := Stopped r\<rparr>) d')" and "grows d d'"
proof -
  have ok: "sess_ok C (sys_xid \<sigma>) d s" and inv: "ledger_inv (sys_xid \<sigma>) d"
    using assms(1-4) by (simp_all add: sys_inv_def)
  then have m: "money_ok C (intent_amount (s_intent s))" and x: "at_xid (s_ev s) < sys_xid \<sigma>"
    and un: "unused d (s_ev s)"
    using assms(5) by (simp_all add: sess_ok_def on_stage_def running_def)
  have "xid_unused (at_xid (s_ev s)) d"
    using un by (force simp: xid_unused_def unused_def transaction_row_def dest: row_Some)
  note post = post_keeps [OF inv this x m acc, folded assms(7)]
  then show "grows d d'"
    by simp
  show "sys_inv C (set_session \<sigma> i (s\<lparr>s_pc := Stopped r\<rparr>) d')"
  proof (rule sys_inv_set [OF assms(1,2) post(1)])
    show "sess_ok C (sys_xid \<sigma>) d' (s\<lparr>s_pc := Stopped r\<rparr>)"
      using m x assms(8) by (simp add: sess_ok_def running_def settled_def)
    fix j assume j: "j < length (sys_sess \<sigma>)" "j \<noteq> i"
    note other = others_ok [OF assms(1,2) j, folded assms(3,4)]
    have "sensible C s"
      using acc by (simp add: accepts_def sensible_def)
    then show "apart (s\<lparr>s_pc := Stopped r\<rparr>) (sys_sess \<sigma> ! j) \<and> sess_ok C (sys_xid \<sigma>) d' (sys_sess \<sigma> ! j)"
      using other apart_stop apart_sym post_env [OF inv _ _ assms(5) _ post(2) assms(7)] by blast
  qed
qed

lemma stop_keeps:
  assumes "sys_inv C \<sigma>" and "i < length (sys_sess \<sigma>)" and "settled C (sys_db \<sigma>) (sys_sess \<sigma> ! i) r"
  shows "sys_inv C (set_session \<sigma> i ((sys_sess \<sigma> ! i)\<lparr>s_pc := Stopped r\<rparr>) (sys_db \<sigma>))"
proof (rule sys_inv_set [OF assms(1,2)])
  show "sess_ok C (sys_xid \<sigma>) (sys_db \<sigma>) ((sys_sess \<sigma> ! i)\<lparr>s_pc := Stopped r\<rparr>)"
    using assms by (simp add: sys_inv_def sess_ok_def running_def settled_def)
  fix j assume "j < length (sys_sess \<sigma>)" "j \<noteq> i"
  then show "apart ((sys_sess \<sigma> ! i)\<lparr>s_pc := Stopped r\<rparr>) (sys_sess \<sigma> ! j) \<and>
      sess_ok C (sys_xid \<sigma>) (sys_db \<sigma>) (sys_sess \<sigma> ! j)"
    using others_ok [OF assms(1,2)] apart_stop by blast
qed (use assms(1) in \<open>simp add: sys_inv_def\<close>)

lemma run_step_keeps:
  assumes "sys_inv C \<sigma>" and "run_step C i \<sigma> \<sigma>'"
  shows "sys_inv C \<sigma>' \<and> grows (sys_db \<sigma>) (sys_db \<sigma>')"
  using assms(2)
proof (cases rule: run_step.cases)
  case (1 s' d')
  let ?s = "sys_sess \<sigma> ! i" and ?d = "sys_db \<sigma>"
  have ok: "sess_ok C (sys_xid \<sigma>) ?d ?s" and inv: "ledger_inv (sys_xid \<sigma>) ?d"
    using assms(1) 1(2) by (simp_all add: sys_inv_def)
  have db: "sys_db (set_session \<sigma> i s e) = e" for s e
    by (simp add: set_session_def)
  from assms(1) 1(2,3,5) show ?thesis
  proof (cases rule: run_cases)
    case on
    have "sess_ok C (sys_xid \<sigma>) ?d s'"
      using ok on(1,2,4) by (auto simp: sess_ok_def running_iff)
    moreover have "apart s' (sys_sess \<sigma> ! j)" if "j < length (sys_sess \<sigma>)" "j \<noteq> i" for j
      using apart_next [OF _ _ on(1)] others_ok [OF assms(1) 1(2) that] 1(4) that by (auto simp: blocked_def)
    ultimately have "sys_inv C (set_session \<sigma> i s' ?d)"
      using others_ok [OF assms(1) 1(2)] by (intro sys_inv_set [OF assms(1) 1(2) inv]) auto
    then show ?thesis
      by (simp add: 1(1) on(3) db)
  next
    case (stop r d0)
    have "settled C d' ?s r"
      by (rule once_settled [OF stop(3) ledger_inv_constraints [OF inv] _ stop(4)])
         (use ok in \<open>simp add: sess_ok_def\<close>)
    then show ?thesis
      using stop(5) stop_keeps [OF assms(1) 1(2)] commit_keeps [OF assms(1) 1(2) refl refl]
      unfolding 1(1) stop(1) db by auto
  qed
qed

lemma lost_reply_keeps:
  assumes "sys_inv C \<sigma>" and "i < length (sys_sess \<sigma>)" and "s_pc (sys_sess \<sigma> ! i) = AtCommit"
    and "advance C (sys_db \<sigma>) (sys_sess \<sigma> ! i) = (s', d')"
  shows "sys_inv C (set_session \<sigma> i ((sys_sess \<sigma> ! i)\<lparr>s_pc := Stopped (Err (Database e))\<rparr>) d')"
    and "grows (sys_db \<sigma>) d'"
proof -
  have fail: "settled C d'' s (Err (Database e))" for d'' s
    by (simp add: settled_def)
  have "running (sys_sess \<sigma> ! i)"
    using assms(3) by (simp add: running_def)
  from assms(1,2) this assms(4)
  have "sys_inv C (set_session \<sigma> i ((sys_sess \<sigma> ! i)\<lparr>s_pc := Stopped (Err (Database e))\<rparr>) d') \<and> grows (sys_db \<sigma>) d'"
  proof (cases rule: run_cases)
    case on
    then show ?thesis using assms(3) by simp
  next
    case (stop r d0)
    then show ?thesis
      using stop_keeps [OF assms(1,2) fail] commit_keeps [OF assms(1,2) refl refl assms(3) _ _ fail] by auto
  qed
  then show "sys_inv C (set_session \<sigma> i ((sys_sess \<sigma> ! i)\<lparr>s_pc := Stopped (Err (Database e))\<rparr>) d')"
    and "grows (sys_db \<sigma>) d'"
    by simp_all
qed

lemma request_keeps:
  assumes "sys_inv C \<sigma>" and "money_ok C (intent_amount intent)" and "fresh_for ev \<sigma>"
  shows "sys_inv C (\<sigma>\<lparr>sys_xid := Suc (sys_xid \<sigma>), sys_sess := sys_sess \<sigma> @ [start key intent ev]\<rparr>)"
proof -
  let ?new = "start key intent ev"
  have inv: "ledger_inv (sys_xid \<sigma>) (sys_db \<sigma>)"
    using assms(1) by (simp add: sys_inv_def)
  have "?new = stage C (sys_db \<sigma>) ?new AtFind"
    by (simp add: start_def stage_def held_rows_def fun_eq_iff)
  then have new: "sess_ok C (Suc (sys_xid \<sigma>)) (sys_db \<sigma>) ?new"
    using assms(2,3) by (simp add: sess_ok_def on_stage_def start_def fresh_for_def)
  have old: "sess_ok C (Suc (sys_xid \<sigma>)) (sys_db \<sigma>) s" "apart s ?new" if "s \<in> set (sys_sess \<sigma>)" for s
  proof -
    have ok: "sess_ok C (sys_xid \<sigma>) (sys_db \<sigma>) s"
      using assms(1) that by (simp add: sys_inv_def)
    then show "sess_ok C (Suc (sys_xid \<sigma>)) (sys_db \<sigma>) s"
      by (auto simp: sess_ok_def)
    show "apart s ?new"
      using ok assms(3) that by (auto simp: apart_def fresh_for_def sess_ok_def start_def holds_def active_def)
  qed
  show ?thesis
    using assms(1) ledger_inv_mono [OF inv, of "Suc (sys_xid \<sigma>)"] new old(1)
    by (auto simp: sys_inv_def nth_append less_Suc_eq intro: old(2) apart_sym [OF old(2)])
qed

lemma open_keeps:
  assumes "sys_inv C \<sigma>" and "accounts_create C f now i name cur allows (sys_db \<sigma>) = (res, d')"
  shows "sys_inv C (\<sigma>\<lparr>sys_db := d'\<rparr>) \<and> grows (sys_db \<sigma>) d'"
proof -
  have inv: "ledger_inv (sys_xid \<sigma>) (sys_db \<sigma>)"
    using assms(1) by (simp add: sys_inv_def)
  have "ledger_inv (sys_xid \<sigma>) d'"
    by (rule accounts_create_ledger_inv [OF inv assms(2)])
  moreover from accounts_create_effect [OF assms(2)] consider "d' = sys_db \<sigma>"
    | a where "d' = apply_write (InsertAccount a) (sys_db \<sigma>)"
    by blast
  then have "(\<forall>s \<in> set (sys_sess \<sigma>). sess_ok C (sys_xid \<sigma>) d' s) \<and> grows (sys_db \<sigma>) d'"
  proof cases
    case (2 a)
    then have "entries_of d' t = entries_of (sys_db \<sigma>) t" for t
      by (simp add: entries_of_def table_simps)
    then have "grows (sys_db \<sigma>) d'"
      using apply_write_extends [of "sys_db \<sigma>" "InsertAccount a"] 2 by (simp add: grows_def)
    moreover have "\<forall>s \<in> set (sys_sess \<sigma>). sess_ok C (sys_xid \<sigma>) d' s"
      using assms(1) by (auto simp: sys_inv_def intro: open_env [OF inv _ 2])
    ultimately show ?thesis by simp
  qed (use assms(1) in \<open>simp add: sys_inv_def\<close>)
  ultimately show ?thesis
    using assms(1) by (simp add: sys_inv_def)
qed

lemma cstep_keeps:
  assumes "sys_inv C \<sigma>" and "cstep C \<sigma> \<sigma>'"
  shows "sys_inv C \<sigma>' \<and> grows (sys_db \<sigma>) (sys_db \<sigma>')"
  using assms(2)
proof (cases rule: cstep.cases)
  case (run i)
  then show ?thesis using run_step_keeps [OF assms(1)] by blast
next
  case (abort i e)
  then show ?thesis using stop_keeps [OF assms(1)] by (simp add: settled_def set_session_def)
next
  case (lost_reply i s' d' e)
  then show ?thesis using lost_reply_keeps [OF assms(1)] by (simp add: set_session_def)
next
  case (request intent ev key)
  then show ?thesis using request_keeps [OF assms(1)] by simp
next
  case (open_account f now i name cur allows res d')
  then show ?thesis using open_keeps [OF assms(1)] by simp
qed

sublocale system: step_invariant idle_system "cstep C" "sys_inv C"
proof
  show "idle_system \<sigma> \<Longrightarrow> sys_inv C \<sigma>" for \<sigma>
    by (simp add: idle_system_def sys_inv_def)
  show "sys_inv C \<sigma> \<Longrightarrow> cstep C \<sigma> \<sigma>' \<Longrightarrow> sys_inv C \<sigma>'" for \<sigma> \<sigma>'
    using cstep_keeps by blast
qed

lemma system_reach_inv: "system_reach C \<sigma> \<Longrightarrow> sys_inv C \<sigma>"
  unfolding system_reach_def using system.invariant by blast

end

section \<open>Progress\<close>

text \<open>
  A session that waits for a row waits for a holder that is further up in the order of ids, so a
  chain of waiting sessions ends at one that can run.
\<close>

lemma wants_next_row:
  assumes "sensible C s" and "s_pc s = AtLock2"
  shows "lock_order s ! 0 < lock_order s ! 1"
  using assms by (auto simp: sensible_def lock_order_def)

lemma blocked_cases:
  assumes "blocked \<sigma> i" and "i < length (sys_sess \<sigma>)"
  obtains j where "j < length (sys_sess \<sigma>)" "j \<noteq> i" "active (s_pc (sys_sess \<sigma> ! j))"
    and "s_pc (sys_sess \<sigma> ! i) = AtLock2 \<Longrightarrow> lock_order (sys_sess \<sigma> ! i) ! 1 \<in> holds (sys_sess \<sigma> ! j)"
    and "s_pc (sys_sess \<sigma> ! i) = AtLock1 \<Longrightarrow> lock_order (sys_sess \<sigma> ! i) ! 0 \<in> holds (sys_sess \<sigma> ! j)"
    and "s_pc (sys_sess \<sigma> ! i) \<in> {AtClaim, AtLock1, AtLock2}"
proof -
  obtain j where j: "j < length (sys_sess \<sigma>)" "j \<noteq> i" "waits_for (sys_sess \<sigma> ! i) (sys_sess \<sigma> ! j)"
    using assms(1) by (auto simp: blocked_def)
  have "active (s_pc t)" if "holds t \<noteq> {}" for t :: "'a session"
    using that by (cases "s_pc t") (simp_all add: holds_def active_def)
  with j show ?thesis
    using that [of j] by (cases "s_pc (sys_sess \<sigma> ! i)") (auto simp: waits_for_def)
qed

lemma holds_blocked:
  assumes "blocked \<sigma> i" and "i < length (sys_sess \<sigma>)" and "a \<in> holds (sys_sess \<sigma> ! i)"
  shows "s_pc (sys_sess \<sigma> ! i) = AtLock2 \<and> a = lock_order (sys_sess \<sigma> ! i) ! 0"
  using assms by (auto elim!: blocked_cases simp: holds_def)

text \<open>If every running session waited, each one at its second lock would wait for another such session.\<close>

definition all_blocked :: "'d system \<Rightarrow> bool" where
  "all_blocked \<sigma> \<longleftrightarrow> (\<forall>j < length (sys_sess \<sigma>). running (sys_sess \<sigma> ! j) \<longrightarrow> blocked \<sigma> j)"

lemma active_running: "active (s_pc s) \<Longrightarrow> running s"
  by (auto simp: active_def running_def)

lemma holder_waits:
  assumes "all_blocked \<sigma>" and "k < length (sys_sess \<sigma>)" and "active (s_pc (sys_sess \<sigma> ! k))"
    and "a \<in> holds (sys_sess \<sigma> ! k)"
  shows "s_pc (sys_sess \<sigma> ! k) = AtLock2 \<and> lock_order (sys_sess \<sigma> ! k) ! 0 = a"
  using holds_blocked [of \<sigma> k a] active_running assms by (auto simp: all_blocked_def)

lemma second_lock_waits:
  assumes "all_blocked \<sigma>" and "m < length (sys_sess \<sigma>)" and "s_pc (sys_sess \<sigma> ! m) = AtLock2"
  shows "\<exists>k < length (sys_sess \<sigma>). s_pc (sys_sess \<sigma> ! k) = AtLock2 \<and>
    lock_order (sys_sess \<sigma> ! k) ! 0 = lock_order (sys_sess \<sigma> ! m) ! 1"
proof -
  have "blocked \<sigma> m"
    using assms by (simp add: all_blocked_def running_def)
  then obtain k where "k < length (sys_sess \<sigma>)" "active (s_pc (sys_sess \<sigma> ! k))"
    "lock_order (sys_sess \<sigma> ! m) ! 1 \<in> holds (sys_sess \<sigma> ! k)"
    by (rule blocked_cases [OF _ assms(2)]) (use assms(3) in blast)
  then show ?thesis
    using holder_waits [OF assms(1)] by blast
qed

lemma second_lock_exists:
  assumes "all_blocked \<sigma>" and "i < length (sys_sess \<sigma>)" and "running (sys_sess \<sigma> ! i)"
  shows "\<exists>m < length (sys_sess \<sigma>). s_pc (sys_sess \<sigma> ! m) = AtLock2"
proof -
  have wait: "blocked \<sigma> j" if "j < length (sys_sess \<sigma>)" "running (sys_sess \<sigma> ! j)" for j
    using assms(1) that by (simp add: all_blocked_def)
  obtain j where j: "j < length (sys_sess \<sigma>)" "active (s_pc (sys_sess \<sigma> ! j))"
    using blocked_cases [OF wait [OF assms(2,3)] assms(2)] by metis
  from wait [OF j(1) active_running [OF j(2)]] j(1) show ?thesis
  proof (cases rule: blocked_cases)
    case (1 k)
    then show ?thesis
      using j holder_waits [OF assms(1) 1(1,3)] by (auto simp: active_def)
  qed
qed

definition runs :: "'d crates \<Rightarrow> 'd system \<Rightarrow> 'd system \<Rightarrow> bool" where
  "runs C \<sigma> \<sigma>' \<longleftrightarrow> (\<exists>i. run_step C i \<sigma> \<sigma>')"

definition work :: "'d system \<Rightarrow> nat" where
  "work \<sigma> = sum_list (map (\<lambda>s. 9 - rank (s_pc s)) (sys_sess \<sigma>))"

lemma rank_le: "rank p \<le> 9"
  by (cases p) simp_all

lemma rank_next: "p \<noteq> AtCommit \<Longrightarrow> rank p \<noteq> 9 \<Longrightarrow> rank (next_pc p) = Suc (rank p)"
  by (cases p) simp_all

lemma work_le: "work \<sigma> \<le> 9 * length (sys_sess \<sigma>)"
  using sum_list_mono [of "sys_sess \<sigma>" "\<lambda>s. 9 - rank (s_pc s)" "\<lambda>_. 9"] by (simp add: work_def sum_list_triv)

lemma work_set:
  assumes "i < length (sys_sess \<sigma>)" and "rank (s_pc (sys_sess \<sigma> ! i)) < rank (s_pc s')"
  shows "work (set_session \<sigma> i s' d') < work \<sigma>"
proof -
  let ?f = "\<lambda>s. 9 - rank (s_pc s)"
  have "?f s' < ?f (sys_sess \<sigma> ! i)"
    using assms(2) rank_le [of "s_pc s'"] by linarith
  moreover have "?f (sys_sess \<sigma> ! i) \<le> sum_list (map ?f (sys_sess \<sigma>))"
    using assms(1) by (intro member_le_sum_list) auto
  ultimately show ?thesis
    using assms(1) by (simp add: work_def set_session_def map_update sum_list_update)
qed

context crate_contracts
begin

lemma not_stuck:
  assumes inv: "sys_inv C \<sigma>" and "i < length (sys_sess \<sigma>)" and "running (sys_sess \<sigma> ! i)"
  shows "\<exists>j < length (sys_sess \<sigma>). running (sys_sess \<sigma> ! j) \<and> \<not> blocked \<sigma> j"
proof (rule ccontr)
  assume "\<not> ?thesis"
  then have stuck: "all_blocked \<sigma>"
    by (auto simp: all_blocked_def)
  define B where "B = {j. j < length (sys_sess \<sigma>) \<and> s_pc (sys_sess \<sigma> ! j) = AtLock2}"
  define lo where "lo k = lock_order (sys_sess \<sigma> ! k) ! 0" for k
  have fin: "finite B"
    by (simp add: B_def)
  have "B \<noteq> {}"
    using second_lock_exists [OF stuck assms(2,3)] by (auto simp: B_def)
  with fin have "Max (lo ` B) \<in> lo ` B"
    by simp
  then obtain m where m: "m \<in> B" "lo m = Max (lo ` B)"
    by auto
  then have ml: "m < length (sys_sess \<sigma>)" "s_pc (sys_sess \<sigma> ! m) = AtLock2"
    by (simp_all add: B_def)
  then have "sess_ok C (sys_xid \<sigma>) (sys_db \<sigma>) (sys_sess \<sigma> ! m)"
    using inv by (simp add: sys_inv_def)
  then have "lo m < lock_order (sys_sess \<sigma> ! m) ! 1"
    using ml(2) wants_next_row [of C "sys_sess \<sigma> ! m"]
    by (simp add: lo_def sess_ok_def on_stage_def running_def claimed_def)
  moreover obtain k where k: "k \<in> B" "lo k = lock_order (sys_sess \<sigma> ! m) ! 1"
    using second_lock_waits [OF stuck ml] by (auto simp: B_def lo_def)
  ultimately have "lo m < lo k"
    by simp
  moreover from k(1) have "lo k \<le> lo m"
    unfolding m(2) using fin by (intro Max_ge) auto
  ultimately show False
    by simp
qed

lemma run_step_work:
  assumes "sys_inv C \<sigma>" and "run_step C i \<sigma> \<sigma>'"
  shows "work \<sigma>' < work \<sigma>"
  using assms(2)
proof (cases rule: run_step.cases)
  case (1 s' d')
  have "rank (s_pc (sys_sess \<sigma> ! i)) < rank (s_pc s')"
    using assms(1) 1(2,3,5)
  proof (cases rule: run_cases)
    case on
    then show ?thesis using 1(3) rank_next [of "s_pc (sys_sess \<sigma> ! i)"] by (simp add: running_def)
  next
    case (stop r d0)
    then show ?thesis using 1(3) rank_le [of "s_pc (sys_sess \<sigma> ! i)"] by (simp add: running_def)
  qed
  then show ?thesis
    unfolding 1(1) by (rule work_set [OF 1(2)])
qed

lemma runs_keeps: "sys_inv C \<sigma> \<Longrightarrow> (runs C)\<^sup>*\<^sup>* \<sigma> \<sigma>' \<Longrightarrow> sys_inv C \<sigma>'"
  by (rotate_tac, induction rule: rtranclp_induct) (auto simp: runs_def dest: run_step_keeps)

lemma runs_bounded: "sys_inv C \<sigma> \<Longrightarrow> (runs C ^^ n) \<sigma> \<sigma>' \<Longrightarrow> n + work \<sigma>' \<le> work \<sigma>"
proof (induction n arbitrary: \<sigma>')
  case (Suc n)
  then obtain \<tau> i where \<tau>: "(runs C ^^ n) \<sigma> \<tau>" "run_step C i \<tau> \<sigma>'"
    unfolding relpowp.simps runs_def [of _ _ \<sigma>'] OO_def by blast
  have "sys_inv C \<tau>"
    using runs_keeps [OF Suc.prems(1)] \<tau>(1) relpowp_imp_rtranclp by metis
  with Suc \<tau> show ?case
    using run_step_work by fastforce
qed simp

lemma stopped_iff_final:
  assumes "sys_inv C \<sigma>"
  shows "(\<forall>s \<in> set (sys_sess \<sigma>). \<not> running s) \<longleftrightarrow> (\<nexists>\<sigma>'. runs C \<sigma> \<sigma>')"
proof
  assume final: "\<nexists>\<sigma>'. runs C \<sigma> \<sigma>'"
  show "\<forall>s \<in> set (sys_sess \<sigma>). \<not> running s"
  proof (rule ccontr)
    assume "\<not> ?thesis"
    then obtain i where "i < length (sys_sess \<sigma>)" "running (sys_sess \<sigma> ! i)"
      by (auto simp: in_set_conv_nth)
    from not_stuck [OF assms this]
    obtain j where j: "j < length (sys_sess \<sigma>)" "running (sys_sess \<sigma> ! j)" "\<not> blocked \<sigma> j"
      by blast
    obtain s' d' where "advance C (sys_db \<sigma>) (sys_sess \<sigma> ! j) = (s', d')"
      by fastforce
    from run_step.intros [OF j this] final show False
      by (auto simp: runs_def)
  qed
qed (auto simp: runs_def elim: run_stepE)

lemma drains:
  assumes "sys_inv C \<sigma>"
  shows "\<exists>\<sigma>'. (runs C)\<^sup>*\<^sup>* \<sigma> \<sigma>' \<and> (\<forall>s \<in> set (sys_sess \<sigma>'). \<not> running s)"
  using assms
proof (induction "work \<sigma>" arbitrary: \<sigma> rule: less_induct)
  case less
  show ?case
  proof (cases "\<exists>\<tau>. runs C \<sigma> \<tau>")
    case True
    then obtain i \<tau> where \<tau>: "run_step C i \<sigma> \<tau>"
      by (auto simp: runs_def)
    then obtain \<sigma>' where "(runs C)\<^sup>*\<^sup>* \<tau> \<sigma>'" "\<forall>s \<in> set (sys_sess \<sigma>'). \<not> running s"
      using less.hyps run_step_work run_step_keeps less.prems by blast
    moreover have "runs C \<sigma> \<tau>"
      using \<tau> by (auto simp: runs_def)
    ultimately show ?thesis
      by (meson converse_rtranclp_into_rtranclp)
  next
    case False
    then show ?thesis
      using stopped_iff_final [OF less.prems] by blast
  qed
qed

lemma same_key_same_result:
  assumes "sys_inv C \<sigma>" and "i < length (sys_sess \<sigma>)" and "j < length (sys_sess \<sigma>)" and "i \<noteq> j"
    and "s_key (sys_sess \<sigma> ! i) = s_key (sys_sess \<sigma> ! j)"
    and "s_pc (sys_sess \<sigma> ! i) = Stopped (Ok p)" and "s_pc (sys_sess \<sigma> ! j) = Stopped (Ok q)"
  shows "res_detail p = res_detail q \<and> \<not> (res_outcome p = Created \<and> res_outcome q = Created)"
proof -
  have "sess_ok C (sys_xid \<sigma>) (sys_db \<sigma>) (sys_sess \<sigma> ! i)" "sess_ok C (sys_xid \<sigma>) (sys_db \<sigma>) (sys_sess \<sigma> ! j)"
    and "apart (sys_sess \<sigma> ! i) (sys_sess \<sigma> ! j)"
    using assms(1-4) by (simp_all add: sys_inv_def)
  then show ?thesis
    using assms(5-7) by (auto simp: sess_ok_def settled_def backed_def apart_def)
qed

text \<open>A schedule that lets one session run to its end while nobody else is inside a transaction.\<close>

lemma run_alone:
  assumes "finishes C s d r e"
  shows "sys_inv C \<sigma> \<Longrightarrow> i < length (sys_sess \<sigma>) \<Longrightarrow> s = sys_sess \<sigma> ! i \<Longrightarrow> d = sys_db \<sigma> \<Longrightarrow>
    (\<And>j. j < length (sys_sess \<sigma>) \<Longrightarrow> j \<noteq> i \<Longrightarrow> \<not> active (s_pc (sys_sess \<sigma> ! j))) \<Longrightarrow>
    \<exists>s'. (run_step C i)\<^sup>*\<^sup>* \<sigma> (set_session \<sigma> i s' e) \<and> s_pc s' = Stopped r \<and>
      s_key s' = s_key s \<and> s_intent s' = s_intent s"
  using assms
proof (induction arbitrary: \<sigma> rule: finishes.induct)
  case (halt s r d)
  then have "set_session \<sigma> i s d = \<sigma>"
    by (simp add: set_session_def)
  with halt.hyps show ?case
    by (intro exI [of _ s]) simp
next
  case (more s d s' d' r d'')
  have "holds t = {}" if "\<not> active (s_pc t)" for t :: "'d session"
    using that by (cases "s_pc t") (simp_all add: holds_def active_def)
  then have "\<not> blocked \<sigma> i"
    using more.prems(5) unfolding blocked_def waits_for_def by blast
  moreover have run: "running (sys_sess \<sigma> ! i)"
    using more.hyps(1) more.prems(3) by (simp add: running_iff)
  moreover have adv: "advance C (sys_db \<sigma>) (sys_sess \<sigma> ! i) = (s', d')"
    using more.hyps(2) more.prems(3,4) by simp
  ultimately have step: "run_step C i \<sigma> (set_session \<sigma> i s' d')"
    using more.prems(2) by (intro run_step.intros)
  have key: "s_key s' = s_key s \<and> s_intent s' = s_intent s"
    using more.prems(1,2) run adv by (cases rule: run_cases) (simp_all add: more.prems(3))
  let ?\<tau> = "set_session \<sigma> i s' d'"
  have sess: "i < length (sys_sess ?\<tau>)" "s' = sys_sess ?\<tau> ! i" "d' = sys_db ?\<tau>"
    using more.prems(2) by (simp_all add: set_session_def)
  have others: "\<not> active (s_pc (sys_sess ?\<tau> ! j))" if "j < length (sys_sess ?\<tau>)" "j \<noteq> i" for j
    using more.prems(5) that by (simp add: set_session_def)
  have "sys_inv C ?\<tau>"
    using run_step_keeps [OF more.prems(1) step] by simp
  from more.IH [OF this sess others] obtain t where
    "(run_step C i)\<^sup>*\<^sup>* ?\<tau> (set_session ?\<tau> i t d'')" "s_pc t = Stopped r"
    "s_key t = s_key s" "s_intent t = s_intent s"
    using key by auto
  moreover have "set_session ?\<tau> i t d'' = set_session \<sigma> i t d''"
    by (simp add: set_session_def)
  ultimately show ?case
    using step by (metis converse_rtranclp_into_rtranclp)
qed

end

end
