(* ===== verification/Concurrency_Properties.thy ===== *)
theory Concurrency_Properties
  imports Concurrency Transfer_Guarantees
begin

text \<open>
  The three claims of the module comment of \<open>src/db/transfers.rs\<close> about concurrent transfers, and a
  concrete race: two requests with the same key and the same content admitted at the same time.
\<close>

section \<open>Two requests with the same key\<close>

definition racer :: "nat \<Rightarrow> rdec session" where
  "racer n = start (lit ''new'') sample_transfer (sample_ev (\<lambda>_. NoFault) n)"

definition racing :: "rdec system" where
  "racing = \<lparr>sys_db = sample_ledger, sys_xid = 10, sys_sess = [racer 0, racer 1]\<rparr>"

lemma sample_unused: "n < 2 \<Longrightarrow> unused sample_ledger (sample_ev f n)"
  by (cases n) (simp_all add: unused_def fresh_entry_ids_def sample_ev_def transaction_row_def row_def
      sample_ledger_def sample_books_def sample_transaction_def sample_entries_row_def)

lemma racing_reach: "system_reach ref_crates racing"
proof -
  let ?idle = "\<lparr>sys_db = sample_ledger, sys_xid = 8, sys_sess = []\<rparr> :: rdec system"
  let ?one = "\<lparr>sys_db = sample_ledger, sys_xid = 9, sys_sess = [racer 0]\<rparr>"
  have "cstep ref_crates ?idle ?one"
    using cstep.request [OF sample_transfer_ok, of "sample_ev (\<lambda>_. NoFault) 0" ?idle "lit ''new''"]
      sample_unused [of 0]
    by (simp add: fresh_for_def sample_fault_simps racer_def)
  moreover have "cstep ref_crates ?one racing"
    using cstep.request [OF sample_transfer_ok, of "sample_ev (\<lambda>_. NoFault) 1" ?one "lit ''new''"]
      sample_unused [of 1]
    by (simp add: fresh_for_def racer_def racing_def start_def entry_ids_def sample_ev_def)
  moreover have "idle_system ?idle"
    using sample_ledger_inv by (simp add: idle_system_def)
  ultimately show ?thesis
    unfolding system_reach_def by (meson converse_rtranclp_into_rtranclp rtranclp.rtrancl_refl)
qed

lemma racing_inv: "sys_inv ref_crates racing"
  by (rule ref.system_reach_inv [OF racing_reach])

text \<open>The first session runs to its end: it creates the transaction.\<close>

lemma first_racer:
  "\<exists>res d1. res_outcome res = Created \<and> finishes ref_crates (racer 0) sample_ledger (Ok res) d1"
proof -
  let ?ev = "raced id (sample_ev (\<lambda>_. NoFault) 0)"
  obtain r d1 where run: "execute_once ref_crates ?ev (lit ''new'') sample_transfer sample_ledger = (r, d1)"
    by fastforce
  have "calm ?ev = ?ev" "?ev = sample_ev (\<lambda>_. NoFault) 0"
    by (simp_all add: raced_def calm_def sample_ev_def)
  then have "summary r = Ok (Created, 20)"
    using ref.execute_once_refines [of sample_ledger ?ev sample_transfer "lit ''new''"] run
      sample_spec [of "\<lambda>_. NoFault"]
    by (simp add: sample_constraints sample_transfer_ok sample_fault_simps)
  then show ?thesis
    using run by (cases r) (auto simp: racer_def finishes_start)
qed

lemma racing_simps:
  "length (sys_sess racing) = 2" "sys_sess racing ! 0 = racer 0" "sys_sess racing ! 1 = racer 1"
  "sys_sess racing ! Suc 0 = racer 1" "sys_db racing = sample_ledger"
  by (simp_all add: racing_def)

lemma racer_simps [simp]:
  "s_pc (racer n) = AtFind" "s_key (racer n) = lit ''new''" "s_intent (racer n) = sample_transfer"
  by (simp_all add: racer_def start_def)

lemma run_steps_runs: "(run_step C i)\<^sup>*\<^sup>* \<sigma> \<sigma>' \<Longrightarrow> (runs C)\<^sup>*\<^sup>* \<sigma> \<sigma>'"
  by (induction rule: rtranclp_induct) (auto simp: runs_def intro: rtranclp.rtrancl_into_rtrancl)

lemma runs_reach: "system_reach C \<sigma> \<Longrightarrow> (runs C)\<^sup>*\<^sup>* \<sigma> \<sigma>' \<Longrightarrow> system_reach C \<sigma>'"
proof -
  assume "system_reach C \<sigma>" and "(runs C)\<^sup>*\<^sup>* \<sigma> \<sigma>'"
  moreover have "runs C \<le> cstep C"
    by (auto simp: runs_def intro: cstep.run)
  ultimately show "system_reach C \<sigma>'"
    unfolding system_reach_def by (meson predicate2D rtranclp_mono rtranclp_trans)
qed

lemma run_steps_reach: "system_reach C \<sigma> \<Longrightarrow> (run_step C i)\<^sup>*\<^sup>* \<sigma> \<sigma>' \<Longrightarrow> system_reach C \<sigma>'"
  using runs_reach run_steps_runs by blast

lemma after_first:
  "\<exists>res d1 s. res_outcome res = Created \<and> s_pc s = Stopped (Ok res) \<and> s_key s = lit ''new'' \<and>
     s_intent s = sample_transfer \<and>
     (run_step ref_crates 0)\<^sup>*\<^sup>* racing (set_session racing 0 s d1)"
proof -
  obtain res d1 where "res_outcome res = Created" "finishes ref_crates (racer 0) sample_ledger (Ok res) d1"
    using first_racer by blast
  moreover from ref.run_alone [OF this(2) racing_inv, of 0]
  have "\<exists>s. (run_step ref_crates 0)\<^sup>*\<^sup>* racing (set_session racing 0 s d1) \<and> s_pc s = Stopped (Ok res) \<and>
      s_key s = s_key (racer 0) \<and> s_intent s = s_intent (racer 0)"
    by (simp add: racing_simps less_2_cases_iff active_def)
  ultimately show ?thesis
    by auto
qed

lemma after_both:
  "\<exists>p q s t d1. (runs ref_crates)\<^sup>*\<^sup>* racing (set_session (set_session racing 0 s d1) 1 t d1) \<and>
     s_pc s = Stopped (Ok p) \<and> s_key s = lit ''new'' \<and> s_pc t = Stopped (Ok q) \<and> s_key t = lit ''new'' \<and>
     res_outcome p = Created \<and> res_outcome q = Replayed"
proof -
  obtain p d1 s where s: "res_outcome p = Created" "s_pc s = Stopped (Ok p)" "s_key s = lit ''new''"
    and s_int: "s_intent s = sample_transfer"
    and first: "(run_step ref_crates 0)\<^sup>*\<^sup>* racing (set_session racing 0 s d1)"
    using after_first by blast
  let ?\<sigma> = "set_session racing 0 s d1" and ?ev = "raced id (sample_ev (\<lambda>_. NoFault) 1)"
  let ?q = "\<lparr>res_outcome = Replayed, res_detail = res_detail p\<rparr>"
  have inv: "sys_inv ref_crates ?\<sigma>"
    by (rule ref.system_reach_inv [OF run_steps_reach [OF racing_reach first]])
  have sess: "length (sys_sess ?\<sigma>) = 2" "sys_sess ?\<sigma> ! 0 = s" "sys_sess ?\<sigma> ! 1 = racer 1" "sys_db ?\<sigma> = d1"
    by (simp_all add: set_session_def racing_def)
  have "ledger_inv 10 d1" "backed ref_crates (lit ''new'') sample_transfer p d1"
    using inv s s_int by (auto simp: sys_inv_def set_session_def racing_def sess_ok_def settled_def)
  then have "execute_once ref_crates ?ev (lit ''new'') sample_transfer d1 = (Ok ?q, d1)"
    by (rule replay_later) (simp_all add: no_fault_def fun_eq_iff)
  then have "finishes ref_crates (racer 1) d1 (Ok ?q) d1"
    by (simp add: racer_def finishes_start)
  from ref.run_alone [OF this inv, of 1]
  obtain t where "(run_step ref_crates 1)\<^sup>*\<^sup>* ?\<sigma> (set_session ?\<sigma> 1 t d1)"
    "s_pc t = Stopped (Ok ?q)" "s_key t = lit ''new''"
    using sess s(2) by (auto simp: less_2_cases_iff active_def)
  then show ?thesis
    using rtranclp_trans [OF run_steps_runs [OF first] run_steps_runs] s by fastforce
qed

section \<open>Properties\<close>

text \<open>
  A session that runs its statements one after the other, with nobody else committing in between,
  ends, and with exactly the result and the ledger that \<open>execute_once\<close> computes as one function.
\<close>

lemma session_runs_execute_once:
  "finishes C (start key intent ev) d r e \<longleftrightarrow> execute_once C (raced id ev) key intent d = (r, e)"
  by (rule finishes_start)

text \<open>
  C2: concurrent transfers are linearizable. Whatever sessions are under way, a statement of one of
  them either leaves the ledger as it is and the session running, or ends the session; and then its
  result and its effect on the ledger are those of one call of \<open>execute_once\<close> executed at this moment,
  whose lookup of the key saw some earlier state of the ledger.
\<close>

theorem transfers_linearizable:
  assumes "crate_contracts C" and "system_reach C \<sigma>" and "run_step C i \<sigma> \<sigma>'"
  shows "running (sys_sess \<sigma>' ! i) \<and> sys_db \<sigma>' = sys_db \<sigma> \<or>
    (\<exists>r d0. s_pc (sys_sess \<sigma>' ! i) = Stopped r \<and> grows d0 (sys_db \<sigma>) \<and>
       execute_once C (raced (\<lambda>_. sys_db \<sigma>) (s_ev (sys_sess \<sigma> ! i))) (s_key (sys_sess \<sigma> ! i))
         (s_intent (sys_sess \<sigma> ! i)) d0 = (r, sys_db \<sigma>'))"
  using assms(3)
proof (cases rule: run_step.cases)
  case (1 s' d')
  from assms(1) crate_contracts.system_reach_inv [OF assms(1,2)] 1(2,3,5) show ?thesis
    by (cases rule: crate_contracts.run_cases) (use 1(1,2) in \<open>auto simp: set_session_def\<close>)
qed

theorem transfers_linearizable_witness:
  "\<exists>\<sigma> \<sigma>' res d0. system_reach ref_crates \<sigma> \<and> run_step ref_crates 0 \<sigma> \<sigma>' \<and> res_outcome res = Created \<and>
     execute_once ref_crates (raced (\<lambda>_. sys_db \<sigma>) (s_ev (sys_sess \<sigma> ! 0))) (s_key (sys_sess \<sigma> ! 0))
       (s_intent (sys_sess \<sigma> ! 0)) d0 = (Ok res, sys_db \<sigma>')"
proof -
  obtain res d1 s where s: "res_outcome res = Created" "s_pc s = Stopped (Ok res)"
    and steps: "(run_step ref_crates 0)\<^sup>*\<^sup>* racing (set_session racing 0 s d1)"
    using after_first by blast
  have last: "sys_sess (set_session racing 0 s d1) ! 0 = s"
    by (simp add: set_session_def racing_def)
  then have "racing \<noteq> set_session racing 0 s d1"
    using s(2) racer_simps(1) [of 0] racing_simps(2) by (metis pc.distinct)
  with steps obtain \<tau> where \<tau>: "(run_step ref_crates 0)\<^sup>*\<^sup>* racing \<tau>" "run_step ref_crates 0 \<tau> (set_session racing 0 s d1)"
    by (metis rtranclp.cases)
  have "system_reach ref_crates \<tau>"
    by (rule run_steps_reach [OF racing_reach \<tau>(1)])
  with transfers_linearizable [OF ref.crate_contracts_axioms this \<tau>(2)] show ?thesis
    using \<tau>(2) s last by (auto simp: running_iff)
qed

text \<open>
  C5: concurrency never breaks the books. In every state that any interleaving of sessions can reach,
  with sessions failing anywhere, commits whose reply is lost, requests arriving and accounts being
  opened, the ledger invariant holds, the reconciliation sweep passes and no protected account is
  below zero; and every step only appends to the history.
\<close>

theorem concurrent_books_balance:
  assumes "crate_contracts C" and "system_reach C \<sigma>"
  shows "ledger_inv (sys_xid \<sigma>) (sys_db \<sigma>) \<and> sweep_passes (sys_db \<sigma>) \<and>
    (\<forall>a \<in> set (accounts (sys_db \<sigma>)). \<not> a_allows_negative_balance a \<longrightarrow> 0 \<le> a_balance a) \<and>
    (\<forall>\<sigma>'. cstep C \<sigma> \<sigma>' \<longrightarrow> grows (sys_db \<sigma>) (sys_db \<sigma>'))"
proof -
  have sys: "sys_inv C \<sigma>"
    by (rule crate_contracts.system_reach_inv [OF assms])
  then have inv: "ledger_inv (sys_xid \<sigma>) (sys_db \<sigma>)"
    by (simp add: sys_inv_def)
  have "\<forall>a \<in> set (accounts (sys_db \<sigma>)). account_ok a"
    using ledger_inv_constraints [OF inv] by (simp add: constraints_def)
  then show ?thesis
    using inv ledger_inv_sweep [OF inv] crate_contracts.cstep_keeps [OF assms(1) sys]
    by (auto simp: account_ok_def accounts_check_def split: if_splits)
qed

theorem concurrent_books_balance_witness:
  "\<exists>\<sigma>. system_reach ref_crates \<sigma> \<and> length (sys_sess \<sigma>) = 2 \<and> sweep_passes (sys_db \<sigma>)"
  using concurrent_books_balance [OF ref.crate_contracts_axioms racing_reach] racing_reach racing_simps(1) by blast

text \<open>
  C6: transfers cannot deadlock. From every reachable state the running sessions make at most nine
  steps each, whatever the schedule; a schedule that can go no further has ended every session; and
  there is one. So a session that waits for a key or a row always gets it.
\<close>

theorem transfers_never_deadlock:
  assumes "crate_contracts C" and "system_reach C \<sigma>"
  shows "(\<forall>n \<sigma>'. (runs C ^^ n) \<sigma> \<sigma>' \<longrightarrow> n \<le> 9 * length (sys_sess \<sigma>)) \<and>
    (\<forall>\<sigma>'. (runs C)\<^sup>*\<^sup>* \<sigma> \<sigma>' \<and> (\<nexists>\<tau>. runs C \<sigma>' \<tau>) \<longrightarrow> (\<forall>s \<in> set (sys_sess \<sigma>'). \<not> running s)) \<and>
    (\<exists>\<sigma>'. (runs C)\<^sup>*\<^sup>* \<sigma> \<sigma>' \<and> (\<forall>s \<in> set (sys_sess \<sigma>'). \<not> running s))"
proof -
  have inv: "sys_inv C \<sigma>"
    by (rule crate_contracts.system_reach_inv [OF assms])
  have "n \<le> 9 * length (sys_sess \<sigma>)" if "(runs C ^^ n) \<sigma> \<sigma>'" for n \<sigma>'
    using crate_contracts.runs_bounded [OF assms(1) inv that] work_le [of \<sigma>] by simp
  then show ?thesis
    using crate_contracts.runs_keeps [OF assms(1) inv] crate_contracts.stopped_iff_final [OF assms(1)]
      crate_contracts.drains [OF assms(1) inv]
    by blast
qed

theorem transfers_never_deadlock_witness:
  "\<exists>\<sigma>. (runs ref_crates)\<^sup>*\<^sup>* racing \<sigma> \<and> (\<forall>s \<in> set (sys_sess \<sigma>). \<not> running s)"
  using transfers_never_deadlock [OF ref.crate_contracts_axioms racing_reach] by blast

text \<open>
  C7: one winner per key. However sessions with the same idempotency key are interleaved, all of them
  that succeed report the same transaction and at most one of them created it.
\<close>

theorem one_winner_per_key:
  assumes "crate_contracts C" and "system_reach C \<sigma>"
    and "i < length (sys_sess \<sigma>)" and "j < length (sys_sess \<sigma>)" and "i \<noteq> j"
    and "s_key (sys_sess \<sigma> ! i) = s_key (sys_sess \<sigma> ! j)"
    and "s_pc (sys_sess \<sigma> ! i) = Stopped (Ok p)" and "s_pc (sys_sess \<sigma> ! j) = Stopped (Ok q)"
  shows "res_detail p = res_detail q \<and> \<not> (res_outcome p = Created \<and> res_outcome q = Created)"
  by (rule crate_contracts.same_key_same_result [OF assms(1) crate_contracts.system_reach_inv [OF assms(1,2)]
        assms(3-8)])

theorem one_winner_per_key_witness:
  "\<exists>\<sigma> p q. system_reach ref_crates \<sigma> \<and> s_pc (sys_sess \<sigma> ! 0) = Stopped (Ok p) \<and>
     s_pc (sys_sess \<sigma> ! 1) = Stopped (Ok q) \<and> res_outcome p = Created \<and> res_detail p = res_detail q"
proof -
  obtain p q s t d1 where reach: "system_reach ref_crates (set_session (set_session racing 0 s d1) 1 t d1)"
    and st: "s_pc s = Stopped (Ok p)" "s_key s = lit ''new''" "s_pc t = Stopped (Ok q)" "s_key t = lit ''new''"
    and out: "res_outcome p = Created"
    using after_both runs_reach [OF racing_reach] by blast
  let ?\<sigma> = "set_session (set_session racing 0 s d1) 1 t d1"
  have sess: "length (sys_sess ?\<sigma>) = 2" "sys_sess ?\<sigma> ! 0 = s" "sys_sess ?\<sigma> ! 1 = t"
    by (simp_all add: set_session_def racing_def)
  have "res_detail p = res_detail q"
    using one_winner_per_key [OF ref.crate_contracts_axioms reach, of 0 1 p q] st
    by (simp add: set_session_def racing_def)
  then show ?thesis
    using reach sess st out by metis
qed

end
