(* ===== verification/Contention.thy ===== *)
theory Contention
  imports Concurrency_Properties
begin

text \<open>
  Many sessions draining one account, the concurrency tests of \<open>tests/ledger.rs\<close>
  (\<open>concurrent_oversubscription_never_overdraws\<close>, \<open>one_hundred_parallel_transfers_drain_an_account_to_exactly_zero\<close>,
  \<open>the_balance_check_is_linearizable_even_without_the_check_constraint\<close>) for any number of sessions, any
  amount, any balance and every schedule.
\<close>

section \<open>Draining an account\<close>

text \<open>Whether a session has created its transaction, and how many have.\<close>

fun won_at :: "'d pc \<Rightarrow> nat" where
  "won_at (Stopped (Ok res)) = (if res_outcome res = Created then 1 else 0)"
| "won_at _ = 0"

definition wins :: "'d system \<Rightarrow> nat" where
  "wins \<sigma> = sum_list (map (\<lambda>s. won_at (s_pc s)) (sys_sess \<sigma>))"

text \<open>A session that wants to move \<open>u\<close> units from \<open>a\<close> to \<open>b\<close>.\<close>

definition contender :: "'d crates \<Rightarrow> uuid \<Rightarrow> uuid \<Rightarrow> str \<Rightarrow> int \<Rightarrow> 'd session \<Rightarrow> bool" where
  "contender C a b cur u s \<longleftrightarrow>
     from_account_id (s_intent s) = a \<and> to_account_id (s_intent s) = b \<and> intent_units C (s_intent s) = u \<and>
     as_str (m_currency (intent_amount (s_intent s))) = cur \<and> text_ok (s_key s) \<and>
     text_ok (intent_description (s_intent s))"

text \<open>All sessions have just been admitted and want the same account; \<open>f\<close> and \<open>g\<close> are the two rows.\<close>

definition drain_start ::
  "'d crates \<Rightarrow> accounts_row \<Rightarrow> accounts_row \<Rightarrow> int \<Rightarrow> 'd system \<Rightarrow> bool" where
  "drain_start C f g u \<sigma> \<longleftrightarrow>
     a_id f \<noteq> a_id g \<and> 0 < u \<and> account_row (sys_db \<sigma>) (a_id f) = Some f \<and> account_row (sys_db \<sigma>) (a_id g) = Some g \<and>
     a_currency f = a_currency g \<and> \<not> a_allows_negative_balance f \<and>
     a_balance g + u * int (length (sys_sess \<sigma>)) < 10 ^ 20 \<and>
     (\<forall>s \<in> set (sys_sess \<sigma>). s_pc s = AtFind \<and> contender C (a_id f) (a_id g) (a_currency f) u s \<and>
        key_row (sys_db \<sigma>) (s_key s) = None) \<and>
     distinct (map s_key (sys_sess \<sigma>))"

text \<open>Where such a system is after any number of steps.\<close>

definition drain_sess :: "'d crates \<Rightarrow> accounts_row \<Rightarrow> accounts_row \<Rightarrow> int \<Rightarrow> int \<Rightarrow> db \<Rightarrow> 'd session \<Rightarrow> bool" where
  "drain_sess C f g u left d s \<longleftrightarrow>
     contender C (a_id f) (a_id g) (a_currency f) u s \<and>
     (running s \<or> won_at (s_pc s) = 1 \<or> s_pc s = Stopped (Err (InsufficientFunds (a_id f))) \<and> left < u) \<and>
     (won_at (s_pc s) = 0 \<longrightarrow> key_row d (s_key s) = None)"

definition drain_inv ::
  "'d crates \<Rightarrow> accounts_row \<Rightarrow> accounts_row \<Rightarrow> int \<Rightarrow> 'd system \<Rightarrow> 'd system \<Rightarrow> bool" where
  "drain_inv C f g u \<sigma> \<tau> \<longleftrightarrow>
     (let k = wins \<tau>; left = a_balance f - u * int k; d = sys_db \<tau> in
      0 \<le> left \<and> map s_key (sys_sess \<tau>) = map s_key (sys_sess \<sigma>) \<and>
      account_row d (a_id f) = Some (f\<lparr>a_balance := left\<rparr>) \<and>
      account_row d (a_id g) = Some (g\<lparr>a_balance := a_balance g + u * int k\<rparr>) \<and>
      length (transactions d) = length (transactions (sys_db \<sigma>)) + k \<and>
      length (entries d) = length (entries (sys_db \<sigma>)) + 2 * k \<and>
      (\<forall>s \<in> set (sys_sess \<tau>). drain_sess C f g u left d s))"

lemma won_at_le: "won_at p \<le> Suc 0"
  by (cases p rule: won_at.cases) simp_all

lemma won_at_running: "running s \<Longrightarrow> won_at (s_pc s) = 0"
  by (cases "s_pc s") (simp_all add: running_def)

lemma won_at_summary: "summary r = Ok (Created, i) \<Longrightarrow> won_at (Stopped r) = 1"
  by (cases r) auto

lemma summary_Err: "summary r = Err e \<longleftrightarrow> r = Err e"
  by (cases r) auto

lemma wins_set:
  assumes "i < length (sys_sess \<sigma>)" and "running (sys_sess \<sigma> ! i)"
  shows "wins (set_session \<sigma> i s' d') = wins \<sigma> + won_at (s_pc s')"
  using assms won_at_running [OF assms(2)]
  by (simp add: wins_def set_session_def map_update sum_list_update)

lemma wins_le: "wins \<sigma> \<le> length (sys_sess \<sigma>)"
  using sum_list_mono [of "sys_sess \<sigma>" "\<lambda>s. won_at (s_pc s)" "\<lambda>_. 1"]
  by (simp add: wins_def sum_list_triv won_at_le)

lemma wins_less:
  assumes "i < length (sys_sess \<sigma>)" and "running (sys_sess \<sigma> ! i)"
  shows "wins \<sigma> < length (sys_sess \<sigma>)"
proof -
  obtain r :: "'a transfer_result" where "res_outcome r = Created"
    by (meson transfer_result.select_convs(1))
  then have "won_at (Stopped (Ok r)) = 1"
    by simp
  then show ?thesis
    using wins_set [OF assms, of "(sys_sess \<sigma> ! i)\<lparr>s_pc := Stopped (Ok r)\<rparr>" "sys_db \<sigma>"]
      wins_le [of "set_session \<sigma> i ((sys_sess \<sigma> ! i)\<lparr>s_pc := Stopped (Ok r)\<rparr>) (sys_db \<sigma>)"]
    by (simp add: set_session_def)
qed

lemma drain_sess_later:
  assumes "drain_sess C f g u left d s" and "left' \<le> left"
    and "won_at (s_pc s) = 0 \<Longrightarrow> key_row d (s_key s) = None \<Longrightarrow> key_row d' (s_key s) = None"
  shows "drain_sess C f g u left' d' s"
  using assms by (auto simp: drain_sess_def)

lemma drain_inv_set:
  assumes "drain_inv C f g u \<sigma> \<tau>" and "i < length (sys_sess \<tau>)" and "running (sys_sess \<tau> ! i)"
    and "s_key s' = s_key (sys_sess \<tau> ! i)" and "k = wins \<tau> + won_at (s_pc s')" and "left = a_balance f - u * int k"
    and "0 \<le> left" and "account_row d' (a_id f) = Some (f\<lparr>a_balance := left\<rparr>)"
    and "account_row d' (a_id g) = Some (g\<lparr>a_balance := a_balance g + u * int k\<rparr>)"
    and "length (transactions d') = length (transactions (sys_db \<sigma>)) + k"
    and "length (entries d') = length (entries (sys_db \<sigma>)) + 2 * k"
    and "drain_sess C f g u left d' s'"
    and "\<And>j. j < length (sys_sess \<tau>) \<Longrightarrow> j \<noteq> i \<Longrightarrow> drain_sess C f g u left d' (sys_sess \<tau> ! j)"
  shows "drain_inv C f g u \<sigma> (set_session \<tau> i s' d')"
proof -
  have keys: "map s_key (sys_sess \<tau>) = map s_key (sys_sess \<sigma>)"
    using assms(1) by (simp add: drain_inv_def Let_def)
  then have keys': "map s_key ((sys_sess \<tau>)[i := s']) = map s_key (sys_sess \<sigma>)"
    using assms(2,4) by (metis list_update_id map_update nth_map)
  have "\<forall>s \<in> set ((sys_sess \<tau>)[i := s']). drain_sess C f g u left d' s"
    using assms(2,12,13) by (auto simp: all_set_conv_all_nth nth_list_update)
  then show ?thesis
    using assms(5-11) wins_set [OF assms(2,3), of s' d'] keys'
    by (simp add: drain_inv_def Let_def) (simp add: set_session_def)
qed

section \<open>One step\<close>

context crate_contracts
begin

text \<open>A contender that ends, ends in one of two ways, decided by what is left at that moment.\<close>

lemma contender_ends:
  assumes "constraints d0" and "constraints d" and "grows d0 d" and "unused d (s_ev s)" and "key_row d (s_key s) = None"
    and "contender C (a_id f) (a_id g) (a_currency f) u s" and "money_ok C (intent_amount (s_intent s))"
    and "a_id f \<noteq> a_id g" and "0 < u" and "a_currency f = a_currency g" and "\<not> a_allows_negative_balance f"
    and "account_row d (a_id f) = Some (f\<lparr>a_balance := p\<rparr>)" and "account_row d (a_id g) = Some (g\<lparr>a_balance := q\<rparr>)"
    and "\<bar>p\<bar> < 10 ^ 20" and "\<bar>q + u\<bar> < 10 ^ 20"
    and "execute_once C (raced (\<lambda>_. d) (s_ev s)) (s_key s) (s_intent s) d0 = (r, d')"
  shows "if p < u then r = Err (InsufficientFunds (a_id f)) \<and> d' = d
    else won_at (Stopped r) = 1 \<and> d' = apply_writes (post_writes C (s_ev s) (s_key s) (s_intent s) d) d"
proof -
  let ?ev = "raced (\<lambda>_. d) (s_ev s)"
  have old: "key_row d0 (s_key s) = None"
    using grows_key_row [OF assms(3)] assms(5) by (metis option.exhaust option.distinct(1))
  have ids: "transaction_row d (at_txn_id (s_ev s)) = None" "fresh_entry_ids ?ev d"
    using assms(4) by (simp_all add: unused_def fresh_entry_ids_def)
  have check: "intent_check C (s_intent s) d = (if p < u then Some (InsufficientFunds (a_id f)) else None)"
    using assms(6,8-15) by (auto simp: intent_check_def transfer_check_def contender_def)
  have "post_writes C ?ev (s_key s) (s_intent s) d = post_writes C (s_ev s) (s_key s) (s_intent s) d"
    by (simp add: post_writes_def post_body_def claim_row_def credit_posting_def debit_posting_def posting_def)
  then have spec: "transfer_spec C ?ev (s_key s) (s_intent s) d0 =
      (if p < u then (Err (InsufficientFunds (a_id f)), d)
       else (Ok (Created, at_txn_id (s_ev s)), apply_writes (post_writes C (s_ev s) (s_key s) (s_intent s) d) d))"
    using assms(5,6,8,9) old ids check by (simp add: transfer_spec_def contender_def Let_def)
  have "calm ?ev = ?ev"
    by (simp add: raced_def calm_def)
  then have "map_prod summary id (r, d') = transfer_spec C ?ev (s_key s) (s_intent s) d0"
    using execute_once_refines [of d0 ?ev "s_intent s" "s_key s"] assms(1,2,7,16) by simp
  then show ?thesis
    unfolding spec by (auto simp: summary_Err won_at_summary split: if_splits)
qed

lemma drain_facts:
  assumes "drain_inv C f g u \<sigma> \<tau>" and "drain_start C f g u \<sigma>"
  shows "a_id f \<noteq> a_id g" "0 < u" "a_currency f = a_currency g" "\<not> a_allows_negative_balance f"
    and "a_balance g + u * int (length (sys_sess \<tau>)) < 10 ^ 20" "distinct (map s_key (sys_sess \<tau>))"
    and "j < length (sys_sess \<tau>) \<Longrightarrow> drain_sess C f g u (a_balance f - u * int (wins \<tau>)) (sys_db \<tau>) (sys_sess \<tau> ! j)"
proof -
  have "map s_key (sys_sess \<tau>) = map s_key (sys_sess \<sigma>)"
    using assms(1) by (simp add: drain_inv_def Let_def)
  then show "a_id f \<noteq> a_id g" "0 < u" "a_currency f = a_currency g" "\<not> a_allows_negative_balance f"
    "a_balance g + u * int (length (sys_sess \<tau>)) < 10 ^ 20" "distinct (map s_key (sys_sess \<tau>))"
    using assms(2) map_eq_imp_length_eq by (fastforce simp: drain_start_def)+
qed (use assms(1) in \<open>simp add: drain_inv_def Let_def\<close>)

lemma drain_win:
  assumes "drain_inv C f g u \<sigma> \<tau>" and "drain_start C f g u \<sigma>"
    and "i < length (sys_sess \<tau>)" and "running (sys_sess \<tau> ! i)"
    and "s' = (sys_sess \<tau> ! i)\<lparr>s_pc := Stopped r\<rparr>" and "won_at (Stopped r) = 1" and "u \<le> a_balance f - u * int (wins \<tau>)"
    and "d' = apply_writes (post_writes C (s_ev (sys_sess \<tau> ! i)) (s_key (sys_sess \<tau> ! i)) (s_intent (sys_sess \<tau> ! i))
      (sys_db \<tau>)) (sys_db \<tau>)"
  shows "drain_inv C f g u \<sigma> (set_session \<tau> i s' d')"
proof (rule drain_inv_set [OF assms(1,3,4) _ refl refl])
  note facts = drain_facts [OF assms(1,2)]
  have ids: "from_account_id (s_intent (sys_sess \<tau> ! i)) = a_id f" "to_account_id (s_intent (sys_sess \<tau> ! i)) = a_id g"
    "intent_units C (s_intent (sys_sess \<tau> ! i)) = u"
    using facts(7) [OF assms(3)] by (simp_all add: drain_sess_def contender_def)
  then have ne: "from_account_id (s_intent (sys_sess \<tau> ! i)) \<noteq> to_account_id (s_intent (sys_sess \<tau> ! i))"
    using facts(1) by simp
  have won: "won_at (s_pc s') = 1"
    using assms(5,6) by simp
  have rows: "account_row (sys_db \<tau>) (a_id f) = Some (f\<lparr>a_balance := a_balance f - u * int (wins \<tau>)\<rparr>)"
    "account_row (sys_db \<tau>) (a_id g) = Some (g\<lparr>a_balance := a_balance g + u * int (wins \<tau>)\<rparr>)"
    using assms(1) by (simp_all add: drain_inv_def Let_def)
  then show "account_row d' (a_id f) = Some (f\<lparr>a_balance := a_balance f - u * int (wins \<tau> + won_at (s_pc s'))\<rparr>)"
    "account_row d' (a_id g) = Some (g\<lparr>a_balance := a_balance g + u * int (wins \<tau> + won_at (s_pc s'))\<rparr>)"
    using facts(1) unfolding assms(8) post_account_row [OF ne] ids won by (simp_all add: algebra_simps)
  show "drain_sess C f g u (a_balance f - u * int (wins \<tau> + won_at (s_pc s'))) d' s'"
    using facts(7) [OF assms(3)] won assms(5) by (simp add: drain_sess_def contender_def)
  show "drain_sess C f g u (a_balance f - u * int (wins \<tau> + won_at (s_pc s'))) d' (sys_sess \<tau> ! j)"
    if "j < length (sys_sess \<tau>)" "j \<noteq> i" for j
  proof (rule drain_sess_later [OF facts(7) [OF that(1)]])
    show "a_balance f - u * int (wins \<tau> + won_at (s_pc s')) \<le> a_balance f - u * int (wins \<tau>)"
      using facts(2) by (simp add: won algebra_simps)
    have "s_key (sys_sess \<tau> ! i) \<noteq> s_key (sys_sess \<tau> ! j)"
      using facts(6) that assms(3) by (simp add: distinct_conv_nth)
    then show "key_row (sys_db \<tau>) (s_key (sys_sess \<tau> ! j)) = None \<Longrightarrow> key_row d' (s_key (sys_sess \<tau> ! j)) = None"
      by (simp add: assms(8) key_row_def post_tables row_append claim_row_def)
  qed
qed (use assms in \<open>simp_all add: drain_inv_def Let_def post_tables algebra_simps\<close>)

lemma drain_step:
  assumes "sys_inv C \<tau>" and "drain_start C f g u \<sigma>" and "drain_inv C f g u \<sigma> \<tau>" and "run_step C i \<tau> \<tau>'"
  shows "drain_inv C f g u \<sigma> \<tau>'"
  using assms(4)
proof (cases rule: run_step.cases)
  case (1 s' d')
  let ?s = "sys_sess \<tau> ! i" and ?d = "sys_db \<tau>" and ?left = "a_balance f - u * int (wins \<tau>)"
  note facts = drain_facts [OF assms(3,2)]
  have rows: "account_row ?d (a_id f) = Some (f\<lparr>a_balance := ?left\<rparr>)"
    "account_row ?d (a_id g) = Some (g\<lparr>a_balance := a_balance g + u * int (wins \<tau>)\<rparr>)"
    using assms(3) by (simp_all add: drain_inv_def Let_def)
  have own: "contender C (a_id f) (a_id g) (a_currency f) u ?s" "key_row ?d (s_key ?s) = None"
    using facts(7) [OF 1(2)] won_at_running [OF 1(3)] by (simp_all add: drain_sess_def)
  have same: "drain_inv C f g u \<sigma> (set_session \<tau> i s' ?d)"
    if "drain_sess C f g u ?left ?d s'" "won_at (s_pc s') = 0" "s_key s' = s_key ?s"
    by (rule drain_inv_set [OF assms(3) 1(2,3) that(3)])
       (use assms(3) that facts(7) in \<open>auto simp: drain_inv_def Let_def\<close>)
  from assms(1) 1(2,3,5) show ?thesis
  proof (cases rule: run_cases)
    case on
    then show ?thesis
      unfolding 1(1) on(3) using own on(1,4) won_at_running [OF on(4)]
      by (intro same) (simp_all add: drain_sess_def contender_def)
  next
    case (stop r d0)
    have ok: "constraints ?d" "unused ?d (s_ev ?s)" "money_ok C (intent_amount (s_intent ?s))"
      using assms(1) 1(2,3) ledger_inv_constraints by (auto simp: sys_inv_def sess_ok_def on_stage_def)
    have row_ok: "account_row ?d j = Some a \<Longrightarrow> \<bar>a_balance a\<bar> < 10 ^ 20" for j a
      using ok(1) by (auto simp: constraints_def account_ok_def account_row_def dest!: row_Some)
    have small: "\<bar>?left\<bar> < 10 ^ 20" "\<bar>a_balance g + u * int (wins \<tau>)\<bar> < 10 ^ 20"
      using row_ok [OF rows(1)] row_ok [OF rows(2)] by simp_all
    have "u * int (Suc (wins \<tau>)) \<le> u * int (length (sys_sess \<tau>))"
      using wins_less [OF 1(2,3)] facts(2) by (intro mult_left_mono) simp_all
    then have room: "\<bar>a_balance g + u * int (wins \<tau>) + u\<bar> < 10 ^ 20"
      using small(2) facts(2,5) by (simp add: algebra_simps)
    note ends = contender_ends [OF stop(3) ok(1) stop(2) ok(2) own(2,1) ok(3) facts(1-4) rows small(1) room stop(4)]
    show ?thesis
    proof (cases "?left < u")
      case True
      then have s': "s' = ?s\<lparr>s_pc := Stopped (Err (InsufficientFunds (a_id f)))\<rparr>" and d': "d' = ?d"
        using ends stop(1) by simp_all
      show ?thesis
        unfolding 1(1) d' using own True by (intro same) (simp_all add: s' drain_sess_def contender_def)
    next
      case False
      then show ?thesis
        unfolding 1(1) using ends by (intro drain_win [OF assms(3,2) 1(2,3) stop(1)]) simp_all
    qed
  qed
qed

lemma drain_runs:
  assumes "sys_inv C \<sigma>" and "drain_start C f g u \<sigma>" and "(runs C)\<^sup>*\<^sup>* \<sigma> \<tau>"
  shows "drain_inv C f g u \<sigma> \<tau>"
  using assms(3)
proof (induction rule: rtranclp_induct)
  case base
  have "account_row (sys_db \<sigma>) (a_id f) = Some f"
    using assms(2) by (simp add: drain_start_def)
  then have "account_ok f"
    using assms(1) ledger_inv_constraints by (fastforce simp: sys_inv_def constraints_def account_row_def dest: row_Some)
  then have "0 \<le> a_balance f"
    using assms(2) by (simp add: account_ok_def accounts_check_def drain_start_def split: if_splits)
  moreover have "wins \<sigma> = 0"
    using assms(2) by (simp add: wins_def drain_start_def cong: map_cong)
  ultimately show ?case
    using assms(2) by (auto simp: drain_inv_def drain_start_def drain_sess_def running_def)
next
  case (step \<tau> \<tau>')
  then obtain i where "run_step C i \<tau> \<tau>'"
    by (auto simp: runs_def)
  with drain_step [OF runs_keeps [OF assms(1) step.hyps(1)] assms(2) step.IH] show ?case .
qed

text \<open>
  Where the refusal for insufficient funds can come from: the specification gives it only to a request
  that passes everything up to the two locks and is not funded.
\<close>

lemma refused_funds:
  assumes "constraints d0" and "constraints d" and "money_ok C (intent_amount (s_intent s))"
    and "execute_once C (raced (\<lambda>_. d) (s_ev s)) (s_key s) (s_intent s) d0 = (Err (InsufficientFunds a), d')"
  shows "claimed C d s" and "\<not> funded C d s" and "i \<in> set (lock_order s) \<Longrightarrow> account_row d i \<noteq> None"
    and "a = from_account_id (s_intent s) \<and> (\<exists>f. account_row d a = Some f \<and> \<not> a_allows_negative_balance f \<and>
      a_balance f < intent_units C (s_intent s))"
proof -
  let ?ev = "raced (\<lambda>_. d) (s_ev s)"
  have "calm ?ev = ?ev"
    by (simp add: raced_def calm_def)
  then have "fst (transfer_spec C ?ev (s_key s) (s_intent s) d0) = Err (InsufficientFunds a)"
    using execute_once_refines [of d0 ?ev "s_intent s" "s_key s"] assms by (metis raced_simps(7) fst_conv fst_map_prod summary.simps(2))
  then show "claimed C d s" and "\<not> funded C d s" and "i \<in> set (lock_order s) \<Longrightarrow> account_row d i \<noteq> None"
    and "a = from_account_id (s_intent s) \<and> (\<exists>f. account_row d a = Some f \<and> \<not> a_allows_negative_balance f \<and>
      a_balance f < intent_units C (s_intent s))"
    by (auto simp: transfer_spec_def replay_spec_def Let_def intent_check_def transfer_check_def claimed_def
        sensible_def funded_def set_lock_order split: option.splits if_splits)
qed

lemma funds_refused_at_lock:
  assumes "sys_inv C \<sigma>" and "run_step C i \<sigma> \<sigma>'" and "s_pc (sys_sess \<sigma>' ! i) = Stopped (Err (InsufficientFunds a))"
  shows "s_pc (sys_sess \<sigma> ! i) = AtLock2 \<and> a = from_account_id (s_intent (sys_sess \<sigma> ! i)) \<and>
    (\<exists>f. account_row (sys_db \<sigma>) a = Some f \<and> \<not> a_allows_negative_balance f \<and>
       a_balance f < intent_units C (s_intent (sys_sess \<sigma> ! i)))"
  using assms(2)
proof (cases rule: run_step.cases)
  case (1 s' d')
  let ?s = "sys_sess \<sigma> ! i" and ?d = "sys_db \<sigma>"
  have pc: "s_pc s' = Stopped (Err (InsufficientFunds a))"
    using assms(3) 1(1,2) by (simp add: set_session_def)
  have ok: "sess_ok C (sys_xid \<sigma>) ?d ?s" "constraints ?d"
    using assms(1) 1(2) ledger_inv_constraints by (auto simp: sys_inv_def)
  then have g: "guard C ?d ?s (s_pc ?s)" and m: "money_ok C (intent_amount (s_intent ?s))"
    and un: "unused ?d (s_ev ?s)" and st: "?s = stage C ?d ?s (s_pc ?s)"
    using 1(3) by (simp_all add: sess_ok_def on_stage_def)
  from assms(1) 1(2,3,5) show ?thesis
  proof (cases rule: run_cases)
    case on
    then show ?thesis using pc by (simp add: running_iff)
  next
    case (stop r d0)
    then have "r = Err (InsufficientFunds a)"
      using pc by simp
    note refused = refused_funds [OF stop(3) ok(2) m stop(4) [unfolded this]]
    have "moves C ?d ?s (s_pc ?s) (next_pc (s_pc ?s))" if "s_pc ?s \<noteq> AtCommit"
      using moves_next [OF ok(2) m un g] refused(1) that by (simp add: claimed_def)
    then have "\<not> guard C ?d ?s (next_pc (s_pc ?s))" if "s_pc ?s \<noteq> AtCommit"
      using that 1(5) st pc by (auto simp: moves_def dest: arg_cong [where f = s_pc])
    moreover have "account_row ?d (lock_order ?s ! 0) \<noteq> None"
      by (rule refused(3), subst lock_order_pair) simp
    ultimately show ?thesis
      using g refused(1,2,4) by (cases "s_pc ?s") (auto simp: claimed_def)
  qed
qed

lemma drained:
  assumes "sys_inv C \<sigma>" and "drain_start C f g u \<sigma>" and "(runs C)\<^sup>*\<^sup>* \<sigma> \<sigma>'"
    and "\<forall>s \<in> set (sys_sess \<sigma>'). \<not> running s"
  shows "int (wins \<sigma>') = min (int (length (sys_sess \<sigma>))) (a_balance f div u)"
proof -
  note inv = drain_runs [OF assms(1-3)]
  have left: "0 \<le> a_balance f - u * int (wins \<sigma>')"
    and len: "length (sys_sess \<sigma>') = length (sys_sess \<sigma>)"
    and sess: "\<forall>s \<in> set (sys_sess \<sigma>'). drain_sess C f g u (a_balance f - u * int (wins \<sigma>')) (sys_db \<sigma>') s"
    using inv map_eq_imp_length_eq by (fastforce simp: drain_inv_def Let_def)+
  have "0 < u"
    using assms(2) by (simp add: drain_start_def)
  then have div: "int (wins \<sigma>') \<le> a_balance f div u"
    using zdiv_mono1 [of "u * int (wins \<sigma>')" "a_balance f" u] left by simp
  show ?thesis
  proof (cases "\<exists>s \<in> set (sys_sess \<sigma>'). won_at (s_pc s) \<noteq> 1")
    case True
    then have "a_balance f - u * int (wins \<sigma>') < u"
      using sess assms(4) by (auto simp: drain_sess_def)
    then have "a_balance f div u = int (wins \<sigma>')"
      using left \<open>0 < u\<close> by (intro int_div_pos_eq [where r = "a_balance f - u * int (wins \<sigma>')"]) simp_all
    then show ?thesis
      using wins_le [of \<sigma>'] len by simp
  next
    case False
    then have "wins \<sigma>' = length (sys_sess \<sigma>')"
      by (simp add: wins_def sum_list_triv cong: map_cong)
    then show ?thesis
      using div len by simp
  qed
qed

end

section \<open>Three sessions on an account with money for two\<close>

definition drain_key :: "nat \<Rightarrow> str" where
  "drain_key n = lit ''drain-'' @ nat_digits n"

definition drain_intent :: "rdec transfer_intent" where
  "drain_intent = \<lparr>from_account_id = 2, to_account_id = 1,
     intent_amount = \<lparr>m_amount = RDec 2 8, m_currency = Currency (lit ''EUR'')\<rparr>, intent_description = lit ''drain''\<rparr>"

definition drainer :: "nat \<Rightarrow> rdec session" where
  "drainer n = start (drain_key n) drain_intent (sample_ev (\<lambda>_. NoFault) n)"

definition drainers :: "nat \<Rightarrow> rdec system" where
  "drainers n = \<lparr>sys_db = sample_ledger, sys_xid = 8 + n, sys_sess = map drainer [0..<n]\<rparr>"

lemma drain_intent_ok: "money_ok ref_crates (intent_amount drain_intent)"
  by (simp add: drain_intent_def money_ok_def dval_ref MAX_SCALE_def)

lemma drain_unused: "n < 3 \<Longrightarrow> unused sample_ledger (sample_ev f n)"
  by (auto simp: unused_def fresh_entry_ids_def sample_ev_def transaction_row_def row_def numeral_3_eq_3 less_Suc_eq
      sample_ledger_def sample_books_def sample_transaction_def sample_entries_row_def)

lemma drainers_reach: "n \<le> 3 \<Longrightarrow> system_reach ref_crates (drainers n)"
proof (induction n)
  case 0
  have "idle_system (drainers 0)"
    using sample_ledger_inv by (simp add: idle_system_def drainers_def)
  then show ?case
    by (auto simp: system_reach_def)
next
  case (Suc n)
  have "\<forall>s \<in> set (sys_sess (drainers n)). at_txn_id (s_ev s) \<noteq> at_txn_id (sample_ev (\<lambda>_. NoFault) n) \<and>
      entry_ids (s_ev s) \<inter> entry_ids (sample_ev (\<lambda>_. NoFault) n) = {}"
    using Suc.prems
    by (auto simp: drainers_def drainer_def start_def entry_ids_def sample_ev_def numeral_3_eq_3 le_Suc_eq less_Suc_eq)
  then have "fresh_for (sample_ev (\<lambda>_. NoFault) n) (drainers n)"
    using drain_unused [of n] Suc.prems by (simp add: fresh_for_def drainers_def sample_fault_simps)
  from cstep.request [OF drain_intent_ok this, of "drain_key n"]
  have "cstep ref_crates (drainers n) (drainers (Suc n))"
    by (simp add: drainers_def drainer_def)
  then show ?case
    using Suc unfolding system_reach_def by (meson Suc_leD rtranclp.rtrancl_into_rtrancl)
qed

lemma drain_key_inj: "drain_key m = drain_key n \<Longrightarrow> m = n"
  using read_nat_digits unfolding drain_key_def by (metis same_append_eq)

lemma drain_texts:
  "text_ok (drain_key n)" "text_ok (intent_description drain_intent)" "key_row sample_ledger (drain_key n) = None"
proof -
  show "text_ok (drain_key n)" "text_ok (intent_description drain_intent)"
    using set_nat_digits [of n] by (auto simp: text_ok_def drain_key_def drain_intent_def lit_def)
  show "key_row sample_ledger (drain_key n) = None"
    by (simp add: key_row_def row_def sample_ledger_def sample_books_def sample_transaction_def drain_key_def lit_def)
qed

lemma drainers_start:
  "drain_start ref_crates ((sample_account 2 False)\<lparr>a_balance := 5\<rparr>) ((sample_account 1 True)\<lparr>a_balance := - 5\<rparr>) 2 (drainers 3)"
proof -
  have units: "intent_units ref_crates drain_intent = 2"
    by (simp add: intent_units_def drain_intent_def dval_ref units_def)
  have "distinct (map s_key (sys_sess (drainers 3)))"
    using drain_key_inj by (auto simp: drainers_def drainer_def start_def distinct_map comp_def inj_on_def)
  then show ?thesis
    by (auto simp: drain_start_def contender_def units drain_texts drainers_def drainer_def start_def sample_rows
        sample_account_def)
       (auto simp: drain_intent_def)
qed

text \<open>And one that asks for more than there is.\<close>

definition greedy_intent :: "rdec transfer_intent" where
  "greedy_intent = drain_intent\<lparr>intent_amount := \<lparr>m_amount = RDec 6 8, m_currency = Currency (lit ''EUR'')\<rparr>\<rparr>"

definition greedy :: "rdec system" where
  "greedy = \<lparr>sys_db = sample_ledger, sys_xid = 9,
     sys_sess = [start (drain_key 0) greedy_intent (sample_ev (\<lambda>_. NoFault) 0)]\<rparr>"

lemma greedy_ok: "money_ok ref_crates (intent_amount greedy_intent)"
  by (simp add: greedy_intent_def money_ok_def dval_ref MAX_SCALE_def)

lemma greedy_reach: "system_reach ref_crates greedy"
proof -
  have "fresh_for (sample_ev (\<lambda>_. NoFault) 0) (drainers 0)"
    using drain_unused [of 0] by (simp add: fresh_for_def drainers_def sample_fault_simps)
  from cstep.request [OF greedy_ok this, of "drain_key 0"]
  have "cstep ref_crates (drainers 0) greedy"
    by (simp add: drainers_def greedy_def)
  then show ?thesis
    using drainers_reach [of 0] unfolding system_reach_def by (meson le0 rtranclp.rtrancl_into_rtrancl)
qed

lemma greedy_refused:
  "\<exists>s d. (run_step ref_crates 0)\<^sup>*\<^sup>* greedy (set_session greedy 0 s d) \<and> s_pc s = Stopped (Err (InsufficientFunds 2))"
proof -
  let ?ev = "raced id (sample_ev (\<lambda>_. NoFault) 0)" and ?key = "drain_key 0"
  obtain r d where run: "execute_once ref_crates ?ev ?key greedy_intent sample_ledger = (r, d)"
    by fastforce
  have "text_ok ?key" "key_row sample_ledger ?key = None" "text_ok (intent_description greedy_intent)"
    using drain_texts by (simp_all add: greedy_intent_def)
  moreover have "intent_units ref_crates greedy_intent = 6"
    by (simp add: intent_units_def greedy_intent_def dval_ref units_def)
  ultimately have "fst (transfer_spec ref_crates ?ev ?key greedy_intent sample_ledger) = Err (InsufficientFunds 2)"
    by (simp add: transfer_spec_def Let_def sample_fault_simps sample_rows intent_check_def transfer_check_def
        sample_account_def greedy_intent_def drain_intent_def)
  moreover have "calm ?ev = ?ev"
    by (simp add: raced_def calm_def)
  then have "map_prod summary id (r, d) = transfer_spec ref_crates ?ev ?key greedy_intent sample_ledger"
    using ref.execute_once_refines [of sample_ledger ?ev greedy_intent ?key] run
    by (simp add: sample_constraints greedy_ok)
  ultimately have "r = Err (InsufficientFunds 2)"
    by (metis fst_conv fst_map_prod summary_Err)
  then have "finishes ref_crates (start ?key greedy_intent (sample_ev (\<lambda>_. NoFault) 0)) sample_ledger (Err (InsufficientFunds 2)) d"
    using run by (simp add: finishes_start)
  moreover have "0 < length (sys_sess greedy)" "start ?key greedy_intent (sample_ev (\<lambda>_. NoFault) 0) = sys_sess greedy ! 0"
    "sample_ledger = sys_db greedy" "j < length (sys_sess greedy) \<Longrightarrow> j \<noteq> 0 \<Longrightarrow> \<not> active (s_pc (sys_sess greedy ! j))" for j
    by (simp_all add: greedy_def)
  ultimately show ?thesis
    using ref.run_alone [OF _ ref.system_reach_inv [OF greedy_reach]] by blast
qed

section \<open>Properties\<close>

text \<open>
  C10: an account cannot be oversubscribed. However many sessions with keys of their own try to move the
  same amount out of one protected account, and in whatever order their statements run, once all have
  ended exactly as many have succeeded as there was money for; every other one was refused with
  \<open>InsufficientFunds\<close>; exactly that money has moved; and only the successes left a transaction, with two
  entries each. With enough money every one of them succeeds.
\<close>

theorem oversubscription_exact:
  assumes "crate_contracts C" and "system_reach C \<sigma>" and "drain_start C f g u \<sigma>" and "(runs C)\<^sup>*\<^sup>* \<sigma> \<sigma>'"
    and "\<forall>s \<in> set (sys_sess \<sigma>'). \<not> running s"
  shows "int (wins \<sigma>') = min (int (length (sys_sess \<sigma>))) (a_balance f div u) \<and>
    balance_of (sys_db \<sigma>') (a_id f) = a_balance f - u * int (wins \<sigma>') \<and>
    balance_of (sys_db \<sigma>') (a_id g) = a_balance g + u * int (wins \<sigma>') \<and>
    length (transactions (sys_db \<sigma>')) = length (transactions (sys_db \<sigma>)) + wins \<sigma>' \<and>
    length (entries (sys_db \<sigma>')) = length (entries (sys_db \<sigma>)) + 2 * wins \<sigma>' \<and>
    (\<forall>s \<in> set (sys_sess \<sigma>'). won_at (s_pc s) = 1 \<or> s_pc s = Stopped (Err (InsufficientFunds (a_id f))))"
proof -
  have inv: "sys_inv C \<sigma>"
    by (rule crate_contracts.system_reach_inv [OF assms(1,2)])
  show ?thesis
    using crate_contracts.drain_runs [OF assms(1) inv assms(3,4)] crate_contracts.drained [OF assms(1) inv assms(3-5)]
      assms(5)
    by (auto simp: drain_inv_def drain_sess_def balance_of_def Let_def)
qed

theorem oversubscription_exact_witness:
  "\<exists>\<sigma>. (runs ref_crates)\<^sup>*\<^sup>* (drainers 3) \<sigma> \<and> wins \<sigma> = 2 \<and> balance_of (sys_db \<sigma>) 2 = 1 \<and> balance_of (sys_db \<sigma>) 1 = - 1"
proof -
  have reach: "system_reach ref_crates (drainers 3)"
    by (rule drainers_reach) simp
  obtain \<sigma> where \<sigma>: "(runs ref_crates)\<^sup>*\<^sup>* (drainers 3) \<sigma>" "\<forall>s \<in> set (sys_sess \<sigma>). \<not> running s"
    using ref.drains [OF ref.system_reach_inv [OF reach]] by blast
  have "length (sys_sess (drainers 3)) = 3"
    by (simp add: drainers_def)
  then show ?thesis
    using \<sigma>(1) oversubscription_exact [OF ref.crate_contracts_axioms reach drainers_start \<sigma>]
    by (auto simp: sample_account_def)
qed

text \<open>
  C12: reading the balance and the debit it authorises are one atomic step. A session is refused for
  insufficient funds only at the comparison it makes under both row locks, never by the constraint of the
  database behind it, and at that moment the committed balance of the sender is really too low.
\<close>

theorem balance_check_atomic:
  assumes "crate_contracts C" and "system_reach C \<sigma>" and "run_step C i \<sigma> \<sigma>'"
    and "s_pc (sys_sess \<sigma>' ! i) = Stopped (Err (InsufficientFunds a))"
  shows "s_pc (sys_sess \<sigma> ! i) = AtLock2 \<and> a = from_account_id (s_intent (sys_sess \<sigma> ! i)) \<and>
    (\<exists>f. account_row (sys_db \<sigma>) a = Some f \<and> \<not> a_allows_negative_balance f \<and>
       a_balance f < intent_units C (s_intent (sys_sess \<sigma> ! i)))"
  by (rule crate_contracts.funds_refused_at_lock [OF assms(1) crate_contracts.system_reach_inv [OF assms(1,2)] assms(3,4)])

theorem balance_check_atomic_witness:
  "\<exists>\<sigma>. system_reach ref_crates \<sigma> \<and> s_pc (sys_sess \<sigma> ! 0) = AtLock2 \<and>
     (\<exists>f. account_row (sys_db \<sigma>) 2 = Some f \<and> \<not> a_allows_negative_balance f \<and>
        a_balance f < intent_units ref_crates (s_intent (sys_sess \<sigma> ! 0)))"
proof -
  obtain s d where run: "(run_step ref_crates 0)\<^sup>*\<^sup>* greedy (set_session greedy 0 s d)"
    and s: "s_pc s = Stopped (Err (InsufficientFunds 2))"
    using greedy_refused by blast
  have last: "sys_sess (set_session greedy 0 s d) ! 0 = s"
    by (simp add: set_session_def greedy_def)
  then have "s_pc (sys_sess greedy ! 0) \<noteq> s_pc (sys_sess (set_session greedy 0 s d) ! 0)"
    using s by (simp add: greedy_def start_def)
  then obtain \<tau> where \<tau>: "(run_step ref_crates 0)\<^sup>*\<^sup>* greedy \<tau>" "run_step ref_crates 0 \<tau> (set_session greedy 0 s d)"
    using run by (metis rtranclp.cases)
  have reach: "system_reach ref_crates \<tau>"
    by (rule run_steps_reach [OF greedy_reach \<tau>(1)])
  with balance_check_atomic [OF ref.crate_contracts_axioms reach \<tau>(2)] show ?thesis
    using s last by auto
qed

end
