(* ===== verification/Callers.thy ===== *)
theory Callers
  imports Concurrency_Properties
begin

text \<open>
  Concurrent calls of \<open>execute\<close>: the retry loop of \<open>src/db/transfers.rs\<close> around the sessions of theory
  \<open>Concurrency\<close>. A call has a session of its own for each attempt. When its session ends, the call returns
  the result, or, after a conflict that can be retried and fewer than \<open>MAX_CONFLICT_RETRIES\<close> retries, starts
  the next session, with everybody else's statements running in between. The loop of \<open>Db_Transfers\<close> is the
  same loop with the attempts of one call run back to back.
\<close>

section \<open>Calls\<close>

record 'd caller =
  c_key :: str
  c_intent :: "'d transfer_intent"
  c_attempt :: nat
  c_sess :: nat
  c_result :: "(ledger_error, 'd transfer_result) result option"

record 'd calls =
  cl_sys :: "'d system"
  cl_callers :: "'d caller list"

definition admit :: "str \<Rightarrow> 'd transfer_intent \<Rightarrow> attempt \<Rightarrow> 'd system \<Rightarrow> 'd system" where
  "admit key intent ev \<sigma> = \<sigma>\<lparr>sys_xid := Suc (sys_xid \<sigma>), sys_sess := sys_sess \<sigma> @ [start key intent ev]\<rparr>"

text \<open>A session under way makes a step: a statement, a failure, or a commit whose reply is lost.\<close>

inductive session_moves :: "'d crates \<Rightarrow> 'd system \<Rightarrow> 'd system \<Rightarrow> bool" for C \<sigma> where
  statement: "run_step C i \<sigma> \<sigma>' \<Longrightarrow> session_moves C \<sigma> \<sigma>'"
| failure: "i < length (sys_sess \<sigma>) \<Longrightarrow> running (sys_sess \<sigma> ! i) \<Longrightarrow>
    session_moves C \<sigma> (set_session \<sigma> i ((sys_sess \<sigma> ! i)\<lparr>s_pc := Stopped (Err (Database e))\<rparr>) (sys_db \<sigma>))"
| unseen_commit: "i < length (sys_sess \<sigma>) \<Longrightarrow> s_pc (sys_sess \<sigma> ! i) = AtCommit \<Longrightarrow>
    advance C (sys_db \<sigma>) (sys_sess \<sigma> ! i) = (s', d') \<Longrightarrow>
    session_moves C \<sigma> (set_session \<sigma> i ((sys_sess \<sigma> ! i)\<lparr>s_pc := Stopped (Err (Database e))\<rparr>) d')"

text \<open>The loop of \<open>execute\<close>: after an attempt that ended with \<open>r\<close>, go round again or return.\<close>

definition again :: "'d caller \<Rightarrow> nat \<Rightarrow> 'd caller" where
  "again c i = c\<lparr>c_attempt := Suc (c_attempt c), c_sess := i\<rparr>"

inductive call_step :: "'d crates \<Rightarrow> 'd calls \<Rightarrow> 'd calls \<Rightarrow> bool" for C \<kappa> where
  moves: "session_moves C (cl_sys \<kappa>) \<sigma> \<Longrightarrow> call_step C \<kappa> (\<kappa>\<lparr>cl_sys := \<sigma>\<rparr>)"
| retry: "k < length (cl_callers \<kappa>) \<Longrightarrow> c = cl_callers \<kappa> ! k \<Longrightarrow> c_result c = None \<Longrightarrow>
    s_pc (sys_sess (cl_sys \<kappa>) ! c_sess c) = Stopped r \<Longrightarrow> retries r (c_attempt c) \<Longrightarrow> fresh_for ev (cl_sys \<kappa>) \<Longrightarrow>
    call_step C \<kappa> \<lparr>cl_sys = admit (c_key c) (c_intent c) ev (cl_sys \<kappa>),
      cl_callers = (cl_callers \<kappa>)[k := again c (length (sys_sess (cl_sys \<kappa>)))]\<rparr>"
| return: "k < length (cl_callers \<kappa>) \<Longrightarrow> c = cl_callers \<kappa> ! k \<Longrightarrow> c_result c = None \<Longrightarrow>
    s_pc (sys_sess (cl_sys \<kappa>) ! c_sess c) = Stopped r \<Longrightarrow> \<not> retries r (c_attempt c) \<Longrightarrow>
    call_step C \<kappa> (\<kappa>\<lparr>cl_callers := (cl_callers \<kappa>)[k := c\<lparr>c_result := Some r\<rparr>]\<rparr>)"

text \<open>Calls arrive and accounts are opened at any time.\<close>

inductive world_step :: "'d crates \<Rightarrow> 'd calls \<Rightarrow> 'd calls \<Rightarrow> bool" for C \<kappa> where
  call: "call_step C \<kappa> \<kappa>' \<Longrightarrow> world_step C \<kappa> \<kappa>'"
| arrive: "money_ok C (intent_amount intent) \<Longrightarrow> fresh_for ev (cl_sys \<kappa>) \<Longrightarrow>
    world_step C \<kappa> \<lparr>cl_sys = admit key intent ev (cl_sys \<kappa>),
      cl_callers = cl_callers \<kappa> @ [\<lparr>c_key = key, c_intent = intent, c_attempt = 0,
        c_sess = length (sys_sess (cl_sys \<kappa>)), c_result = None\<rparr>]\<rparr>"
| account: "accounts_create C f now i name cur allows (sys_db (cl_sys \<kappa>)) = (res, d') \<Longrightarrow>
    world_step C \<kappa> (\<kappa>\<lparr>cl_sys := (cl_sys \<kappa>)\<lparr>sys_db := d'\<rparr>\<rparr>)"

definition quiet :: "'d calls \<Rightarrow> bool" where
  "quiet \<kappa> \<longleftrightarrow> idle_system (cl_sys \<kappa>) \<and> cl_callers \<kappa> = []"

definition call_reach :: "'d crates \<Rightarrow> 'd calls \<Rightarrow> bool" where
  "call_reach C \<kappa> \<longleftrightarrow> (\<exists>\<kappa>0. quiet \<kappa>0 \<and> (world_step C)\<^sup>*\<^sup>* \<kappa>0 \<kappa>)"

section \<open>The invariant\<close>

text \<open>A call and its session belong together; calls do not share sessions.\<close>

definition caller_ok :: "'d session list \<Rightarrow> 'd caller \<Rightarrow> bool" where
  "caller_ok ss c \<longleftrightarrow> c_sess c < length ss \<and> s_key (ss ! c_sess c) = c_key c \<and> s_intent (ss ! c_sess c) = c_intent c \<and>
     c_attempt c \<le> MAX_CONFLICT_RETRIES \<and>
     (\<forall>r. c_result c = Some r \<longrightarrow> s_pc (ss ! c_sess c) = Stopped r \<and> \<not> retries r (c_attempt c))"

definition calls_inv :: "'d crates \<Rightarrow> 'd calls \<Rightarrow> bool" where
  "calls_inv C \<kappa> \<longleftrightarrow> sys_inv C (cl_sys \<kappa>) \<and> distinct (map c_sess (cl_callers \<kappa>)) \<and>
     (\<forall>c \<in> set (cl_callers \<kappa>). caller_ok (sys_sess (cl_sys \<kappa>)) c)"

lemma session_moves_cstep: "session_moves C \<sigma> \<sigma>' \<Longrightarrow> cstep C \<sigma> \<sigma>'"
  by (cases rule: session_moves.cases, assumption) (auto intro: cstep.run cstep.abort cstep.lost_reply)

lemma caller_ok_append: "caller_ok ss c \<Longrightarrow> caller_ok (ss @ ts) c"
  by (auto simp: caller_ok_def nth_append)

lemma caller_ok_update:
  assumes "caller_ok ss c" and "\<forall>r. s_pc (ss ! i) \<noteq> Stopped r" and "s_key s = s_key (ss ! i)" and "s_intent s = s_intent (ss ! i)"
  shows "caller_ok (ss[i := s]) c"
  using assms by (cases "i < length ss"; cases "c_sess c = i") (auto simp: caller_ok_def)

context crate_contracts
begin

lemma session_moves_update:
  assumes "sys_inv C \<sigma>" and "session_moves C \<sigma> \<sigma>'"
  obtains i s d where "i < length (sys_sess \<sigma>)" "running (sys_sess \<sigma> ! i)" "\<sigma>' = set_session \<sigma> i s d"
    "s_key s = s_key (sys_sess \<sigma> ! i)" "s_intent s = s_intent (sys_sess \<sigma> ! i)" "work \<sigma>' < work \<sigma>"
  using assms(2)
proof (cases rule: session_moves.cases)
  case (statement i)
  then show thesis
  proof (cases rule: run_step.cases)
    case (1 s' d')
    have "s_key s' = s_key (sys_sess \<sigma> ! i) \<and> s_intent s' = s_intent (sys_sess \<sigma> ! i)"
      using assms(1) 1(2,3,5) by (cases rule: run_cases) simp_all
    then show thesis
      using that 1 run_step_work [OF assms(1) statement] by blast
  qed
next
  case (failure i e)
  then show thesis
    using that [OF failure(2,3,1)] work_set [OF failure(2), of "(sys_sess \<sigma> ! i)\<lparr>s_pc := Stopped (Err (Database e))\<rparr>"]
      rank_le [of "s_pc (sys_sess \<sigma> ! i)"] by (simp add: running_def)
next
  case (unseen_commit i s' d' e)
  then show thesis
    using that [OF unseen_commit(2) _ unseen_commit(1)]
      work_set [OF unseen_commit(2), of "(sys_sess \<sigma> ! i)\<lparr>s_pc := Stopped (Err (Database e))\<rparr>"]
    by (simp add: running_def)
qed

lemma admit_keeps:
  assumes "sys_inv C \<sigma>" and "money_ok C (intent_amount req)" and "fresh_for ev \<sigma>"
  shows "sys_inv C (admit key req ev \<sigma>)"
  using cstep_keeps [OF assms(1) cstep.request [OF assms(2,3)]] by (simp add: admit_def)

lemma caller_money_ok:
  assumes "calls_inv C \<kappa>" and "c \<in> set (cl_callers \<kappa>)"
  shows "money_ok C (intent_amount (c_intent c))"
proof -
  have "caller_ok (sys_sess (cl_sys \<kappa>)) c" "sys_inv C (cl_sys \<kappa>)"
    using assms by (auto simp: calls_inv_def)
  then show ?thesis
    unfolding caller_ok_def sys_inv_def sess_ok_def by (metis nth_mem)
qed

lemma call_step_keeps:
  assumes inv: "calls_inv C \<kappa>" and "call_step C \<kappa> \<kappa>'"
  shows "calls_inv C \<kappa>'"
  using assms(2)
proof (cases rule: call_step.cases)
  case (moves \<sigma>)
  have sys: "sys_inv C (cl_sys \<kappa>)"
    using inv by (simp add: calls_inv_def)
  have "sys_inv C \<sigma>"
    using cstep_keeps [OF sys session_moves_cstep [OF moves(2)]] by blast
  moreover obtain i s d where "running (sys_sess (cl_sys \<kappa>) ! i)" "\<sigma> = set_session (cl_sys \<kappa>) i s d"
    "s_key s = s_key (sys_sess (cl_sys \<kappa>) ! i)" "s_intent s = s_intent (sys_sess (cl_sys \<kappa>) ! i)"
    by (rule session_moves_update [OF sys moves(2)])
  ultimately show ?thesis
    using inv by (auto simp: calls_inv_def moves(1) running_iff set_session_def intro!: caller_ok_update)
next
  case (retry k c r ev)
  let ?n = "length (sys_sess (cl_sys \<kappa>))"
  have c: "c \<in> set (cl_callers \<kappa>)"
    using retry(2,3) by simp
  have old: "caller_ok (sys_sess (cl_sys \<kappa>)) b" if "b \<in> set (cl_callers \<kappa>)" for b
    using inv that by (simp add: calls_inv_def)
  then have "\<forall>b \<in> set (cl_callers \<kappa>). c_sess b < ?n"
    by (simp add: caller_ok_def)
  then have "?n \<notin> set (map c_sess (cl_callers \<kappa>))"
    by auto
  then have "distinct (map c_sess ((cl_callers \<kappa>)[k := again c ?n]))"
    using inv retry(2) by (simp add: calls_inv_def map_update again_def distinct_list_update)
  moreover have "caller_ok (sys_sess (cl_sys \<kappa>) @ [start (c_key c) (c_intent c) ev]) (again c ?n)"
    using old [OF c] retry(4,6) by (simp add: caller_ok_def again_def retries_def start_def)
  moreover have "sys_inv C (admit (c_key c) (c_intent c) ev (cl_sys \<kappa>))"
    using inv caller_money_ok [OF inv c] retry(7) by (simp add: calls_inv_def admit_keeps)
  ultimately show ?thesis
    using old caller_ok_append set_update_subset_insert [of "cl_callers \<kappa>" k]
    by (fastforce simp: calls_inv_def retry(1) admit_def)
next
  case (return k c r)
  have "caller_ok (sys_sess (cl_sys \<kappa>)) c"
    using inv return(2,3) by (simp add: calls_inv_def)
  then have "caller_ok (sys_sess (cl_sys \<kappa>)) (c\<lparr>c_result := Some r\<rparr>)"
    using return(5,6) by (simp add: caller_ok_def)
  moreover have "map c_sess ((cl_callers \<kappa>)[k := c\<lparr>c_result := Some r\<rparr>]) = map c_sess (cl_callers \<kappa>)"
    using return(2,3) by (simp add: map_update list_update_same_conv)
  ultimately show ?thesis
    using inv set_update_subset_insert [of "cl_callers \<kappa>" k] by (fastforce simp: calls_inv_def return(1))
qed

lemma world_step_keeps:
  assumes inv: "calls_inv C \<kappa>" and "world_step C \<kappa> \<kappa>'"
  shows "calls_inv C \<kappa>'"
  using assms(2)
proof (cases rule: world_step.cases)
  case call
  then show ?thesis by (rule call_step_keeps [OF inv])
next
  case (arrive req ev key)
  then show ?thesis
    using inv admit_keeps [OF _ arrive(2,3)]
    by (auto simp: calls_inv_def admit_def caller_ok_def start_def nth_append)
next
  case (account f now i name cur allows res d')
  then show ?thesis
    using inv cstep_keeps [of "cl_sys \<kappa>", OF _ cstep.open_account [OF account(2)]] by (auto simp: calls_inv_def)
qed

sublocale calling: step_invariant quiet "world_step C" "calls_inv C"
proof
  show "quiet \<kappa> \<Longrightarrow> calls_inv C \<kappa>" for \<kappa>
    by (simp add: quiet_def calls_inv_def idle_system_def sys_inv_def)
  show "calls_inv C \<kappa> \<Longrightarrow> world_step C \<kappa> \<kappa>' \<Longrightarrow> calls_inv C \<kappa>'" for \<kappa> \<kappa>'
    by (rule world_step_keeps)
qed

lemma call_reach_inv: "call_reach C \<kappa> \<Longrightarrow> calls_inv C \<kappa>"
  unfolding call_reach_def using calling.invariant by blast

lemma returned:
  assumes "calls_inv C \<kappa>" and "k < length (cl_callers \<kappa>)" and "c_result (cl_callers \<kappa> ! k) = Some r"
  shows "s_pc (sys_sess (cl_sys \<kappa>) ! c_sess (cl_callers \<kappa> ! k)) = Stopped r"
    and "settled C (sys_db (cl_sys \<kappa>)) (sys_sess (cl_sys \<kappa>) ! c_sess (cl_callers \<kappa> ! k)) r"
    and "\<not> retries r (c_attempt (cl_callers \<kappa> ! k))"
proof -
  let ?c = "cl_callers \<kappa> ! k"
  have ok: "caller_ok (sys_sess (cl_sys \<kappa>)) ?c" and sys: "sys_inv C (cl_sys \<kappa>)"
    using assms(1,2) by (simp_all add: calls_inv_def)
  then show "s_pc (sys_sess (cl_sys \<kappa>) ! c_sess ?c) = Stopped r" "\<not> retries r (c_attempt ?c)"
    using assms(3) by (simp_all add: caller_ok_def)
  then show "settled C (sys_db (cl_sys \<kappa>)) (sys_sess (cl_sys \<kappa>) ! c_sess ?c) r"
    using ok sys by (simp add: sys_inv_def sess_ok_def caller_ok_def)
qed

end

section \<open>Progress\<close>

definition call_cost :: "'d caller \<Rightarrow> nat" where
  "call_cost c = (if c_result c = None then 10 * (MAX_CONFLICT_RETRIES - c_attempt c) + 1 else 0)"

definition calls_work :: "'d calls \<Rightarrow> nat" where
  "calls_work \<kappa> = work (cl_sys \<kappa>) + sum_list (map call_cost (cl_callers \<kappa>))"

lemma sum_list_map_update:
  "k < length xs \<Longrightarrow> sum_list (map f (xs[k := y])) + f (xs ! k) = sum_list (map f xs) + (f y :: nat)"
  by (induction xs arbitrary: k) (auto split: nat.split)

lemma calls_work_le: "calls_work \<kappa> \<le> 9 * length (sys_sess (cl_sys \<kappa>)) + 31 * length (cl_callers \<kappa>)"
proof -
  have "call_cost c \<le> 31" for c :: "'a caller"
    by (simp add: call_cost_def MAX_CONFLICT_RETRIES_def)
  then have "sum_list (map call_cost (cl_callers \<kappa>)) \<le> 31 * length (cl_callers \<kappa>)"
    using sum_list_mono [of "cl_callers \<kappa>" call_cost "\<lambda>_. 31"] by (simp add: sum_list_triv)
  then show ?thesis
    using work_le [of "cl_sys \<kappa>"] by (simp add: calls_work_def)
qed

lemma work_admit: "work (admit key req ev \<sigma>) = work \<sigma> + 9"
  by (simp add: work_def admit_def start_def)

context crate_contracts
begin

lemma call_step_work:
  assumes inv: "calls_inv C \<kappa>" and "call_step C \<kappa> \<kappa>'"
  shows "calls_work \<kappa>' < calls_work \<kappa>"
  using assms(2)
proof (cases rule: call_step.cases)
  case (moves \<sigma>)
  have "work \<sigma> < work (cl_sys \<kappa>)"
    using inv by (auto simp: calls_inv_def intro: session_moves_update [OF _ moves(2)])
  then show ?thesis
    by (simp add: calls_work_def moves(1))
next
  case (retry k c r ev)
  have "call_cost (again c i) + 10 = call_cost c" for i
    using retry(4,6) by (simp add: call_cost_def again_def retries_def) linarith
  from this [of "length (sys_sess (cl_sys \<kappa>))"] show ?thesis
    using sum_list_map_update [OF retry(2), of call_cost "again c (length (sys_sess (cl_sys \<kappa>)))"]
    by (simp add: calls_work_def retry(1) work_admit retry(3) [symmetric])
next
  case (return k c r)
  have "call_cost (c\<lparr>c_result := Some r\<rparr>) < call_cost c"
    using return(4) by (simp add: call_cost_def)
  then show ?thesis
    using sum_list_map_update [OF return(2), of call_cost "c\<lparr>c_result := Some r\<rparr>"]
    by (simp add: calls_work_def return(1) return(3) [symmetric])
qed

lemma call_steps_keep: "(call_step C)\<^sup>*\<^sup>* \<kappa> \<kappa>' \<Longrightarrow> calls_inv C \<kappa> \<Longrightarrow> calls_inv C \<kappa>'"
  by (induction rule: rtranclp_induct) (auto intro: call_step_keeps)

lemma call_steps_bounded: "(call_step C ^^ n) \<kappa> \<kappa>' \<Longrightarrow> calls_inv C \<kappa> \<Longrightarrow> n + calls_work \<kappa>' \<le> calls_work \<kappa>"
proof (induction n arbitrary: \<kappa>')
  case (Suc n)
  then obtain \<tau> where \<tau>: "(call_step C ^^ n) \<kappa> \<tau>" "call_step C \<tau> \<kappa>'"
    by auto
  have "calls_inv C \<tau>"
    using call_steps_keep [OF relpowp_imp_rtranclp [OF \<tau>(1)] Suc.prems(2)] .
  then show ?case
    using Suc.IH [OF \<tau>(1) Suc.prems(2)] call_step_work [OF _ \<tau>(2)] by fastforce
qed simp

text \<open>When nothing moves any more, every call has returned, provided identifiers have not run out.\<close>

lemma stuck_returned:
  assumes inv: "calls_inv C \<kappa>" and stuck: "\<nexists>\<kappa>'. call_step C \<kappa> \<kappa>'" and "fresh_for ev (cl_sys \<kappa>)"
    and c: "c \<in> set (cl_callers \<kappa>)"
  shows "c_result c \<noteq> None"
proof
  assume none: "c_result c = None"
  have sys: "sys_inv C (cl_sys \<kappa>)" and ok: "caller_ok (sys_sess (cl_sys \<kappa>)) c"
    using inv c by (simp_all add: calls_inv_def)
  have "\<nexists>\<sigma>. runs C (cl_sys \<kappa>) \<sigma>"
    using stuck by (auto simp: runs_def intro: call_step.moves session_moves.statement)
  then have "\<not> running (sys_sess (cl_sys \<kappa>) ! c_sess c)"
    using stopped_iff_final [OF sys] ok by (simp add: caller_ok_def)
  then obtain r where r: "s_pc (sys_sess (cl_sys \<kappa>) ! c_sess c) = Stopped r"
    by (auto simp: running_iff)
  obtain k where k: "k < length (cl_callers \<kappa>)" "c = cl_callers \<kappa> ! k"
    using c by (metis in_set_conv_nth)
  show False
    using stuck call_step.retry [OF k none r _ assms(3)] call_step.return [OF k none r] by blast
qed

end

section \<open>Two calls with one key\<close>

lemma runs_calls: "(runs C)\<^sup>*\<^sup>* \<sigma> \<sigma>' \<Longrightarrow> (world_step C)\<^sup>*\<^sup>* \<lparr>cl_sys = \<sigma>, cl_callers = cs\<rparr> \<lparr>cl_sys = \<sigma>', cl_callers = cs\<rparr>"
proof (induction rule: rtranclp_induct)
  case (step \<tau> \<tau>')
  then have "call_step C \<lparr>cl_sys = \<tau>, cl_callers = cs\<rparr> \<lparr>cl_sys = \<tau>', cl_callers = cs\<rparr>"
    using call_step.moves [of C "\<lparr>cl_sys = \<tau>, cl_callers = cs\<rparr>" \<tau>'] by (auto simp: runs_def intro: session_moves.statement)
  then show ?case
    using step.IH by (meson rtranclp.rtrancl_into_rtrancl world_step.call)
qed simp

definition racing_caller :: "nat \<Rightarrow> rdec caller" where
  "racing_caller k = \<lparr>c_key = lit ''new'', c_intent = sample_transfer, c_attempt = 0, c_sess = k, c_result = None\<rparr>"

definition racing_calls :: "rdec calls" where
  "racing_calls = \<lparr>cl_sys = racing, cl_callers = [racing_caller 0, racing_caller 1]\<rparr>"

lemma racing_calls_reach: "call_reach ref_crates racing_calls"
proof -
  let ?idle = "\<lparr>cl_sys = \<lparr>sys_db = sample_ledger, sys_xid = 8, sys_sess = []\<rparr>, cl_callers = []\<rparr> :: rdec calls"
  let ?one = "\<lparr>cl_sys = \<lparr>sys_db = sample_ledger, sys_xid = 9, sys_sess = [racer 0]\<rparr>, cl_callers = [racing_caller 0]\<rparr>"
  have "world_step ref_crates ?idle ?one"
    using world_step.arrive [OF sample_transfer_ok, of "sample_ev (\<lambda>_. NoFault) 0" ?idle "lit ''new''"] sample_unused [of 0]
    by (simp add: fresh_for_def sample_fault_simps racer_def admit_def racing_caller_def)
  moreover have "world_step ref_crates ?one racing_calls"
    using world_step.arrive [OF sample_transfer_ok, of "sample_ev (\<lambda>_. NoFault) 1" ?one "lit ''new''"] sample_unused [of 1]
    by (simp add: fresh_for_def racer_def racing_def start_def entry_ids_def sample_ev_def admit_def racing_caller_def
        racing_calls_def)
  moreover have "quiet ?idle"
    using sample_ledger_inv by (simp add: quiet_def idle_system_def)
  ultimately show ?thesis
    unfolding call_reach_def by (meson converse_rtranclp_into_rtranclp rtranclp.rtrancl_refl)
qed

lemma racing_calls_return:
  "\<exists>\<sigma> p q. call_reach ref_crates \<lparr>cl_sys = \<sigma>, cl_callers = [racing_caller 0\<lparr>c_result := Some (Ok p)\<rparr>,
     racing_caller 1\<lparr>c_result := Some (Ok q)\<rparr>]\<rparr> \<and> res_outcome p = Created"
proof -
  obtain p q s t d1 where run: "(runs ref_crates)\<^sup>*\<^sup>* racing (set_session (set_session racing 0 s d1) 1 t d1)"
    and st: "s_pc s = Stopped (Ok p)" "s_pc t = Stopped (Ok q)" "res_outcome p = Created"
    using after_both by blast
  define \<sigma> where "\<sigma> = set_session (set_session racing 0 s d1) 1 t d1"
  have sess: "sys_sess \<sigma> ! 0 = s" "sys_sess \<sigma> ! 1 = t"
    by (simp_all add: \<sigma>_def set_session_def racing_def)
  let ?a = "racing_caller 0\<lparr>c_result := Some (Ok p)\<rparr>" and ?b = "racing_caller 1\<lparr>c_result := Some (Ok q)\<rparr>"
  let ?fresh = "\<lparr>cl_sys = \<sigma>, cl_callers = [racing_caller 0, racing_caller 1]\<rparr>"
  let ?mid = "\<lparr>cl_sys = \<sigma>, cl_callers = [?a, racing_caller 1]\<rparr>"
  have "call_step ref_crates ?fresh ?mid"
    using call_step.return [of 0 ?fresh "racing_caller 0" "Ok p"] sess(1) st(1) by (simp add: racing_caller_def retries_def)
  moreover have "call_step ref_crates ?mid \<lparr>cl_sys = \<sigma>, cl_callers = [?a, ?b]\<rparr>"
    using call_step.return [of 1 ?mid "racing_caller 1" "Ok q"] sess(2) st(2) by (simp add: racing_caller_def retries_def)
  moreover have "(world_step ref_crates)\<^sup>*\<^sup>* racing_calls ?fresh"
    unfolding racing_calls_def \<sigma>_def by (rule runs_calls [OF run])
  ultimately have "(world_step ref_crates)\<^sup>*\<^sup>* racing_calls \<lparr>cl_sys = \<sigma>, cl_callers = [?a, ?b]\<rparr>"
    by (meson rtranclp.rtrancl_into_rtrancl world_step.call)
  then show ?thesis
    using racing_calls_reach st(3) unfolding call_reach_def by (meson rtranclp_trans)
qed

section \<open>Properties\<close>

text \<open>
  C8: concurrent calls of \<open>execute\<close> move the money of a key once. In every state that any number of calls can
  reach, with their retries, with failing sessions and commits whose replies are lost, two calls with the
  same key that returned a result returned the same transaction, which is stored for that key and that
  request, and at most one of them is told that it created it.
\<close>

theorem concurrent_calls_exactly_once:
  assumes "crate_contracts C" and "call_reach C \<kappa>"
    and "k < length (cl_callers \<kappa>)" and "l < length (cl_callers \<kappa>)" and "k \<noteq> l"
    and "c_key (cl_callers \<kappa> ! k) = c_key (cl_callers \<kappa> ! l)"
    and "c_result (cl_callers \<kappa> ! k) = Some (Ok p)" and "c_result (cl_callers \<kappa> ! l) = Some (Ok q)"
  shows "res_detail p = res_detail q \<and> \<not> (res_outcome p = Created \<and> res_outcome q = Created) \<and>
    backed C (c_key (cl_callers \<kappa> ! k)) (c_intent (cl_callers \<kappa> ! k)) p (sys_db (cl_sys \<kappa>))"
proof -
  let ?c = "cl_callers \<kappa> ! k" and ?b = "cl_callers \<kappa> ! l"
  have inv: "calls_inv C \<kappa>"
    by (rule crate_contracts.call_reach_inv [OF assms(1,2)])
  have ok: "caller_ok (sys_sess (cl_sys \<kappa>)) ?c" "caller_ok (sys_sess (cl_sys \<kappa>)) ?b" "c_sess ?c \<noteq> c_sess ?b"
    and sys: "sys_inv C (cl_sys \<kappa>)"
    using inv assms(3-5) by (auto simp: calls_inv_def distinct_conv_nth)
  note ends = crate_contracts.returned [OF assms(1) inv]
  show ?thesis
    using crate_contracts.same_key_same_result [OF assms(1) sys, of "c_sess ?c" "c_sess ?b" p q] ok assms(6)
      ends(1,2) [OF assms(3,7)] ends(1) [OF assms(4,8)]
    by (auto simp: caller_ok_def settled_def)
qed

theorem concurrent_calls_exactly_once_witness:
  "\<exists>\<kappa> p q. call_reach ref_crates \<kappa> \<and> c_result (cl_callers \<kappa> ! 0) = Some (Ok p) \<and>
     c_result (cl_callers \<kappa> ! 1) = Some (Ok q) \<and> res_outcome p = Created \<and> res_detail p = res_detail q"
proof -
  obtain \<sigma> p q where reach: "call_reach ref_crates \<lparr>cl_sys = \<sigma>, cl_callers = [racing_caller 0\<lparr>c_result := Some (Ok p)\<rparr>,
      racing_caller 1\<lparr>c_result := Some (Ok q)\<rparr>]\<rparr>" and "res_outcome p = Created"
    using racing_calls_return by blast
  moreover have "res_detail p = res_detail q"
    using concurrent_calls_exactly_once [OF ref.crate_contracts_axioms reach, of 0 1 p q] by (simp add: racing_caller_def)
  ultimately show ?thesis
    by (intro exI [of _ "\<lparr>cl_sys = \<sigma>, cl_callers = [racing_caller 0\<lparr>c_result := Some (Ok p)\<rparr>,
      racing_caller 1\<lparr>c_result := Some (Ok q)\<rparr>]\<rparr>"] exI [of _ p] exI [of _ q]) simp
qed

text \<open>
  C9: concurrent calls all return. From every reachable state, whatever the schedule and whatever fails, the
  calls under way make a bounded number of steps, retries included; and when nothing can move any more, each
  of them has returned a result, never a panic, after at most four attempts, as long as fresh identifiers
  are still to be had.
\<close>

theorem concurrent_calls_return:
  assumes "crate_contracts C" and "call_reach C \<kappa>"
  shows "(\<forall>n \<kappa>'. (call_step C ^^ n) \<kappa> \<kappa>' \<longrightarrow> n \<le> 9 * length (sys_sess (cl_sys \<kappa>)) + 31 * length (cl_callers \<kappa>)) \<and>
    (\<forall>\<kappa>'. (call_step C)\<^sup>*\<^sup>* \<kappa> \<kappa>' \<and> (\<nexists>\<tau>. call_step C \<kappa>' \<tau>) \<and> (\<exists>ev. fresh_for ev (cl_sys \<kappa>')) \<longrightarrow>
       (\<forall>c \<in> set (cl_callers \<kappa>'). \<exists>r. c_result c = Some r \<and> r \<noteq> Panic \<and> Suc (c_attempt c) \<le> 4))"
proof -
  have inv: "calls_inv C \<kappa>"
    by (rule crate_contracts.call_reach_inv [OF assms])
  have "n \<le> 9 * length (sys_sess (cl_sys \<kappa>)) + 31 * length (cl_callers \<kappa>)" if "(call_step C ^^ n) \<kappa> \<kappa>'" for n \<kappa>'
    using crate_contracts.call_steps_bounded [OF assms(1) that inv] calls_work_le [of \<kappa>] by simp
  moreover have "\<exists>r. c_result c = Some r \<and> r \<noteq> Panic \<and> Suc (c_attempt c) \<le> 4"
    if "(call_step C)\<^sup>*\<^sup>* \<kappa> \<kappa>'" "\<nexists>\<tau>. call_step C \<kappa>' \<tau>" "fresh_for ev (cl_sys \<kappa>')" and c: "c \<in> set (cl_callers \<kappa>')" for \<kappa>' ev c
  proof -
    have inv': "calls_inv C \<kappa>'"
      by (rule crate_contracts.call_steps_keep [OF assms(1) that(1) inv])
    have "c_result c \<noteq> None"
      by (rule crate_contracts.stuck_returned [OF assms(1) inv' that(2-4)])
    then obtain r where r: "c_result c = Some r"
      by blast
    obtain k where k: "k < length (cl_callers \<kappa>')" "c = cl_callers \<kappa>' ! k"
      using c by (metis in_set_conv_nth)
    have "caller_ok (sys_sess (cl_sys \<kappa>')) c"
      using inv' c by (simp add: calls_inv_def)
    then show ?thesis
      using r k crate_contracts.returned(2) [OF assms(1) inv' k(1), of r]
      by (simp add: settled_def caller_ok_def MAX_CONFLICT_RETRIES_def)
  qed
  ultimately show ?thesis
    by blast
qed

theorem concurrent_calls_return_witness:
  "call_reach ref_crates racing_calls \<and> {n. \<exists>\<kappa>. (call_step ref_crates ^^ n) racing_calls \<kappa>} \<subseteq> {..80}"
  using concurrent_calls_return [OF ref.crate_contracts_axioms racing_calls_reach] racing_calls_reach
  by (auto simp: racing_calls_def racing_def)

end
