(* ===== verification/Service.thy ===== *)
theory Service
  imports Http
begin

text \<open>
  The service as a state machine: a state is the next transaction id of the database and its
  committed rows, a step is one HTTP request with everything its environment does to it. The
  invariants of the ledger hold in every state reachable from the empty database, and with funding
  accounts disabled no sequence of requests brings money into existence.
\<close>

section \<open>Runs\<close>

type_synonym service_state = "xid \<times> db"

inductive service_step ::
  "'d crates \<Rightarrow> (byte list \<Rightarrow> str option) \<Rightarrow> app_state \<Rightarrow> service_state \<Rightarrow> service_state \<Rightarrow> bool"
  for C to_str state where
  request: "attempts_ok (rq_attempts rq) \<Longrightarrow> alone (rq_attempts rq) \<Longrightarrow> x \<le> at_xid (rq_attempts rq 0) \<Longrightarrow>
     \<forall>n \<le> MAX_CONFLICT_RETRIES. at_xid (rq_attempts rq n) < y \<Longrightarrow>
     router C to_str state rq r d = (resp, d') \<Longrightarrow>
     service_step C to_str state (x, d) (y, d')"

inductive_cases service_stepE: "service_step C to_str state s t"

inductive reachable ::
  "'d crates \<Rightarrow> (byte list \<Rightarrow> str option) \<Rightarrow> app_state \<Rightarrow> service_state \<Rightarrow> bool"
  for C to_str state where
  init: "reachable C to_str state (x, empty_db)"
| step: "reachable C to_str state s \<Longrightarrow> service_step C to_str state s t \<Longrightarrow> reachable C to_str state t"

lemma reachable_steps:
  "reachable C to_str state s \<Longrightarrow> \<exists>s0. snd s0 = empty_db \<and> (service_step C to_str state)\<^sup>*\<^sup>* s0 s"
proof (induction rule: reachable.induct)
  case (init x)
  then show ?case by (intro exI [of _ "(x, empty_db)"]) simp
next
  case (step s t)
  then show ?case by (meson rtranclp.rtrancl_into_rtrancl)
qed

section \<open>What one request does to the ledger\<close>

text \<open>A request either opens an account or runs a transfer; every other one only reads.\<close>

lemma router_effect:
  assumes "router C to_str state rq r d = (resp, d')"
  obtains "d' = d"
  | f now i name cur allows res where
      "accounts_create C f now i name cur allows d = (res, d')"
      "allows \<longrightarrow> st_allow_funding_account_creation state"
  | key intent res where
      "execute C (rq_attempts rq) key intent d = (res, d')" "\<exists>p. transfer_intent_of C p = Ok intent"
proof (cases r)
  case (PostAccounts payload)
  then show thesis
    using assms that(1,2)
    by (auto simp: http_accounts_create_def Let_def split: sum.splits if_splits prod.splits)
next
  case (PostTransfers headers payload)
  then show thesis
    using assms that(1,3)
    by (fastforce simp: http_transfers_create_def result_simps split: result.splits prod.splits)
qed (use assms that(1) in auto)

lemma transfer_intent_money_ok:
  assumes "rust_decimal C" and "transfer_intent_of C p = Ok intent"
  shows "money_ok C (intent_amount intent)"
  using assms(2) rust_decimal.money_new_OkD(3) [OF assms(1)]
  by (auto simp: transfer_intent_of_def result_simps split: sum.splits if_splits)

context crate_contracts
begin

lemma service_step_keeps:
  assumes "service_step C to_str state s t" and "ledger_inv (fst s) (snd s)"
  shows "ledger_inv (fst t) (snd t)"
  using assms(1)
proof (cases rule: service_step.cases)
  case (request rq x y r d resp d')
  have "x \<le> y"
    using request(5,6) by (metis le0 le_trans less_imp_le)
  show ?thesis
    using request(7)
  proof (cases rule: router_effect)
    case 1
    then show ?thesis
      using assms(2) request(1,2) ledger_inv_mono [OF _ \<open>x \<le> y\<close>] by simp
  next
    case (2 f now i name cur allows res)
    then show ?thesis
      using assms(2) request(1,2) accounts_create_ledger_inv ledger_inv_mono [OF _ \<open>x \<le> y\<close>]
      by fastforce
  next
    case (3 key intent res)
    have inv: "ledger_inv (at_xid (rq_attempts rq 0)) d"
      using assms(2) request(1,5) ledger_inv_mono by auto
    have "money_ok C (intent_amount intent)"
      using 3(2) transfer_intent_money_ok rust_decimal_axioms by blast
    then obtain k where "k \<le> MAX_CONFLICT_RETRIES" "ledger_inv (Suc (at_xid (rq_attempts rq k))) d'"
      using execute_from_sound [OF request(3) _ inv _ 3(1) [unfolded execute_def]] by auto
    then show ?thesis
      using request(2,6) ledger_inv_mono by (metis Suc_leI fst_conv snd_conv)
  qed
qed

sublocale service: step_invariant "\<lambda>s. snd s = empty_db" "service_step C to_str state" "\<lambda>s. ledger_inv (fst s) (snd s)"
  for to_str state
  by unfold_locales (simp_all add: ledger_inv_empty service_step_keeps)

lemma reachable_ledger_inv: "reachable C to_str state s \<Longrightarrow> ledger_inv (fst s) (snd s)"
  using service.invariant reachable_steps by blast

text \<open>With funding accounts disabled, every account stays protected and nothing is ever posted.\<close>

lemma service_step_no_funding:
  assumes "service_step C to_str state s t" and "ledger_inv (fst s) (snd s)"
    and "\<not> st_allow_funding_account_creation state"
    and "\<forall>a \<in> set (accounts (snd s)). \<not> a_allows_negative_balance a" and "transactions (snd s) = []"
  shows "(\<forall>a \<in> set (accounts (snd t)). \<not> a_allows_negative_balance a) \<and> transactions (snd t) = []"
  using assms(1)
proof (cases rule: service_step.cases)
  case (request rq x y r d resp d')
  show ?thesis
    using request(7)
  proof (cases rule: router_effect)
    case 1
    then show ?thesis
      using assms(4,5) request(1,2) by simp
  next
    case (2 f now i name cur allows res)
    then show ?thesis
      using accounts_create_effect [OF 2(1), of x] assms(3-5) request(1,2)
      by (auto simp: table_simps)
  next
    case (3 key intent res)
    have inv: "ledger_inv (at_xid (rq_attempts rq 0)) d"
      using assms(2) request(1,5) ledger_inv_mono by auto
    have "\<not> accepts C ev key intent d" for ev
      by (rule not_accepts_protected) (use all_protected_zero [OF inv] assms(4) request(1) in auto)
    moreover have "money_ok C (intent_amount intent)"
      using 3(2) transfer_intent_money_ok rust_decimal_axioms by blast
    ultimately have "d' = d"
      using execute_from_once [OF request(3,4) _ inv _ 3(1) [unfolded execute_def]] by auto
    then show ?thesis
      using assms(4,5) request(1,2) by simp
  qed
qed

lemma reachable_no_funding:
  assumes "\<not> st_allow_funding_account_creation state"
  shows "reachable C to_str state s \<Longrightarrow>
    (\<forall>a \<in> set (accounts (snd s)). \<not> a_allows_negative_balance a) \<and> transactions (snd s) = []"
proof (induction rule: reachable.induct)
  case (step s t)
  then show ?case
    using service_step_no_funding [OF _ reachable_ledger_inv assms] by blast
qed (simp add: empty_db_def)

end

section \<open>A concrete run\<close>

definition closed_state :: app_state where
  "closed_state = \<lparr>st_allow_funding_account_creation = False\<rparr>"

lemma alice_reachable:
  "\<exists>r. reachable ref_crates ascii_to_str closed_state (12, empty_db\<lparr>accounts := [r]\<rparr>) \<and> a_name r = lit ''alice''"
proof -
  have name: "trim (car_name alice_request) = lit ''alice''" "lit ''alice'' \<noteq> []"
    "\<not> MAX_NAME_LEN < length (lit ''alice'')" "\<not> car_allows_negative_balance alice_request"
    and new: "account_row empty_db 9 = None" "constraints empty_db"
    by (simp_all add: alice_request_def trim_def lit_def is_whitespace_def MAX_NAME_LEN_def
        account_row_def empty_db_def constraints_def)
  have "as_str (car_currency alice_request) \<in> set ISO_4217"
    by (simp add: alice_request_def ISO_4217_def)
  then obtain a r where "accounts_create ref_crates NoFault 0 9 (lit ''alice'') (car_currency alice_request)
      False empty_db = (Ok a, empty_db\<lparr>accounts := [r]\<rparr>)" "a_name r = lit ''alice''"
    using ref.accounts_create_Ok [OF new(2,1), of "lit ''alice''" "car_currency alice_request" 0 False]
    by (fastforce simp: lit_def empty_db_def)
  then have run: "router ref_crates ascii_to_str closed_state sample_rq (PostAccounts (Inr alice_request)) empty_db =
      ((201, AccountBody a), empty_db\<lparr>accounts := [r]\<rparr>)"
    using name by (simp add: http_accounts_create_def sample_rq_def Let_def)
  have "attempts_ok (rq_attempts sample_rq)" "alone (rq_attempts sample_rq)"
    using sample_attempts [of "\<lambda>_. NoFault"] by (simp_all add: sample_rq_def)
  from service_step.request [OF this _ _ run, of 8 12]
  have "service_step ref_crates ascii_to_str closed_state (8, empty_db) (12, empty_db\<lparr>accounts := [r]\<rparr>)"
    by (auto simp: sample_rq_def sample_fault_simps MAX_CONFLICT_RETRIES_def)
  then show ?thesis
    using reachable.step [OF reachable.init] \<open>a_name r = lit ''alice''\<close> by blast
qed

section \<open>Properties\<close>

text \<open>
  C4: in every state reachable from the empty database by any sequence of HTTP requests, with any
  failures of database calls on the way, the books are right: the ledger invariant holds, the
  reconciliation sweep reports no violation, all balances sum to zero and no protected account is
  below zero.
\<close>

theorem service_invariant:
  assumes "crate_contracts C" and "reachable C to_str state (x, d)"
  shows "ledger_inv x d \<and> sweep_passes d \<and> sum_list (map a_balance (accounts d)) = 0 \<and>
    (\<forall>a \<in> set (accounts d). \<not> a_allows_negative_balance a \<longrightarrow> 0 \<le> a_balance a)"
proof -
  have inv: "ledger_inv x d"
    using crate_contracts.reachable_ledger_inv [OF assms] by simp
  have "\<forall>a \<in> set (accounts d). account_ok a"
    using ledger_inv_constraints [OF inv] by (simp add: constraints_def)
  then show ?thesis
    using inv ledger_inv_sweep [OF inv] balances_sum_zero [OF inv]
    by (auto simp: account_ok_def accounts_check_def split: if_splits)
qed

theorem service_invariant_witness:
  "\<exists>x d. reachable ref_crates ascii_to_str closed_state (x, d) \<and> accounts d \<noteq> [] \<and> sweep_passes d"
  using alice_reachable service_invariant [OF ref.crate_contracts_axioms] by fastforce

text \<open>
  C13: a caller cannot mint. With the creation of funding accounts disabled, no sequence of requests
  ever produces an account that may go negative, a balance other than zero, or a transaction.
\<close>

theorem callers_cannot_mint:
  assumes "crate_contracts C" and "\<not> st_allow_funding_account_creation state"
    and "reachable C to_str state (x, d)"
  shows "(\<forall>a \<in> set (accounts d). \<not> a_allows_negative_balance a \<and> a_balance a = 0) \<and> transactions d = []"
proof -
  have "ledger_inv x d"
    using crate_contracts.reachable_ledger_inv [OF assms(1,3)] by simp
  moreover have "\<forall>a \<in> set (accounts d). \<not> a_allows_negative_balance a" "transactions d = []"
    using crate_contracts.reachable_no_funding [OF assms] by simp_all
  ultimately show ?thesis
    using all_protected_zero by blast
qed

theorem callers_cannot_mint_witness:
  "\<exists>x d. reachable ref_crates ascii_to_str closed_state (x, d) \<and> accounts d \<noteq> [] \<and>
     (\<forall>a \<in> set (accounts d). a_balance a = 0)"
proof -
  obtain r where run: "reachable ref_crates ascii_to_str closed_state (12, empty_db\<lparr>accounts := [r]\<rparr>)"
    using alice_reachable by blast
  have "\<not> st_allow_funding_account_creation closed_state"
    by (simp add: closed_state_def)
  from callers_cannot_mint [OF ref.crate_contracts_axioms this run] show ?thesis
    using run by fastforce
qed

end
