(* ===== verification/Service_Types.thy ===== *)
theory Service_Types
  imports Service
begin

text \<open>
  The types the program's values are meant to have, as predicates: a stored or reported currency is a
  code of the table, an amount is one \<open>Money::new\<close> accepts. \<open>Currency\<close> is decoded from a row without a
  check (\<open>sqlx(transparent)\<close>), so this is an invariant of the rows and not of the type alone.
\<close>

section \<open>Typing\<close>

definition iso_code :: "str \<Rightarrow> bool" where
  "iso_code s \<longleftrightarrow> s \<in> set ISO_4217"

definition typed_db :: "db \<Rightarrow> bool" where
  "typed_db d \<longleftrightarrow>
     (\<forall>a \<in> set (accounts d). iso_code (a_currency a) \<and> 1 \<le> length (a_name a) \<and> length (a_name a) \<le> MAX_NAME_LEN \<and>
        \<bar>a_balance a\<bar> < 10 ^ 20) \<and>
     (\<forall>t \<in> set (transactions d). length (t_request_hash t) = 32) \<and>
     (\<forall>e \<in> set (entries d). iso_code (e_currency e) \<and> 0 < e_amount e \<and> e_amount e < 10 ^ 20)"

text \<open>Deserializing a currency goes through \<open>Currency::try_from\<close>.\<close>

fun typed_request :: "'d http_request \<Rightarrow> bool" where
  "typed_request (PostAccounts (Inr request)) = iso_code (as_str (car_currency request))"
| "typed_request (PostTransfers headers (Inr request)) = iso_code (as_str (trq_currency request))"
| "typed_request _ = True"

definition typed_money :: "'d crates \<Rightarrow> 'd money \<Rightarrow> bool" where
  "typed_money C m \<longleftrightarrow> money_ok C m \<and> iso_code (as_str (m_currency m))"

fun typed_body :: "'d crates \<Rightarrow> 'd http_body \<Rightarrow> bool" where
  "typed_body C (AccountBody a) = typed_money C (account_balance a)"
| "typed_body C (TransactionBody td) = (\<forall>e \<in> set (td_entries td). typed_money C (entry_amount e))"
| "typed_body C _ = True"

lemma list_all2_transfer:
  "list_all2 R xs ys \<Longrightarrow> \<forall>y \<in> set ys. P y \<Longrightarrow> (\<And>x y. R x y \<Longrightarrow> P y \<Longrightarrow> Q x) \<Longrightarrow> \<forall>x \<in> set xs. Q x"
  by (induction rule: list_all2_induct) auto

lemma typed_dbI:
  assumes "constraints d" and "\<forall>a \<in> set (accounts d). iso_code (a_currency a)"
  shows "typed_db d"
proof -
  have "iso_code (e_currency e)" if "e \<in> set (entries d)" for e
  proof -
    have "entry_ok d e"
      using assms(1) that by (simp add: constraints_def)
    then obtain a where "account_row d (e_account_id e) = Some a" "a_currency a = e_currency e"
      by (auto simp: entry_ok_def)
    then show ?thesis
      using assms(2) row_Some unfolding account_row_def by metis
  qed
  then show ?thesis
    using assms by (auto simp: typed_db_def constraints_def account_ok_def accounts_check_def entry_ok_def
        MAX_NAME_LEN_def split: if_splits)
qed

lemma iso_identity:
  assumes "map identity (accounts d') = map identity (accounts d)" and "\<forall>a \<in> set (accounts d). iso_code (a_currency a)"
  shows "\<forall>a \<in> set (accounts d'). iso_code (a_currency a)"
proof
  fix a assume "a \<in> set (accounts d')"
  then have "identity a \<in> identity ` set (accounts d)"
    using arg_cong [OF assms(1), of set] by (metis image_eqI list.set_map)
  then show "iso_code (a_currency a)"
    using assms(2) by (auto simp: identity_def)
qed

context crate_contracts
begin

lemma account_typed:
  assumes "account_try_from C (decode_account C r) = Ok a" and "iso_code (a_currency r)"
  shows "typed_money C (account_balance a)"
  using assms money_new_OkD
  by (auto simp: account_try_from_def result_simps decode_account_def typed_money_def)

lemma detail_typed:
  assumes "constraints d" and "typed_db d" and "transactions_get C f1 f2 i d = Ok td"
  shows "typed_body C (TransactionBody td)"
proof -
  have get: "transactions_get C NoFault NoFault i d = Ok td"
    using assms(3) by (auto simp: transactions_get_def result_simps)
  then obtain t where "transaction_row d i = Some t"
    using transactions_get_spec(1) [OF assms(1)] by fastforce
  then have "list_all2 (represents_entry C) (td_entries td) (sort_key entry_order (entries_of d i))"
    using transactions_get_spec(2) [OF assms(1)] get by fastforce
  moreover have "\<forall>r \<in> set (sort_key entry_order (entries_of d i)). iso_code (e_currency r)"
    using assms(2) by (simp add: typed_db_def entries_of_def)
  ultimately have "\<forall>e \<in> set (td_entries td). typed_money C (entry_amount e)"
    by (rule list_all2_transfer) (simp add: represents_entry_def typed_money_def)
  then show ?thesis by simp
qed

lemma accounts_create_typed:
  assumes "ledger_inv x d" and "typed_db d" and "iso_code (as_str cur)"
    and "accounts_create C f now i name cur allows d = (res, d')"
  shows "typed_db d'" and "res = Ok a \<Longrightarrow> typed_body C (AccountBody a)"
proof -
  have cons: "constraints d'"
    using accounts_create_ledger_inv [OF assms(1,4)] ledger_inv_constraints by blast
  have rows: "\<forall>a \<in> set (accounts d'). iso_code (a_currency a)"
    using accounts_create_effect [OF assms(4)] assms(2,3) by (auto simp: typed_db_def table_simps)
  then show "typed_db d'"
    by (rule typed_dbI [OF cons])
  assume "res = Ok a"
  then obtain r where "account_row d' i = Some r" "account_try_from C (decode_account C r) = Ok a"
    using assms(4) by (auto simp: accounts_create_def Let_def split: fault.splits result.splits option.splits)
  then show "typed_body C (AccountBody a)"
    using rows account_typed row_Some unfolding account_row_def by fastforce
qed

lemma execute_typed:
  assumes "attempts_ok evs" and "alone evs" and "money_ok C (intent_amount intent)"
    and "ledger_inv (at_xid (evs 0)) d" and "typed_db d" and "execute C evs key intent d = (r, d')"
  shows "typed_db d'" and "r = Ok res \<Longrightarrow> typed_body C (TransactionBody (res_detail res))"
proof -
  note run = assms(6) [unfolded execute_def]
  obtain x where "ledger_inv x d'" and backed: "\<forall>res. r = Ok res \<longrightarrow> backed C key intent res d'"
    using execute_from_sound [OF assms(1,3,4) _ run] by auto
  then have cons: "constraints d'"
    using ledger_inv_constraints by blast
  have "d' = d \<or> (\<exists>k \<le> MAX_CONFLICT_RETRIES. accepts C (evs k) key intent d \<and>
      d' = apply_writes (post_writes C (evs k) key intent d) d)"
    by (rule execute_from_once [OF assms(1-4) _ run]) simp
  then have "map identity (accounts d') = map identity (accounts d)"
    by (elim disjE exE conjE) (simp_all only: post_tables map_identity_update)
  then have "\<forall>a \<in> set (accounts d'). iso_code (a_currency a)"
    by (rule iso_identity) (use assms(5) in \<open>simp add: typed_db_def\<close>)
  then show typed: "typed_db d'"
    by (rule typed_dbI [OF cons])
  show "typed_body C (TransactionBody (res_detail res))" if "r = Ok res"
    using backed that detail_typed [OF cons typed] unfolding backed_def by blast
qed

lemma http_accounts_create_typed:
  assumes "ledger_inv x d" and "typed_db d" and "typed_request (PostAccounts payload :: 'd http_request)"
    and "http_accounts_create C rq state payload d = (r, d')"
  shows "typed_db d' \<and> (\<forall>st a. r = Ok (st, a) \<longrightarrow> typed_body C (AccountBody a))"
proof (cases "d' = d \<and> (\<exists>e. r = Err e)")
  case False
  then obtain request name allows res where "payload = Inr request" "r = and_then res (\<lambda>a. Ok (201, a))"
    "accounts_create C (rq_fault rq) (rq_now rq) (rq_id rq) name (car_currency request) allows d = (res, d')"
    using assms(4) by (auto simp: http_accounts_create_def Let_def split: sum.splits if_splits prod.splits)
  moreover from this(1) have "iso_code (as_str (car_currency request))"
    using assms(3) by simp
  ultimately show ?thesis
    using accounts_create_typed [OF assms(1,2)] by (simp only: result_simps) blast
qed (use assms(2) in auto)

lemma http_transfers_create_typed:
  assumes "attempts_ok (rq_attempts rq)" and "alone (rq_attempts rq)" and "ledger_inv (at_xid (rq_attempts rq 0)) d"
    and "typed_db d" and "http_transfers_create C to_str rq headers payload d = (r, d')"
  shows "typed_db d' \<and> (\<forall>st t. r = Ok (st, t) \<longrightarrow> typed_body C (TransactionBody t))"
proof (cases "d' = d \<and> (\<forall>x. r \<noteq> Ok x)")
  case False
  then obtain key intent res where "transfer_intent_of C payload = Ok intent"
    "execute C (rq_attempts rq) key intent d = (res, d')"
    "r = and_then res (\<lambda>res. Ok (outcome_status (res_outcome res), res_detail res))"
    using assms(5) by (auto simp: http_transfers_create_def result_simps split: result.splits prod.splits)
  moreover from this(1) have "money_ok C (intent_amount intent)"
    by (rule transfer_intent_money_ok [OF rust_decimal_axioms])
  ultimately show ?thesis
    using execute_typed [OF assms(1,2) _ assms(3,4)] by (simp only: result_simps) blast
qed (use assms(4) in auto)

lemma http_accounts_get_typed:
  assumes "typed_db d" and "http_accounts_get C rq i d = Ok a"
  shows "typed_body C (AccountBody a)"
proof -
  obtain r where "account_row d i = Some r" "account_try_from C (decode_account C r) = Ok a"
    using assms(2) by (auto simp: http_accounts_get_def accounts_get_def accounts_fetch_def result_simps)
  then show ?thesis
    using account_typed assms(1) row_Some unfolding account_row_def typed_db_def by fastforce
qed

lemma respond_typed:
  "(\<And>x. r = Ok x \<Longrightarrow> typed_body C (snd (ok x))) \<Longrightarrow> typed_body C (snd (respond C ok r))"
  by (cases r) (simp_all add: handle_panic_def Let_def)

lemma router_typed:
  assumes "attempts_ok (rq_attempts rq)" and "alone (rq_attempts rq)" and "ledger_inv (at_xid (rq_attempts rq 0)) d"
    and "typed_db d" and "typed_request r"
  shows "typed_db (snd (router C to_str state rq r d)) \<and> typed_body C (snd (fst (router C to_str state rq r d)))"
proof (cases r)
  case (PostAccounts payload)
  obtain res d' where run: "http_accounts_create C rq state payload d = (res, d')"
    by fastforce
  from http_accounts_create_typed [OF assms(3,4) _ this] show ?thesis
    using PostAccounts assms(5) by (auto simp: run intro!: respond_typed)
next
  case (GetAccount i)
  then show ?thesis
    using http_accounts_get_typed [OF assms(4)] assms(4) by (auto intro!: respond_typed)
next
  case (PostTransfers headers payload)
  obtain res d' where run: "http_transfers_create C to_str rq headers payload d = (res, d')"
    by fastforce
  from http_transfers_create_typed [OF assms(1-4) this] show ?thesis
    using PostTransfers by (auto simp: run intro!: respond_typed)
next
  case (GetTransaction i)
  then show ?thesis
    using detail_typed [OF ledger_inv_constraints [OF assms(3)] assms(4)] assms(4)
    by (auto simp: http_transactions_get_def intro!: respond_typed)
qed (use assms(4) in \<open>auto simp: live_def ready_def split: option.split\<close>)

end

section \<open>Properties\<close>

text \<open>
  C28: every value keeps its type. If the stored rows are well typed (currencies of the table, names of 1
  to 255 characters, fingerprints of 32 bytes, amounts a \<open>NUMERIC(20, 8)\<close> holds) and the request
  deserialized, then the rows after the request are well typed, and every balance and amount in the
  response is a value \<open>Money::new\<close> accepts in a currency of the table.
\<close>

theorem requests_preserve_types:
  assumes "crate_contracts C" and "attempts_ok (rq_attempts rq)" and "alone (rq_attempts rq)"
    and "ledger_inv (at_xid (rq_attempts rq 0)) d" and "typed_db d" and "typed_request r"
  shows "typed_db (snd (router C to_str state rq r d)) \<and> typed_body C (snd (fst (router C to_str state rq r d)))"
  by (rule crate_contracts.router_typed [OF assms])

theorem requests_preserve_types_witness:
  "typed_db (snd (router ref_crates ascii_to_str closed_state sample_rq (PostAccounts (Inr alice_request)) sample_ledger))"
proof -
  have "attempts_ok (rq_attempts sample_rq)" "alone (rq_attempts sample_rq)" "at_xid (rq_attempts sample_rq 0) = 8"
    using sample_attempts [of "\<lambda>_. NoFault"] by (simp_all add: sample_rq_def sample_fault_simps)
  moreover have "typed_db sample_ledger"
    by (rule typed_dbI [OF sample_constraints])
       (simp add: sample_ledger_def sample_account_def iso_code_def ISO_4217_def)
  moreover have "typed_request (PostAccounts (Inr alice_request))"
    by (simp add: alice_request_def iso_code_def ISO_4217_def)
  ultimately show ?thesis
    using requests_preserve_types [OF ref.crate_contracts_axioms, of sample_rq sample_ledger
        "PostAccounts (Inr alice_request)" ascii_to_str closed_state] sample_ledger_inv
    by (simp del: router.simps)
qed

end
