(* ===== verification/Wire.thy ===== *)
theory Wire
  imports Service_Types
begin

text \<open>
  The wire: how requests become the inputs of the handlers and how their results become JSON. It has
  what the \<open>Serialize\<close> and \<open>Deserialize\<close> attributes of \<open>src/domain/\<close>, \<open>src/error.rs\<close> and \<open>src/http/\<close> say
  about each type, the bodies written with \<open>json!\<close>, and the table of routes of \<open>src/http/mod.rs\<close>.

  A JSON document is a value of type \<open>json\<close>; reading and printing its text is \<open>serde_json\<close>. The formats of
  the leaves (\<open>Decimal\<close>, \<open>Uuid\<close>, \<open>DateTime\<close>) and the matching of paths belong to other crates and are a
  parameter, the record \<open>wire_api\<close>, with the contract \<open>wire_contract\<close>.
\<close>

section \<open>Documents\<close>

datatype json = JNull | JBool bool | JNum str | JStr str | JArr "json list" | JObj "(str \<times> json) list"

text \<open>A string of a document is a string of Unicode scalar values.\<close>

fun valid_json :: "json \<Rightarrow> bool" where
  "valid_json (JStr s) = valid_str s"
| "valid_json (JArr vs) = list_all valid_json vs"
| "valid_json (JObj kvs) = list_all (\<lambda>kv. valid_str (fst kv) \<and> valid_json (snd kv)) kvs"
| "valid_json _ = True"

record 'd wire_api =
  dec_from_str :: "str \<Rightarrow> 'd option"
  dec_de :: "json \<Rightarrow> 'd option"
  uuid_de :: "json \<Rightarrow> uuid option"
  time_ser :: "timestamp \<Rightarrow> str"
  time_de :: "json \<Rightarrow> timestamp option"
  data_error :: "json \<Rightarrow> str"
  path_uuid :: "str \<Rightarrow> str + uuid"
  match_path :: "str \<Rightarrow> str \<Rightarrow> str list option"

section \<open>Deserialize\<close>

text \<open>
  What \<open>#[derive(Deserialize)]\<close> does with a struct: an object gives the fields by name, in any order and
  with other members ignored; an array gives them by position. A field that occurs twice is an error,
  and so is a missing one unless it is marked \<open>#[serde(default)]\<close>.
\<close>

definition struct_fields :: "str list \<Rightarrow> json \<Rightarrow> (str \<times> json) list option" where
  "struct_fields names j =
     (case j of
        JObj kvs \<Rightarrow> Some kvs
      | JArr vs \<Rightarrow> if length vs \<le> length names then Some (zip names vs) else None
      | _ \<Rightarrow> None)"

definition members :: "str \<Rightarrow> (str \<times> json) list \<Rightarrow> json list" where
  "members k kvs = map snd (filter (\<lambda>kv. fst kv = k) kvs)"

definition field :: "str \<Rightarrow> (json \<Rightarrow> 'a option) \<Rightarrow> (str \<times> json) list \<Rightarrow> 'a option" where
  "field k de kvs = (case members k kvs of [v] \<Rightarrow> de v | _ \<Rightarrow> None)"

definition field_or :: "'a \<Rightarrow> str \<Rightarrow> (json \<Rightarrow> 'a option) \<Rightarrow> (str \<times> json) list \<Rightarrow> 'a option" where
  "field_or x k de kvs = (case members k kvs of [] \<Rightarrow> Some x | [v] \<Rightarrow> de v | _ \<Rightarrow> None)"

fun string_de :: "json \<Rightarrow> str option" where
  "string_de (JStr s) = Some s"
| "string_de _ = None"

fun bool_de :: "json \<Rightarrow> bool option" where
  "bool_de (JBool b) = Some b"
| "bool_de _ = None"

text \<open>\<open>#[serde(try_from = "String")]\<close>.\<close>

definition currency_de :: "json \<Rightarrow> currency option" where
  "currency_de j =
     Option.bind (string_de j) (\<lambda>s. case currency_try_from s of Ok c \<Rightarrow> Some c | _ \<Rightarrow> None)"

definition create_account_request_de :: "json \<Rightarrow> create_account_request option" where
  "create_account_request_de j =
     Option.bind (struct_fields [lit ''name'', lit ''currency'', lit ''allows_negative_balance''] j) (\<lambda>fs.
     Option.bind (field (lit ''name'') string_de fs) (\<lambda>name.
     Option.bind (field (lit ''currency'') currency_de fs) (\<lambda>cur.
     Option.bind (field_or False (lit ''allows_negative_balance'') bool_de fs) (\<lambda>allows.
     Some \<lparr>car_name = name, car_currency = cur, car_allows_negative_balance = allows\<rparr>))))"

definition transfer_request_de :: "'d wire_api \<Rightarrow> json \<Rightarrow> 'd transfer_request option" where
  "transfer_request_de S j =
     Option.bind (struct_fields [lit ''from_account_id'', lit ''to_account_id'', lit ''amount'',
       lit ''currency'', lit ''description''] j) (\<lambda>fs.
     Option.bind (field (lit ''from_account_id'') (uuid_de S) fs) (\<lambda>from.
     Option.bind (field (lit ''to_account_id'') (uuid_de S) fs) (\<lambda>to.
     Option.bind (field (lit ''amount'') (dec_de S) fs) (\<lambda>amount.
     Option.bind (field (lit ''currency'') currency_de fs) (\<lambda>cur.
     Option.bind (field_or [] (lit ''description'') string_de fs) (\<lambda>description.
     Some \<lparr>trq_from_account_id = from, trq_to_account_id = to, trq_amount = amount, trq_currency = cur,
           trq_description = description\<rparr>))))))"

text \<open>What a client of the API does with the same types, for instance the tests of the repository.\<close>

definition money_de :: "'d wire_api \<Rightarrow> json \<Rightarrow> 'd money option" where
  "money_de S j =
     Option.bind (struct_fields [lit ''amount'', lit ''currency''] j) (\<lambda>fs.
     Option.bind (field (lit ''amount'') (dec_de S) fs) (\<lambda>amount.
     Option.bind (field (lit ''currency'') currency_de fs) (\<lambda>cur.
     Some \<lparr>m_amount = amount, m_currency = cur\<rparr>)))"

definition direction_de :: "json \<Rightarrow> direction option" where
  "direction_de j =
     (if j = JStr (lit ''debit'') then Some Debit else if j = JStr (lit ''credit'') then Some Credit else None)"

definition account_de :: "'d wire_api \<Rightarrow> json \<Rightarrow> 'd account option" where
  "account_de S j =
     Option.bind (struct_fields [lit ''id'', lit ''name'', lit ''balance'', lit ''allows_negative_balance'',
       lit ''created_at''] j) (\<lambda>fs.
     Option.bind (field (lit ''id'') (uuid_de S) fs) (\<lambda>i.
     Option.bind (field (lit ''name'') string_de fs) (\<lambda>name.
     Option.bind (field (lit ''balance'') (money_de S) fs) (\<lambda>balance.
     Option.bind (field (lit ''allows_negative_balance'') bool_de fs) (\<lambda>allows.
     Option.bind (field (lit ''created_at'') (time_de S) fs) (\<lambda>created.
     Some \<lparr>account_id = i, account_name = name, account_balance = balance,
           account_allows_negative_balance = allows, account_created_at = created\<rparr>))))))"

definition entry_de :: "'d wire_api \<Rightarrow> json \<Rightarrow> 'd entry option" where
  "entry_de S j =
     Option.bind (struct_fields [lit ''id'', lit ''transaction_id'', lit ''account_id'', lit ''direction'',
       lit ''amount'', lit ''created_at''] j) (\<lambda>fs.
     Option.bind (field (lit ''id'') (uuid_de S) fs) (\<lambda>i.
     Option.bind (field (lit ''transaction_id'') (uuid_de S) fs) (\<lambda>txn.
     Option.bind (field (lit ''account_id'') (uuid_de S) fs) (\<lambda>acc.
     Option.bind (field (lit ''direction'') direction_de fs) (\<lambda>dir.
     Option.bind (field (lit ''amount'') (money_de S) fs) (\<lambda>amount.
     Option.bind (field (lit ''created_at'') (time_de S) fs) (\<lambda>created.
     Some \<lparr>entry_id = i, entry_transaction_id = txn, entry_account_id = acc, entry_direction = dir,
           entry_amount = amount, entry_created_at = created\<rparr>)))))))"

fun vec_de :: "(json \<Rightarrow> 'a option) \<Rightarrow> json \<Rightarrow> 'a list option" where
  "vec_de de (JArr []) = Some []"
| "vec_de de (JArr (v # vs)) =
     Option.bind (de v) (\<lambda>x. Option.bind (vec_de de (JArr vs)) (\<lambda>xs. Some (x # xs)))"
| "vec_de de _ = None"

text \<open>\<open>#[serde(flatten)]\<close>: the members of the inner struct are members of the outer object.\<close>

definition transaction_de :: "'d wire_api \<Rightarrow> (str \<times> json) list \<Rightarrow> transaction option" where
  "transaction_de S fs =
     Option.bind (field (lit ''id'') (uuid_de S) fs) (\<lambda>i.
     Option.bind (field (lit ''idempotency_key'') string_de fs) (\<lambda>key.
     Option.bind (field (lit ''description'') string_de fs) (\<lambda>description.
     Option.bind (field (lit ''created_at'') (time_de S) fs) (\<lambda>created.
     Some \<lparr>txn_id = i, txn_idempotency_key = key, txn_description = description, txn_created_at = created\<rparr>))))"

definition transaction_detail_de :: "'d wire_api \<Rightarrow> json \<Rightarrow> 'd transaction_detail option" where
  "transaction_detail_de S j =
     (case j of
        JObj fs \<Rightarrow>
          Option.bind (transaction_de S fs) (\<lambda>txn.
          Option.bind (field (lit ''entries'') (vec_de (entry_de S)) fs) (\<lambda>es.
          Some \<lparr>td_transaction = txn, td_entries = es\<rparr>))
      | _ \<Rightarrow> None)"

section \<open>Serialize\<close>

definition money_ser :: "'d crates \<Rightarrow> 'd money \<Rightarrow> json" where
  "money_ser C m =
     JObj [(lit ''amount'', JStr (d_to_string C (m_amount m))),
           (lit ''currency'', JStr (currency_to_string (m_currency m)))]"

fun direction_ser :: "direction \<Rightarrow> json" where
  "direction_ser Debit = JStr (lit ''debit'')"
| "direction_ser Credit = JStr (lit ''credit'')"

definition account_ser :: "'d crates \<Rightarrow> 'd wire_api \<Rightarrow> 'd account \<Rightarrow> json" where
  "account_ser C S a =
     JObj [(lit ''id'', JStr (uuid_to_string C (account_id a))),
           (lit ''name'', JStr (account_name a)),
           (lit ''balance'', money_ser C (account_balance a)),
           (lit ''allows_negative_balance'', JBool (account_allows_negative_balance a)),
           (lit ''created_at'', JStr (time_ser S (account_created_at a)))]"

definition entry_ser :: "'d crates \<Rightarrow> 'd wire_api \<Rightarrow> 'd entry \<Rightarrow> json" where
  "entry_ser C S e =
     JObj [(lit ''id'', JStr (uuid_to_string C (entry_id e))),
           (lit ''transaction_id'', JStr (uuid_to_string C (entry_transaction_id e))),
           (lit ''account_id'', JStr (uuid_to_string C (entry_account_id e))),
           (lit ''direction'', direction_ser (entry_direction e)),
           (lit ''amount'', money_ser C (entry_amount e)),
           (lit ''created_at'', JStr (time_ser S (entry_created_at e)))]"

definition transaction_ser :: "'d crates \<Rightarrow> 'd wire_api \<Rightarrow> transaction \<Rightarrow> (str \<times> json) list" where
  "transaction_ser C S t =
     [(lit ''id'', JStr (uuid_to_string C (txn_id t))),
      (lit ''idempotency_key'', JStr (txn_idempotency_key t)),
      (lit ''description'', JStr (txn_description t)),
      (lit ''created_at'', JStr (time_ser S (txn_created_at t)))]"

definition transaction_detail_ser :: "'d crates \<Rightarrow> 'd wire_api \<Rightarrow> 'd transaction_detail \<Rightarrow> json" where
  "transaction_detail_ser C S td =
     JObj (transaction_ser C S (td_transaction td) @
       [(lit ''entries'', JArr (map (entry_ser C S) (td_entries td)))])"

definition error_ser :: "string \<Rightarrow> str \<Rightarrow> json" where
  "error_ser c message =
     JObj [(lit ''error'', JObj [(lit ''code'', JStr (lit c)), (lit ''message'', JStr message)])]"

text \<open>The values of \<open>json!\<close> in \<open>src/http/health.rs\<close>; its maps are ordered by key.\<close>

definition health_ser :: "string \<Rightarrow> string option \<Rightarrow> json" where
  "health_ser st reason =
     JObj ((case reason of None \<Rightarrow> [] | Some r \<Rightarrow> [(lit ''reason'', JStr (lit r))]) @
       [(lit ''status'', JStr (lit st))])"

fun body_ser :: "'d crates \<Rightarrow> 'd wire_api \<Rightarrow> 'd http_body \<Rightarrow> json" where
  "body_ser C S (AccountBody a) = account_ser C S a"
| "body_ser C S (TransactionBody td) = transaction_detail_ser C S td"
| "body_ser C S (ErrorBody c message) = error_ser c message"
| "body_ser C S (HealthBody st reason) = health_ser st reason"

section \<open>Routes\<close>

datatype http_method = GET | HEAD | POST | OtherMethod str

datatype handler = Health_live | Health_ready | Accounts_create | Accounts_get | Transfers_create | Transactions_get

definition ROUTES :: "(string \<times> http_method \<times> handler) list" where
  "ROUTES =
     [(''/health/live'', GET, Health_live),
      (''/health/ready'', GET, Health_ready),
      (''/accounts'', POST, Accounts_create),
      (''/accounts/{id}'', GET, Accounts_get),
      (''/transfers'', POST, Transfers_create),
      (''/transactions/{id}'', GET, Transactions_get)]"

datatype routed = NotFound | MethodNotAllowed | Handler handler "str list"

text \<open>A route for \<open>GET\<close> also answers \<open>HEAD\<close>; a path without a route is a 404, a known path with another method a 405.\<close>

definition route :: "'d wire_api \<Rightarrow> http_method \<Rightarrow> str \<Rightarrow> routed" where
  "route S m path =
     (case filter (\<lambda>(pat, _). match_path S (lit pat) path \<noteq> None) ROUTES of
        [] \<Rightarrow> NotFound
      | rs \<Rightarrow>
          (case find (\<lambda>(_, m', _). m' = m \<or> m = HEAD \<and> m' = GET) rs of
             None \<Rightarrow> MethodNotAllowed
           | Some (pat, _, h) \<Rightarrow> Handler h (the (match_path S (lit pat) path))))"

text \<open>\<open>Json<T>\<close> with its rejection kept, and \<open>Path<Uuid>\<close>, whose rejection is answered by the framework.\<close>

definition json_body :: "(json \<Rightarrow> 'a option) \<Rightarrow> (json \<Rightarrow> str) \<Rightarrow> str + json \<Rightarrow> str + 'a" where
  "json_body de err body =
     (case body of
        Inl e \<Rightarrow> Inl e
      | Inr j \<Rightarrow> (case de j of Some x \<Rightarrow> Inr x | None \<Rightarrow> Inl (err j)))"

record wire_request =
  wr_method :: http_method
  wr_path :: str
  wr_headers :: headers
  wr_body :: "str + json"

fun handler_input ::
  "'d wire_api \<Rightarrow> handler \<Rightarrow> str list \<Rightarrow> headers \<Rightarrow> str + json \<Rightarrow> str + 'd http_request" where
  "handler_input S Health_live caps headers body = Inr GetLive"
| "handler_input S Health_ready caps headers body = Inr GetReady"
| "handler_input S Accounts_create caps headers body =
     Inr (PostAccounts (json_body create_account_request_de (data_error S) body))"
| "handler_input S Accounts_get caps headers body = map_sum id GetAccount (path_uuid S (hd caps))"
| "handler_input S Transfers_create caps headers body =
     Inr (PostTransfers headers (json_body (transfer_request_de S) (data_error S) body))"
| "handler_input S Transactions_get caps headers body = map_sum id GetTransaction (path_uuid S (hd caps))"

datatype wire_body = JsonBody json | TextBody str | EmptyBody

definition serve ::
  "'d crates \<Rightarrow> 'd wire_api \<Rightarrow> (byte list \<Rightarrow> str option) \<Rightarrow> app_state \<Rightarrow> request_env \<Rightarrow> wire_request \<Rightarrow> db \<Rightarrow>
   (nat \<times> wire_body) \<times> db" where
  "serve C S to_str state rq w d =
     (case route S (wr_method w) (wr_path w) of
        NotFound \<Rightarrow> ((404, EmptyBody), d)
      | MethodNotAllowed \<Rightarrow> ((405, EmptyBody), d)
      | Handler h caps \<Rightarrow>
          (case handler_input S h caps (wr_headers w) (wr_body w) of
             Inl e \<Rightarrow> ((400, TextBody e), d)
           | Inr r \<Rightarrow>
               (case router C to_str state rq r d of
                  ((st, body), d') \<Rightarrow>
                    ((st, if wr_method w = HEAD then EmptyBody else JsonBody (body_ser C S body)), d'))))"

section \<open>The contract of the formats\<close>

text \<open>
  A decimal is read from the plain notation it is printed in, with its mantissa and scale; the module
  \<open>rust_decimal::serde::str\<close> accepts strings only. A UUID is printed hyphenated and read from a string. A
  timestamp survives its text. A pattern without a parameter matches itself only, \<open>{id}\<close> matches one
  non-empty segment.
\<close>

locale wire_contract = crate_contracts C for C :: "'d crates" +
  fixes S :: "'d wire_api"
  assumes show_decimal: "d_mantissa C a \<noteq> 0 \<Longrightarrow>
      d_to_string C a = rd_to_string (RDec (d_mantissa C a) (d_scale C a))"
    and from_str_plain: "\<bar>m\<bar> < 2 ^ 96 \<Longrightarrow> k \<le> 28 \<Longrightarrow>
      \<exists>a. dec_from_str S (rd_to_string (RDec m k)) = Some a \<and> d_mantissa C a = m \<and> d_scale C a = k"
    and from_str_shown: "\<bar>d_mantissa C a\<bar> < 2 ^ 96 \<Longrightarrow> d_scale C a \<le> 28 \<Longrightarrow>
      \<exists>b. dec_from_str S (d_to_string C a) = Some b \<and> d_mantissa C b = d_mantissa C a \<and> d_scale C b = d_scale C a"
    and dec_de_str: "dec_de S (JStr t) = dec_from_str S t"
    and dec_de_only: "dec_de S j = Some a \<Longrightarrow> \<exists>t. j = JStr t"
    and uuid_shown: "uuid_to_string C u = hyphenated u"
    and uuid_de_str: "uuid_de S (JStr (hyphenated u)) = Some u"
    and uuid_de_only: "uuid_de S j = Some u \<Longrightarrow> \<exists>t. j = JStr t"
    and time_de_str: "time_de S (JStr (time_ser S now)) = Some now"
    and path_uuid_shown: "path_uuid S (hyphenated u) = Inr u"
    and match_static: "123 \<notin> set pat \<Longrightarrow> match_path S pat path = (if path = pat then Some [] else None)"
    and match_param: "123 \<notin> set pat \<Longrightarrow> match_path S (pat @ lit ''{id}'') path = Some caps \<longleftrightarrow>
      (\<exists>seg. caps = [seg] \<and> path = pat @ seg \<and> seg \<noteq> [] \<and> 47 \<notin> set seg)"

subsection \<open>An implementation\<close>

definition rd_parse :: "str \<Rightarrow> rdec option" where
  "rd_parse t =
     (let r = RDec ((if hd t = 45 then - 1 else 1) * int (read_digits 0 t)) (length (dropWhile (\<lambda>c. c \<noteq> 46) t) - 1) in
      if rd_to_string r = t then Some r else None)"

lemma rd_parse_shown: "rd_parse (rd_to_string a) = Some a"
proof -
  have "RDec ((if hd (rd_to_string a) = 45 then - 1 else 1) * int (read_digits 0 (rd_to_string a)))
      (length (dropWhile (\<lambda>c. c \<noteq> 46) (rd_to_string a)) - 1) = a"
    by (intro rdec.expand) (simp add: rd_to_string_digits rd_to_string_decimals [simplified] rd_to_string_sign)
  then show ?thesis
    by (simp add: rd_parse_def)
qed

definition parse_hyphenated :: "str \<Rightarrow> uuid option" where
  "parse_hyphenated t = (let u = of_nat (read_hex 0 t) in if hyphenated u = t then Some u else None)"

lemma parse_hyphenated_shown: "parse_hyphenated (hyphenated u) = Some u"
  by (simp add: parse_hyphenated_def read_hex_hyphenated)

definition str_de :: "(str \<Rightarrow> 'a option) \<Rightarrow> json \<Rightarrow> 'a option" where
  "str_de parse j = Option.bind (string_de j) parse"

definition match_segments :: "str \<Rightarrow> str \<Rightarrow> str list option" where
  "match_segments pat path =
     (if 123 \<in> set pat
      then let p = take (length pat - 4) pat; seg = drop (length p) path in
        if pat = p @ lit ''{id}'' \<and> take (length p) path = p \<and> seg \<noteq> [] \<and> 47 \<notin> set seg then Some [seg] else None
      else if path = pat then Some [] else None)"

definition ref_wire :: "rdec wire_api" where
  "ref_wire =
     \<lparr>dec_from_str = rd_parse, dec_de = str_de rd_parse, uuid_de = str_de parse_hyphenated,
      time_ser = (\<lambda>t. rd_to_string (RDec t 0)), time_de = str_de (map_option rd_mantissa \<circ> rd_parse),
      data_error = (\<lambda>j. lit ''invalid body''),
      path_uuid = (\<lambda>t. case parse_hyphenated t of Some u \<Rightarrow> Inr u | None \<Rightarrow> Inl (lit ''Invalid URL'')),
      match_path = match_segments\<rparr>"

lemma ref_wire_simps [simp]:
  "dec_from_str ref_wire = rd_parse" "dec_de ref_wire = str_de rd_parse" "uuid_de ref_wire = str_de parse_hyphenated"
  "time_ser ref_wire now = rd_to_string (RDec now 0)" "time_de ref_wire = str_de (map_option rd_mantissa \<circ> rd_parse)"
  "path_uuid ref_wire t = (case parse_hyphenated t of Some u \<Rightarrow> Inr u | None \<Rightarrow> Inl (lit ''Invalid URL''))"
  "match_path ref_wire = match_segments"
  by (simp_all add: ref_wire_def)

lemma str_de_simps [simp]: "str_de parse (JStr t) = parse t"
  by (simp add: str_de_def)

lemma str_de_only: "str_de parse j = Some x \<Longrightarrow> \<exists>t. j = JStr t"
  by (cases j) (simp_all add: str_de_def)

lemma match_segments_param:
  assumes "123 \<notin> set pat"
  shows "match_segments (pat @ lit ''{id}'') path = Some caps \<longleftrightarrow>
    (\<exists>seg. caps = [seg] \<and> path = pat @ seg \<and> seg \<noteq> [] \<and> 47 \<notin> set seg)"
proof -
  have "123 \<in> set (lit ''{id}'')"
    by (simp add: lit_def)
  moreover have "take (length pat) path = pat \<longleftrightarrow> (\<exists>seg. path = pat @ seg)"
    by (metis append_eq_conv_conj append_take_drop_id)
  ultimately show ?thesis
    by (auto simp: match_segments_def Let_def)
qed

interpretation ref_wire: wire_contract ref_crates ref_wire
proof unfold_locales
  show "123 \<notin> set pat \<Longrightarrow> match_path ref_wire (pat @ lit ''{id}'') path = Some caps \<longleftrightarrow>
      (\<exists>seg. caps = [seg] \<and> path = pat @ seg \<and> seg \<noteq> [] \<and> 47 \<notin> set seg)" for pat path caps
    using match_segments_param by simp
qed (auto simp: rd_parse_shown parse_hyphenated_shown str_de_only match_segments_def)

end
