(* ===== verification/Wire_Properties.thy ===== *)
theory Wire_Properties
  imports Wire
begin

text \<open>
  What the wire format keeps: everything. An account or a transaction that the service answers with is
  recovered exactly by a client that reads it with the same types, an amount can only be sent as a
  string, and each path and method reaches the one handler the table of routes gives it.
\<close>

section \<open>Fields\<close>

named_theorems wire_simps \<open>evaluation of decoders on objects\<close>

lemma members_simps [wire_simps]:
  "members k [] = []" "members k ((k', v) # kvs) = (if k' = k then v # members k kvs else members k kvs)"
  by (simp_all add: members_def)

lemma struct_fields_JObj [wire_simps]: "struct_fields names (JObj kvs) = Some kvs"
  by (simp add: struct_fields_def)

lemmas field_defs = field_def field_or_def

lemma field_SomeD: "field k de kvs = Some x \<Longrightarrow> \<exists>v. members k kvs = [v] \<and> de v = Some x"
  by (auto simp: field_def split: list.splits)

lemma members_in: "v \<in> set (members k kvs) \<Longrightarrow> (k, v) \<in> set kvs"
  by (auto simp: members_def)

lemma struct_fields_valid:
  assumes "struct_fields names j = Some fs" and "valid_json j" and "(k, v) \<in> set fs"
  shows "valid_json v"
  using assms by (cases j) (auto simp: struct_fields_def list_all_iff split: if_splits dest: set_zip_rightD)

section \<open>Round trips\<close>

text \<open>The same value, down to the scale of an amount.\<close>

definition same_money :: "'d crates \<Rightarrow> 'd money \<Rightarrow> 'd money \<Rightarrow> bool" where
  "same_money C m n \<longleftrightarrow> d_mantissa C (m_amount m) = d_mantissa C (m_amount n) \<and>
     d_scale C (m_amount m) = d_scale C (m_amount n) \<and> m_currency m = m_currency n"

definition same_account :: "'d crates \<Rightarrow> 'd account \<Rightarrow> 'd account \<Rightarrow> bool" where
  "same_account C a b \<longleftrightarrow> same_money C (account_balance a) (account_balance b) \<and>
     a\<lparr>account_balance := account_balance b\<rparr> = b"

definition same_entry :: "'d crates \<Rightarrow> 'd entry \<Rightarrow> 'd entry \<Rightarrow> bool" where
  "same_entry C e f \<longleftrightarrow> same_money C (entry_amount e) (entry_amount f) \<and> e\<lparr>entry_amount := entry_amount f\<rparr> = f"

definition same_detail :: "'d crates \<Rightarrow> 'd transaction_detail \<Rightarrow> 'd transaction_detail \<Rightarrow> bool" where
  "same_detail C td ue \<longleftrightarrow> td_transaction td = td_transaction ue \<and> list_all2 (same_entry C) (td_entries td) (td_entries ue)"

lemma same_money_val: "same_money C m n \<Longrightarrow> dval C (m_amount m) = dval C (m_amount n)"
  by (simp add: same_money_def dval_def)

lemma same_money_ok: "same_money C m n \<Longrightarrow> money_ok C m \<longleftrightarrow> money_ok C n"
  by (simp add: money_ok_def same_money_def dval_def)

lemma same_account_fields:
  assumes "same_account C a b"
  shows "same_money C (account_balance a) (account_balance b)" "account_id a = account_id b" "account_name a = account_name b"
    "account_allows_negative_balance a = account_allows_negative_balance b" "account_created_at a = account_created_at b"
proof -
  have "b = a\<lparr>account_balance := account_balance b\<rparr>"
    using assms by (simp add: same_account_def)
  from arg_cong [OF this, of account_id] arg_cong [OF this, of account_name]
    arg_cong [OF this, of account_allows_negative_balance] arg_cong [OF this, of account_created_at]
  show "account_id a = account_id b" "account_name a = account_name b"
    "account_allows_negative_balance a = account_allows_negative_balance b" "account_created_at a = account_created_at b"
    by simp_all
qed (use assms in \<open>simp add: same_account_def\<close>)

lemma same_entry_fields:
  assumes "same_entry C e f"
  shows "same_money C (entry_amount e) (entry_amount f)" "entry_id e = entry_id f"
    "entry_transaction_id e = entry_transaction_id f" "entry_account_id e = entry_account_id f"
    "entry_direction e = entry_direction f" "entry_created_at e = entry_created_at f"
proof -
  have "f = e\<lparr>entry_amount := entry_amount f\<rparr>"
    using assms by (simp add: same_entry_def)
  from arg_cong [OF this, of entry_id] arg_cong [OF this, of entry_transaction_id]
    arg_cong [OF this, of entry_account_id] arg_cong [OF this, of entry_direction] arg_cong [OF this, of entry_created_at]
  show "entry_id e = entry_id f" "entry_transaction_id e = entry_transaction_id f" "entry_account_id e = entry_account_id f"
    "entry_direction e = entry_direction f" "entry_created_at e = entry_created_at f"
    by simp_all
qed (use assms in \<open>simp add: same_entry_def\<close>)

lemma represents_same: "same_account C a b \<Longrightarrow> represents C b r \<Longrightarrow> represents C a r"
  using same_account_fields [of C a b] same_money_val [of C "account_balance a" "account_balance b"]
  by (simp add: represents_def account_currency_def same_money_def)

lemma represents_entry_same: "same_entry C e f \<Longrightarrow> represents_entry C f r \<Longrightarrow> represents_entry C e r"
  using same_entry_fields [of C e f] same_money_val [of C "entry_amount e" "entry_amount f"] same_money_ok
  by (simp add: represents_entry_def same_money_def) blast

lemma direction_roundtrip: "direction_de (direction_ser dir) = Some dir"
  by (cases dir) (simp_all add: direction_de_def)

lemma currency_roundtrip: "iso_code (as_str c) \<Longrightarrow> currency_de (JStr (currency_to_string c)) = Some c"
  using currency_try_from_eq [OF ISO_4217_valid, of "as_str c"]
  by (simp add: currency_de_def currency_to_string_def iso_code_def)

lemma currency_de_iso: "currency_de j = Some c \<Longrightarrow> valid_json j \<Longrightarrow> iso_code (as_str c)"
  by (cases j) (auto simp: currency_de_def iso_code_def currency_try_from_eq split: if_splits)

lemma vec_roundtrip:
  assumes "\<And>x. x \<in> set xs \<Longrightarrow> \<exists>y. de (ser x) = Some y \<and> R y x"
  shows "\<exists>ys. vec_de de (JArr (map ser xs)) = Some ys \<and> list_all2 R ys xs"
  using assms
proof (induction xs)
  case (Cons x xs)
  then obtain y ys where "de (ser x) = Some y" "R y x" "vec_de de (JArr (map ser xs)) = Some ys" "list_all2 R ys xs"
    by (metis list.set_intros)
  then show ?case by simp
qed simp

context wire_contract
begin

lemma money_mantissa:
  assumes "money_ok C m"
  shows "\<bar>d_mantissa C (m_amount m)\<bar> < 2 ^ 96" and "d_scale C (m_amount m) \<le> 28"
proof -
  have sc: "d_scale C (m_amount m) \<le> 8" and v: "\<bar>dval C (m_amount m)\<bar> < 10 ^ 12"
    using assms by (simp_all add: money_ok_def MAX_SCALE_def)
  then show "d_scale C (m_amount m) \<le> 28"
    by simp
  have "of_int \<bar>d_mantissa C (m_amount m)\<bar> = \<bar>dval C (m_amount m)\<bar> * 10 ^ d_scale C (m_amount m)"
    by (simp add: dval_def abs_divide)
  also have "\<dots> \<le> 10 ^ 12 * 10 ^ 8"
    using v sc by (intro mult_mono power_increasing) simp_all
  also have "\<dots> < (of_int (2 ^ 96) :: rat)"
    by simp
  finally show "\<bar>d_mantissa C (m_amount m)\<bar> < 2 ^ 96"
    using of_int_less_iff by blast
qed

lemma money_roundtrip:
  assumes "typed_money C m"
  shows "\<exists>n. money_de S (money_ser C m) = Some n \<and> same_money C n m"
proof -
  have "money_ok C m" "iso_code (as_str (m_currency m))"
    using assms by (simp_all add: typed_money_def)
  then show ?thesis
    using from_str_shown [OF money_mantissa]
    by (fastforce simp: money_de_def money_ser_def wire_simps field_def dec_de_str currency_roundtrip same_money_def)
qed

lemma account_roundtrip:
  assumes "typed_money C (account_balance a)"
  shows "\<exists>b. account_de S (account_ser C S a) = Some b \<and> same_account C b a"
  using money_roundtrip [OF assms]
  by (fastforce simp: account_de_def account_ser_def wire_simps field_def uuid_shown uuid_de_str time_de_str same_account_def)

lemma entry_roundtrip:
  assumes "typed_money C (entry_amount e)"
  shows "\<exists>f. entry_de S (entry_ser C S e) = Some f \<and> same_entry C f e"
  using money_roundtrip [OF assms]
  by (fastforce simp: entry_de_def entry_ser_def wire_simps field_def uuid_shown uuid_de_str time_de_str
      direction_roundtrip same_entry_def)

lemma detail_roundtrip:
  assumes "\<forall>e \<in> set (td_entries td). typed_money C (entry_amount e)"
  shows "\<exists>ue. transaction_detail_de S (transaction_detail_ser C S td) = Some ue \<and> same_detail C ue td"
proof -
  obtain es where "vec_de (entry_de S) (JArr (map (entry_ser C S) (td_entries td))) = Some es"
    "list_all2 (same_entry C) es (td_entries td)"
    using vec_roundtrip [of "td_entries td" "entry_de S" "entry_ser C S" "same_entry C"] entry_roundtrip assms by blast
  then show ?thesis
    by (simp add: transaction_detail_de_def transaction_detail_ser_def transaction_de_def transaction_ser_def wire_simps
        field_def uuid_shown uuid_de_str time_de_str same_detail_def)
qed

end

section \<open>Routing\<close>

text \<open>The intended meaning of the table.\<close>

definition allowed :: "http_method \<Rightarrow> http_method \<Rightarrow> handler \<Rightarrow> str list \<Rightarrow> routed" where
  "allowed m' m h caps = (if m' = m \<or> m = HEAD \<and> m' = GET then Handler h caps else MethodNotAllowed)"

definition segment_after :: "str \<Rightarrow> str \<Rightarrow> str option" where
  "segment_after p path =
     (let seg = drop (length p) path in
      if take (length p) path = p \<and> seg \<noteq> [] \<and> 47 \<notin> set seg then Some seg else None)"

definition route_spec :: "http_method \<Rightarrow> str \<Rightarrow> routed" where
  "route_spec m path =
     (if path = lit ''/health/live'' then allowed GET m Health_live []
      else if path = lit ''/health/ready'' then allowed GET m Health_ready []
      else if path = lit ''/accounts'' then allowed POST m Accounts_create []
      else if path = lit ''/transfers'' then allowed POST m Transfers_create []
      else case segment_after (lit ''/accounts/'') path of
        Some seg \<Rightarrow> allowed GET m Accounts_get [seg]
      | None \<Rightarrow>
          (case segment_after (lit ''/transactions/'') path of
             Some seg \<Rightarrow> allowed GET m Transactions_get [seg]
           | None \<Rightarrow> NotFound))"

lemma segment_after_Some:
  "segment_after p path = Some seg \<longleftrightarrow> path = p @ seg \<and> seg \<noteq> [] \<and> 47 \<notin> set seg"
  by (auto simp: segment_after_def Let_def) (metis append_take_drop_id)

lemma segment_after_fixed:
  "segment_after (lit ''/accounts/'') (lit ''/health/live'') = None"
  "segment_after (lit ''/accounts/'') (lit ''/health/ready'') = None"
  "segment_after (lit ''/accounts/'') (lit ''/accounts'') = None"
  "segment_after (lit ''/accounts/'') (lit ''/transfers'') = None"
  "segment_after (lit ''/transactions/'') (lit ''/health/live'') = None"
  "segment_after (lit ''/transactions/'') (lit ''/health/ready'') = None"
  "segment_after (lit ''/transactions/'') (lit ''/accounts'') = None"
  "segment_after (lit ''/transactions/'') (lit ''/transfers'') = None"
  by (simp_all add: segment_after_def Let_def lit_def)

lemma segments_apart:
  assumes "segment_after (lit ''/accounts/'') path = Some seg"
  shows "segment_after (lit ''/transactions/'') path = None"
proof (rule ccontr)
  assume "\<not> ?thesis"
  then obtain seg' where "path = lit ''/transactions/'' @ seg'" "path = lit ''/accounts/'' @ seg"
    using assms by (auto simp: segment_after_Some)
  then show False
    by (simp add: lit_def)
qed

context wire_contract
begin

lemma match_fixed:
  "match_path S (lit ''/health/live'') path = (if path = lit ''/health/live'' then Some [] else None)"
  "match_path S (lit ''/health/ready'') path = (if path = lit ''/health/ready'' then Some [] else None)"
  "match_path S (lit ''/accounts'') path = (if path = lit ''/accounts'' then Some [] else None)"
  "match_path S (lit ''/transfers'') path = (if path = lit ''/transfers'' then Some [] else None)"
  by (rule match_static, simp add: lit_def)+

lemma match_segment:
  assumes "123 \<notin> set (lit p)" and "lit q = lit p @ lit ''{id}''"
  shows "match_path S (lit q) path = map_option (\<lambda>seg. [seg]) (segment_after (lit p) path)"
proof -
  have "match_path S (lit q) path = Some caps \<longleftrightarrow> (\<exists>seg. caps = [seg] \<and> segment_after (lit p) path = Some seg)" for caps
    using match_param [OF assms(1), of path caps] by (simp add: assms(2) segment_after_Some)
  then show ?thesis
    by (cases "segment_after (lit p) path"; cases "match_path S (lit q) path") auto
qed

lemma match_ids:
  "match_path S (lit ''/accounts/{id}'') path = map_option (\<lambda>seg. [seg]) (segment_after (lit ''/accounts/'') path)"
  "match_path S (lit ''/transactions/{id}'') path = map_option (\<lambda>seg. [seg]) (segment_after (lit ''/transactions/'') path)"
  by (rule match_segment; simp add: lit_def)+

lemma route_eq: "route S m path = route_spec m path"
  unfolding route_def ROUTES_def route_spec_def
  by (auto simp: match_fixed match_ids allowed_def segment_after_fixed segments_apart split: option.split)

end

section \<open>Requests\<close>

lemma hyphenated_segment: "hyphenated u \<noteq> []" "47 \<notin> set (hyphenated u)"
proof -
  have "47 \<notin> set (hex_digits k n)" for k n
    by (induction k arbitrary: n) auto
  then show "47 \<notin> set (hyphenated u)"
    by (auto simp: hyphenated_def Let_def dest: in_set_takeD in_set_dropD)
qed (simp add: hyphenated_def Let_def)

definition get_request :: "str \<Rightarrow> wire_request" where
  "get_request path = \<lparr>wr_method = GET, wr_path = path, wr_headers = [], wr_body = Inl []\<rparr>"

definition post_request :: "string \<Rightarrow> headers \<Rightarrow> json \<Rightarrow> wire_request" where
  "post_request path headers j = \<lparr>wr_method = POST, wr_path = lit path, wr_headers = headers, wr_body = Inr j\<rparr>"

lemma router_reads: "snd (router C to_str state rq r d) \<noteq> d \<Longrightarrow> (\<exists>p. r = PostAccounts p) \<or> (\<exists>h p. r = PostTransfers h p)"
  by (cases r) auto

lemma handler_input_posts:
  "handler_input S h caps headers body = Inr (PostAccounts p) \<Longrightarrow> h = Accounts_create"
  "handler_input S h caps headers body = Inr (PostTransfers hs q) \<Longrightarrow> h = Transfers_create"
  by (cases h; auto simp: map_sum_def split: sum.splits)+

context wire_contract
begin

lemma route_segment:
  "route S GET (lit ''/accounts/'' @ hyphenated u) = Handler Accounts_get [hyphenated u]"
  "route S GET (lit ''/transactions/'' @ hyphenated u) = Handler Transactions_get [hyphenated u]"
proof -
  have acc: "segment_after (lit ''/accounts/'') (lit ''/accounts/'' @ hyphenated u) = Some (hyphenated u)"
    and txn: "segment_after (lit ''/transactions/'') (lit ''/transactions/'' @ hyphenated u) = Some (hyphenated u)"
    by (simp_all add: segment_after_Some hyphenated_segment)
  moreover have "segment_after (lit ''/accounts/'') (lit ''/transactions/'' @ hyphenated u) = None"
    using segments_apart txn by (metis not_Some_eq)
  moreover have "lit ''/accounts/'' @ hyphenated u \<noteq> lit p" if "segment_after (lit ''/accounts/'') (lit p) = None" for p
    using acc that by auto
  moreover have "lit ''/transactions/'' @ hyphenated u \<noteq> lit p" if "segment_after (lit ''/transactions/'') (lit p) = None" for p
    using txn that by auto
  ultimately show "route S GET (lit ''/accounts/'' @ hyphenated u) = Handler Accounts_get [hyphenated u]"
    "route S GET (lit ''/transactions/'' @ hyphenated u) = Handler Transactions_get [hyphenated u]"
    by (simp_all add: route_eq route_spec_def segment_after_fixed allowed_def)
qed

lemma serve_reads:
  "serve C S to_str state rq (get_request (lit ''/accounts/'' @ hyphenated u)) d =
     (let (st, body) = fst (router C to_str state rq (GetAccount u) d) in ((st, JsonBody (body_ser C S body)), d))"
  "serve C S to_str state rq (get_request (lit ''/transactions/'' @ hyphenated u)) d =
     (let (st, body) = fst (router C to_str state rq (GetTransaction u) d) in ((st, JsonBody (body_ser C S body)), d))"
  by (simp_all add: serve_def get_request_def route_segment path_uuid_shown split: prod.split)

lemma serve_changes:
  assumes "snd (serve C S to_str state rq w d) \<noteq> d"
  shows "wr_method w = POST \<and> wr_path w \<in> {lit ''/accounts'', lit ''/transfers''}"
proof -
  obtain h caps r where "route S (wr_method w) (wr_path w) = Handler h caps"
    "handler_input S h caps (wr_headers w) (wr_body w) = Inr r" "snd (router C to_str state rq r d) \<noteq> d"
    using assms by (auto simp: serve_def split: routed.splits sum.splits prod.splits)
  then have "route_spec (wr_method w) (wr_path w) = Handler h caps" "h = Accounts_create \<or> h = Transfers_create"
    using router_reads [of C to_str state rq r d] by (auto simp: route_eq dest: handler_input_posts)
  then show ?thesis
    by (auto simp: route_spec_def allowed_def split: if_splits option.splits)
qed

text \<open>
  A path whose id is not a UUID is answered by the extractor, in plain text: not with the error object
  that the handlers use.
\<close>

lemma malformed_id_plain_text:
  assumes "path_uuid S seg = Inl e" and "seg \<noteq> []" and "47 \<notin> set seg"
  shows "serve C S to_str state rq (get_request (lit ''/accounts/'' @ seg)) d = ((400, TextBody e), d)"
proof -
  have "segment_after (lit ''/accounts/'') (lit ''/accounts/'' @ seg) = Some seg"
    using assms(2,3) by (simp add: segment_after_Some)
  moreover from this have "lit ''/accounts/'' @ seg \<noteq> lit p" if "segment_after (lit ''/accounts/'') (lit p) = None" for p
    using that by auto
  ultimately have "route S GET (lit ''/accounts/'' @ seg) = Handler Accounts_get [seg]"
    by (simp add: route_eq route_spec_def segment_after_fixed allowed_def)
  then show ?thesis
    using assms(1) by (simp add: serve_def get_request_def)
qed

text \<open>Whatever arrives on the wire is well typed by the time a handler sees it, and so are the rows afterwards.\<close>

lemma handler_input_typed:
  assumes "handler_input S h caps headers body = Inr r" and "\<forall>j. body = Inr j \<longrightarrow> valid_json j"
  shows "typed_request r"
proof -
  have iso: "iso_code (as_str c)" if "struct_fields names j = Some fs" "body = Inr j"
    "field k currency_de fs = Some c" for names j fs k c
    using that assms(2) struct_fields_valid [of names j fs k] currency_de_iso members_in field_SomeD
    by (metis list.set_intros(1))
  show ?thesis
    using assms(1) iso
    by (cases h) (auto simp: map_sum_def json_body_def create_account_request_de_def transfer_request_de_def
        bind_eq_Some_conv split: sum.splits option.splits)
qed

lemma serve_typed:
  assumes "attempts_ok (rq_attempts rq)" and "alone (rq_attempts rq)" and "ledger_inv (at_xid (rq_attempts rq 0)) d"
    and "typed_db d" and "\<forall>j. wr_body w = Inr j \<longrightarrow> valid_json j"
  shows "typed_db (snd (serve C S to_str state rq w d))"
  using router_typed [OF assms(1-4)] handler_input_typed [OF _ assms(5)] assms(4)
  by (auto simp: serve_def split: routed.split sum.split prod.split) (metis snd_conv)

lemma amount_string:
  assumes "transfer_request_de S (JObj kvs) = Some r" and "(lit ''amount'', v) \<in> set kvs"
  shows "\<exists>t. v = JStr t"
proof -
  have "field (lit ''amount'') (dec_de S) kvs = Some (trq_amount r)"
    using assms(1) by (auto simp: transfer_request_de_def wire_simps bind_eq_Some_conv)
  then obtain v' where v': "members (lit ''amount'') kvs = [v']" "dec_de S v' = Some (trq_amount r)"
    using field_SomeD by metis
  moreover have "v \<in> set (members (lit ''amount'') kvs)"
    using assms(2) by (force simp: members_def)
  ultimately show ?thesis
    using dec_de_only by auto
qed

end

section \<open>Properties\<close>

text \<open>
  C23: nothing is lost on the wire. Serializing an account or a transaction of the service and reading it
  back with the same types gives the same value, every amount with the same mantissa and scale: no
  amount passes through a floating point number.
\<close>

theorem wire_roundtrip:
  assumes "wire_contract C S"
  shows "(typed_money C (account_balance a) \<longrightarrow>
      (\<exists>b. account_de S (account_ser C S a) = Some b \<and> same_account C b a)) \<and>
    ((\<forall>e \<in> set (td_entries td). typed_money C (entry_amount e)) \<longrightarrow>
      (\<exists>ue. transaction_detail_de S (transaction_detail_ser C S td) = Some ue \<and> same_detail C ue td))"
  using wire_contract.account_roundtrip [OF assms] wire_contract.detail_roundtrip [OF assms] by blast

theorem wire_roundtrip_witness:
  "\<exists>ue. transaction_detail_de ref_wire (transaction_detail_ser ref_crates ref_wire
      (sample_detail [sample_entry Credit 5, sample_entry Debit 5])) = Some ue \<and> length (td_entries ue) = 2"
proof -
  have "\<forall>e \<in> set (td_entries (sample_detail [sample_entry Credit 5, sample_entry Debit 5])).
      typed_money ref_crates (entry_amount e)"
    by (simp add: sample_detail_def sample_entry_def typed_money_def money_ok_def dval_ref MAX_SCALE_def iso_code_def
        ISO_4217_def)
  then have "\<exists>ue. transaction_detail_de ref_wire (transaction_detail_ser ref_crates ref_wire
      (sample_detail [sample_entry Credit 5, sample_entry Debit 5])) = Some ue \<and>
      same_detail ref_crates ue (sample_detail [sample_entry Credit 5, sample_entry Debit 5])"
    using wire_roundtrip [OF ref_wire.wire_contract_axioms] by blast
  then show ?thesis
    by (auto simp: same_detail_def sample_detail_def dest: list_all2_lengthD)
qed

text \<open>
  C29: an amount can only be sent as a JSON string. A transfer whose amount is a bare number is refused
  as invalid, or for its missing key, and nothing is written; a double never reaches the ledger.
\<close>

theorem bare_number_refused:
  assumes "wire_contract C S" and "(lit ''amount'', JNum n) \<in> set kvs"
  shows "fst (fst (serve C S to_str state rq (post_request ''/transfers'' headers (JObj kvs)) d)) \<in> {400, 422} \<and>
    snd (serve C S to_str state rq (post_request ''/transfers'' headers (JObj kvs)) d) = d"
proof -
  have "transfer_request_de S (JObj kvs) = None"
    using wire_contract.amount_string [OF assms(1) _ assms(2)] by (metis json.distinct(19) not_Some_eq)
  then have "serve C S to_str state rq (post_request ''/transfers'' headers (JObj kvs)) d =
      (case router C to_str state rq (PostTransfers headers (Inl (data_error S (JObj kvs)))) d of
        ((st, body), d') \<Rightarrow> ((st, JsonBody (body_ser C S body)), d'))"
    by (simp add: serve_def post_request_def wire_contract.route_eq [OF assms(1)] route_spec_def allowed_def
        json_body_def del: router.simps)
  moreover have "extract_idempotency_key to_str headers \<noteq> Panic"
    by (auto simp: extract_idempotency_key_def result_simps Let_def split: if_splits)
  moreover have "status e \<in> {400, 422}" if "extract_idempotency_key to_str headers = Err e" for e
    using that by (auto simp: extract_idempotency_key_def result_simps Let_def split: if_splits)
  ultimately show ?thesis
    by (cases "extract_idempotency_key to_str headers")
       (auto simp: http_transfers_create_def transfer_intent_of_def error_into_response_def Let_def)
qed

theorem bare_number_refused_witness:
  "fst (fst (serve ref_crates ref_wire ascii_to_str closed_state sample_rq
     (post_request ''/transfers'' [] (JObj [(lit ''amount'', JNum (lit ''10.25''))])) sample_ledger)) \<in> {400, 422}"
  using bare_number_refused [OF ref_wire.wire_contract_axioms, of "lit ''10.25''" "[(lit ''amount'', JNum (lit ''10.25''))]"]
  by simp

text \<open>
  C30: each method and path reaches exactly the handler the table of routes gives it; an unknown path is
  a 404, a known path with another method a 405; and only \<open>POST /accounts\<close> and \<open>POST /transfers\<close> can
  change the ledger.
\<close>

theorem routes_reached:
  assumes "wire_contract C S"
  shows "route S (wr_method w) (wr_path w) = route_spec (wr_method w) (wr_path w) \<and>
    (route_spec (wr_method w) (wr_path w) = NotFound \<longrightarrow> serve C S to_str state rq w d = ((404, EmptyBody), d)) \<and>
    (route_spec (wr_method w) (wr_path w) = MethodNotAllowed \<longrightarrow> serve C S to_str state rq w d = ((405, EmptyBody), d)) \<and>
    (snd (serve C S to_str state rq w d) \<noteq> d \<longrightarrow>
     wr_method w = POST \<and> wr_path w \<in> {lit ''/accounts'', lit ''/transfers''})"
  using wire_contract.route_eq [OF assms] wire_contract.serve_changes [OF assms]
  by (simp add: serve_def)

theorem routes_reached_witness:
  "serve ref_crates ref_wire ascii_to_str closed_state sample_rq (get_request (lit ''/accounts'')) sample_ledger =
     ((405, EmptyBody), sample_ledger) \<and>
   serve ref_crates ref_wire ascii_to_str closed_state sample_rq (get_request (lit ''/accounts/'')) sample_ledger =
     ((404, EmptyBody), sample_ledger)"
proof -
  have "route_spec GET (lit ''/accounts'') = MethodNotAllowed" "route_spec GET (lit ''/accounts/'') = NotFound"
    by (simp_all add: route_spec_def allowed_def segment_after_def Let_def lit_def)
  then show ?thesis
    using routes_reached [OF ref_wire.wire_contract_axioms, of "get_request (lit ''/accounts'')"]
      routes_reached [OF ref_wire.wire_contract_axioms, of "get_request (lit ''/accounts/'')"]
    by (simp add: get_request_def)
qed

text \<open>
  C24: what a client reads is what is stored. \<open>GET /accounts/{id}\<close> and \<open>GET /transactions/{id}\<close> of an existing
  row answer 200 with a document from which the client's own types recover the row, balance and amounts
  unrounded and the entries in their order; the ledger is unchanged.
\<close>

theorem reads_over_wire:
  assumes "wire_contract C S" and "constraints d" and "typed_db d" and "rq_fault rq = NoFault" and "rq_fault2 rq = NoFault"
  shows "(account_row d i = Some r \<longrightarrow>
      (\<exists>j a. serve C S to_str state rq (get_request (lit ''/accounts/'' @ hyphenated i)) d = ((200, JsonBody j), d) \<and>
         account_de S j = Some a \<and> represents C a r)) \<and>
    (transaction_row d i = Some t \<longrightarrow>
      (\<exists>j td. serve C S to_str state rq (get_request (lit ''/transactions/'' @ hyphenated i)) d = ((200, JsonBody j), d) \<and>
         transaction_detail_de S j = Some td \<and> td_transaction td = transaction_from (decode_transaction t) \<and>
         list_all2 (represents_entry C) (td_entries td) (sort_key entry_order (entries_of d i))))"
proof (intro conjI impI)
  have crates: "crate_contracts C"
    using assms(1) by (simp add: wire_contract_def)
  assume "account_row d i = Some r"
  then obtain a where a: "accounts_get C NoFault i d = Ok a" "represents C a r"
    using crate_contracts.accounts_get_spec(2) [OF crates assms(2)] by blast
  then have "typed_money C (account_balance a)"
    using crate_contracts.http_accounts_get_typed [OF crates assms(3), of rq i a] assms(4) by (simp add: http_accounts_get_def)
  then show "\<exists>j a. serve C S to_str state rq (get_request (lit ''/accounts/'' @ hyphenated i)) d = ((200, JsonBody j), d) \<and>
      account_de S j = Some a \<and> represents C a r"
    using wire_contract.account_roundtrip [OF assms(1)] represents_same [OF _ a(2)] a(1) assms(4)
    by (simp add: wire_contract.serve_reads [OF assms(1)] http_accounts_get_def) blast
next
  have crates: "crate_contracts C"
    using assms(1) by (simp add: wire_contract_def)
  assume "transaction_row d i = Some t"
  then obtain td where td: "transactions_get C NoFault NoFault i d = Ok td"
    "td_transaction td = transaction_from (decode_transaction t)"
    "list_all2 (represents_entry C) (td_entries td) (sort_key entry_order (entries_of d i))"
    using crate_contracts.transactions_get_spec(2) [OF crates assms(2)] by blast
  obtain ue where ue: "transaction_detail_de S (transaction_detail_ser C S td) = Some ue" "same_detail C ue td"
    using wire_contract.detail_roundtrip [OF assms(1)] crate_contracts.detail_typed [OF crates assms(2,3) td(1)] by auto
  have "list_all2 (represents_entry C) (td_entries ue) (sort_key entry_order (entries_of d i))"
    using list_all2_trans [OF _ _ td(3), of "same_entry C" "represents_entry C" "td_entries ue"] represents_entry_same ue(2)
    by (simp add: same_detail_def) blast
  then show "\<exists>j td. serve C S to_str state rq (get_request (lit ''/transactions/'' @ hyphenated i)) d = ((200, JsonBody j), d) \<and>
      transaction_detail_de S j = Some td \<and> td_transaction td = transaction_from (decode_transaction t) \<and>
      list_all2 (represents_entry C) (td_entries td) (sort_key entry_order (entries_of d i))"
    using ue td(1,2) assms(4,5)
    by (simp add: wire_contract.serve_reads [OF assms(1)] http_transactions_get_def same_detail_def)
qed

theorem reads_over_wire_witness:
  "\<exists>j a. serve ref_crates ref_wire ascii_to_str closed_state sample_rq (get_request (lit ''/accounts/'' @ hyphenated 2))
       sample_ledger = ((200, JsonBody j), sample_ledger) \<and>
     account_de ref_wire j = Some a \<and> dval ref_crates (m_amount (account_balance a)) = 5 / 10 ^ 8"
proof -
  have "typed_db sample_ledger"
    by (rule typed_dbI [OF sample_constraints])
       (simp add: sample_ledger_def sample_account_def iso_code_def ISO_4217_def)
  moreover have "rq_fault sample_rq = NoFault" "rq_fault2 sample_rq = NoFault"
    by (simp_all add: sample_rq_def)
  ultimately show ?thesis
    using reads_over_wire [OF ref_wire.wire_contract_axioms sample_constraints, of sample_rq 2] sample_rows(2)
    by (fastforce simp: represents_def)
qed

end
