(* ===== verification/Property_Tests.thy ===== *)
theory Property_Tests
  imports Unit_Tests
begin

text \<open>
  The property test of \<open>tests/properties.rs\<close>, with what it uses of \<open>tests/common/mod.rs\<close>: a ledger with any
  history gets a funding account and four customers, the customers are funded, a random sequence of
  transfers is executed, the invariants are checked twice, and the transfers that landed are replayed.
  The generator of the test draws at most 23 transfers; \<open>Property_Test_Passes\<close> proves that the test passes
  for every sequence it could draw and for much longer ones.

  A test is a truth value: a failing assertion, an \<open>expect\<close> on an error and a panic make it false. The
  environment of a run is a \<open>test_case\<close>: the fresh identifier of the case, what the clock and the generator
  of identifiers return for each request, and \<open>Decimal::new\<close>.
\<close>

section \<open>The parameters of a run\<close>

record 'd test_case =
  tc_case :: uuid
  tc_env :: "nat \<Rightarrow> request_env"
  tc_calls :: "nat \<Rightarrow> nat \<Rightarrow> attempt"
  tc_decimal_new :: "int \<Rightarrow> nat \<Rightarrow> 'd"

definition ACCOUNTS :: nat where
  "ACCOUNTS = 4"

record test_op =
  op_from :: nat
  op_to :: nat
  op_minor_units :: int

text \<open>What the strategies of the test generate.\<close>

definition op_generated :: "test_op \<Rightarrow> bool" where
  "op_generated p \<longleftrightarrow>
     op_from p < ACCOUNTS \<and> op_to p < ACCOUNTS \<and> 1 \<le> op_minor_units p \<and> op_minor_units p < 20000"

definition openings_generated :: "int list \<Rightarrow> bool" where
  "openings_generated openings \<longleftrightarrow> length openings = ACCOUNTS \<and> list_all (\<lambda>n. 0 \<le> n \<and> n < 50000) openings"

text \<open>\<open>Uuid::simple\<close> and the names and keys of a case.\<close>

definition case_text :: "'d test_case \<Rightarrow> str" where
  "case_text T = hex_digits 32 (unat (tc_case T))"

definition funding_name :: "'d test_case \<Rightarrow> str" where
  "funding_name T = lit ''funding-'' @ case_text T"

definition account_name_of :: "'d test_case \<Rightarrow> nat \<Rightarrow> str" where
  "account_name_of T i = lit ''account-'' @ case_text T @ lit ''-'' @ nat_digits i"

definition open_key :: "'d test_case \<Rightarrow> nat \<Rightarrow> str" where
  "open_key T i = lit ''open-'' @ case_text T @ lit ''-'' @ nat_digits i"

definition op_key :: "'d test_case \<Rightarrow> nat \<Rightarrow> str" where
  "op_key T i = lit ''op-'' @ case_text T @ lit ''-'' @ nat_digits i"

section \<open>Requests\<close>

definition test_money :: "'d crates \<Rightarrow> 'd test_case \<Rightarrow> int \<Rightarrow> 'd money option" where
  "test_money C T minor_units =
     (case and_then usd (money_new C (tc_decimal_new T minor_units 2)) of Ok m \<Rightarrow> Some m | _ \<Rightarrow> None)"

text \<open>\<open>create_account\<close> and \<open>create_funding_account\<close>, for the \<open>k\<close>-th request of the case.\<close>

definition create_account ::
  "'d crates \<Rightarrow> (byte list \<Rightarrow> str option) \<Rightarrow> 'd test_case \<Rightarrow> nat \<Rightarrow> str \<Rightarrow> bool \<Rightarrow> db \<Rightarrow> (uuid \<times> db) option" where
  "create_account C to_str T k name allows d =
     (case usd of
        Ok cur \<Rightarrow>
          (case router C to_str \<lparr>st_allow_funding_account_creation = True\<rparr> (tc_env T k)
                 (PostAccounts (Inr \<lparr>car_name = name, car_currency = cur, car_allows_negative_balance = allows\<rparr>)) d of
             ((st, AccountBody a), d') \<Rightarrow> if st = 201 then Some (account_id a, d') else None
           | _ \<Rightarrow> None)
      | _ \<Rightarrow> None)"

text \<open>Accounts \<open>i\<close> to \<open>i + n - 1\<close>.\<close>

fun create_accounts ::
  "'d crates \<Rightarrow> (byte list \<Rightarrow> str option) \<Rightarrow> 'd test_case \<Rightarrow> nat \<Rightarrow> nat \<Rightarrow> db \<Rightarrow> (uuid list \<times> db) option" where
  "create_accounts C to_str T i 0 d = Some ([], d)"
| "create_accounts C to_str T i (Suc n) d =
     Option.bind (create_account C to_str T (Suc i) (account_name_of T i) False d) (\<lambda>(a, d).
     Option.bind (create_accounts C to_str T (Suc i) n d) (\<lambda>(as, d). Some (a # as, d)))"

definition opening_intent :: "'d money \<Rightarrow> uuid \<Rightarrow> uuid list \<Rightarrow> nat \<Rightarrow> 'd transfer_intent" where
  "opening_intent m funding as i =
     \<lparr>from_account_id = funding, to_account_id = as ! i, intent_amount = m,
      intent_description = lit ''opening balance '' @ nat_digits i\<rparr>"

text \<open>The number of openings that were made, and the ledger.\<close>

fun open_accounts ::
  "'d crates \<Rightarrow> 'd test_case \<Rightarrow> uuid \<Rightarrow> uuid list \<Rightarrow> nat \<Rightarrow> int list \<Rightarrow> db \<Rightarrow> (nat \<times> db) option" where
  "open_accounts C T funding as i [] d = Some (0, d)"
| "open_accounts C T funding as i (n # ns) d =
     (if n = 0 then open_accounts C T funding as (Suc i) ns d
      else if \<not> i < length as then None
      else Option.bind (test_money C T n) (\<lambda>m.
        case execute C (tc_calls T i) (open_key T i) (opening_intent m funding as i) d of
          (Ok _, d) \<Rightarrow> map_option (\<lambda>(k, d). (Suc k, d)) (open_accounts C T funding as (Suc i) ns d)
        | _ \<Rightarrow> None))"

definition op_intent :: "'d money \<Rightarrow> uuid list \<Rightarrow> nat \<Rightarrow> test_op \<Rightarrow> 'd transfer_intent" where
  "op_intent m as i p =
     \<lparr>from_account_id = as ! op_from p, to_account_id = as ! op_to p, intent_amount = m,
      intent_description = lit ''op '' @ nat_digits i\<rparr>"

text \<open>
  \<open>apply\<close>: which operations landed, with the transaction each of them made. The calls of \<open>execute\<close> are
  numbered from the openings on.
\<close>

fun apply_ops ::
  "'d crates \<Rightarrow> 'd test_case \<Rightarrow> uuid list \<Rightarrow> nat \<Rightarrow> test_op list \<Rightarrow> db \<Rightarrow> ((nat \<times> uuid) list \<times> db) option" where
  "apply_ops C T as i [] d = Some ([], d)"
| "apply_ops C T as i (p # ps) d =
     (if \<not> (op_from p < length as \<and> op_to p < length as) then None
      else Option.bind (test_money C T (op_minor_units p)) (\<lambda>m.
        case execute C (tc_calls T (ACCOUNTS + i)) (op_key T i) (op_intent m as i p) d of
          (Ok result, d) \<Rightarrow>
            map_option (\<lambda>(applied, d). ((i, txn_id (td_transaction (res_detail result))) # applied, d))
              (apply_ops C T as (Suc i) ps d)
        | (Err (InsufficientFunds _), d) \<Rightarrow> apply_ops C T as (Suc i) ps d
        | (Err SelfTransfer, d) \<Rightarrow> apply_ops C T as (Suc i) ps d
        | _ \<Rightarrow> None))"

text \<open>The loop that replays what landed; \<open>k\<close> numbers the calls.\<close>

fun replay_ops ::
  "'d crates \<Rightarrow> 'd test_case \<Rightarrow> uuid list \<Rightarrow> test_op list \<Rightarrow> nat \<Rightarrow> (nat \<times> uuid) list \<Rightarrow> db \<Rightarrow> db option" where
  "replay_ops C T as ops k [] d = Some d"
| "replay_ops C T as ops k ((i, t) # applied) d =
     Option.bind (test_money C T (op_minor_units (ops ! i))) (\<lambda>m.
       case execute C (tc_calls T k) (op_key T i) (op_intent m as i (ops ! i)) d of
         (Ok result, d) \<Rightarrow>
           if res_outcome result = Replayed \<and> txn_id (td_transaction (res_detail result)) = t
           then replay_ops C T as ops (Suc k) applied d else None
       | _ \<Rightarrow> None)"

section \<open>Assertions\<close>

definition assert_invariants_hold :: "db \<Rightarrow> bool" where
  "assert_invariants_hold d \<longleftrightarrow>
     unwrap (check_invariants None d) (\<lambda>checks. checks \<noteq> [] \<and> filter (\<lambda>c. \<not> ic_ok c) checks = [])"

definition assert_invariants_independently :: "'d crates \<Rightarrow> uuid list \<Rightarrow> db \<Rightarrow> bool" where
  "assert_invariants_independently C as d \<longleftrightarrow>
     net_of (entries d) = 0 \<and>
     sum_list (map a_balance (accounts d)) = 0 \<and>
     list_all (\<lambda>i. unwrap (accounts_get C NoFault i d) (\<lambda>account.
       let balance = m_amount (account_balance account) in
       d_ge C balance (d_zero C) \<and> d_eq C balance (d_of_numeric C (derived_balance d i)))) as \<and>
     list_all (\<lambda>t. unwrap (transactions_get C NoFault NoFault (t_id t) d) (\<lambda>detail.
       is_balanced C detail = Ok True)) (transactions d)"

definition assert_entries_are_well_formed :: "db \<Rightarrow> bool" where
  "assert_entries_are_well_formed d \<longleftrightarrow>
     filter (\<lambda>t. length (entries_of d t) \<noteq> 2) (entry_transactions d) = [] \<and>
     length (remdups (map e_id (entries d))) = length (entries d)"

section \<open>The test\<close>

definition random_transfer_sequences_preserve_every_invariant ::
  "'d crates \<Rightarrow> (byte list \<Rightarrow> str option) \<Rightarrow> 'd test_case \<Rightarrow> int list \<Rightarrow> test_op list \<Rightarrow> db \<Rightarrow> bool" where
  "random_transfer_sequences_preserve_every_invariant C to_str T openings ops d \<longleftrightarrow>
     (let transactions_at_start = length (transactions d); entries_at_start = length (entries d) in
      unwrap_some (create_account C to_str T 0 (funding_name T) True d) (\<lambda>(funding, d).
      unwrap_some (create_accounts C to_str T 0 ACCOUNTS d) (\<lambda>(as, d).
      unwrap_some (open_accounts C T funding as 0 openings d) (\<lambda>(openings_applied, d).
      unwrap_some (apply_ops C T as 0 ops d) (\<lambda>(applied, d).
        let transactions_now = length (transactions d); entries_now = length (entries d) in
        assert_invariants_hold d \<and>
        assert_invariants_independently C as d \<and>
        int entries_now - int entries_at_start = int ((length applied + openings_applied) * 2) \<and>
        unwrap_some (replay_ops C T as ops (ACCOUNTS + length ops) applied d) (\<lambda>d.
          length (transactions d) = transactions_now \<and>
          length (entries d) = entries_now \<and>
          assert_entries_are_well_formed d \<and>
          transactions_at_start \<le> transactions_now))))))"

end
