(* ===== verification/Conformance.thy ===== *)
theory Conformance
  imports Unit_Tests
begin

text \<open>
  The unit tests of the source pass on the model. Each test is proved for every implementation of the
  contracts; the literals it uses are texts of decimals and UUIDs, so the contracts fix what is read. The
  two tests that expect different hashes also need a hash that does not confuse the payloads compared.
\<close>

section \<open>Tests of the pure code\<close>


lemma unwrap_simps [simp]: "unwrap (Ok x) test = test x" "unwrap_some (Some y) check = check y"
  by (simp_all add: unwrap_def unwrap_some_def)

lemma redaction_tests:
  "passwords_are_redacted_from_connection_strings" "a_password_containing_an_at_sign_is_fully_redacted"
  "an_at_sign_in_the_path_does_not_confuse_the_parser"
  by code_simp+

lemma validation_tests:
  "a_request_timeout_below_the_acquire_timeout_is_rejected addr"
  "a_statement_timeout_below_the_lock_timeout_is_rejected addr"
  "pool_bounds_must_be_coherent addr" "the_defaults_are_self_consistent addr"
  by (simp_all add: a_request_timeout_below_the_acquire_timeout_is_rejected_def
      a_statement_timeout_below_the_lock_timeout_is_rejected_def pool_bounds_must_be_coherent_def
      the_defaults_are_self_consistent_def base_config_def pool_config_default_def validate_def)

lemma table_test: "iso_4217_table_is_sorted_for_binary_search"
proof -
  have asc: "sorted_wrt (<) (map utf8 ISO_4217)"
    using ISO_4217_ascending by (simp add: successively_conv_sorted_wrt)
  then have "sorted (map utf8 ISO_4217)" "distinct (map utf8 ISO_4217)"
    by (simp_all add: strict_sorted_iff)
  then show ?thesis
    by (simp add: iso_4217_table_is_sorted_for_binary_search_def sort_key_id_if_sorted distinct_map remdups_adj_distinct)
qed

lemma currency_lit: "currency_try_from (lit s) =
    (if lit s \<in> set ISO_4217 then Ok (Currency (lit s)) else Err (UnknownCurrency (lit s)))"
  by (rule currency_try_from_eq) (auto simp: list_all_iff is_scalar_def dest: lit_bound)

lemma usd_eur: "usd = Ok (Currency (lit ''USD''))" "eur = Ok (Currency (lit ''EUR''))"
  by (simp_all add: usd_def eur_def currency_lit ISO_4217_def)

lemma currency_test: "unknown_currency_is_rejected"
  by (simp add: unknown_currency_is_rejected_def currency_lit ISO_4217_def)

lemma frac_digits_numeral: "frac_digits (numeral w) n = frac_digits (pred_numeral w) (n div 10) @ [48 + n mod 10]"
  by (metis frac_digits.simps(2) numeral_eq_Suc)

lemma hex_digits_0: "hex_digits k 0 = replicate k 48"
  by (induction k) (simp_all add: replicate_append_same)

lemma uuid_literals:
  "lit ''00000000-0000-0000-0000-000000000001'' = hyphenated 1"
  "lit ''00000000-0000-0000-0000-000000000002'' = hyphenated 2"
proof -
  have "hex_digits 32 1 = replicate 31 48 @ [49]" "hex_digits 32 2 = replicate 31 48 @ [50]"
    using hex_digits.simps(2) [of 31 1] hex_digits.simps(2) [of 31 2] by (simp_all add: hex_digits_0)
  then have "hyphenated 1 = replicate 8 48 @ 45 # replicate 4 48 @ 45 # replicate 4 48 @ 45 # replicate 4 48 @ 45 # replicate 11 48 @ [49]"
    "hyphenated 2 = replicate 8 48 @ 45 # replicate 4 48 @ 45 # replicate 4 48 @ 45 # replicate 4 48 @ 45 # replicate 11 48 @ [50]"
    by (simp_all add: hyphenated_def Let_def)
  moreover have "replicate 4 (x :: nat) = [x, x, x, x]" "replicate 8 x = [x, x, x, x, x, x, x, x]"
    "replicate 11 x = [x, x, x, x, x, x, x, x, x, x, x]" for x
    by (simp_all add: numeral_eq_Suc)
  ultimately show "lit ''00000000-0000-0000-0000-000000000001'' = hyphenated 1"
    "lit ''00000000-0000-0000-0000-000000000002'' = hyphenated 2"
    by (simp_all add: lit_def)
qed

lemma literals:
  "lit ''10'' = rd_to_string (RDec 10 0)" "lit ''9'' = rd_to_string (RDec 9 0)"
  "lit ''10.00'' = rd_to_string (RDec 1000 2)" "lit ''10.01'' = rd_to_string (RDec 1001 2)"
  "lit ''10.25'' = rd_to_string (RDec 1025 2)" "lit ''1.5'' = rd_to_string (RDec 15 1)"
  "lit ''1.5000000000'' = rd_to_string (RDec 15000000000 10)" "lit ''0.000000001'' = rd_to_string (RDec 1 9)"
  "lit ''1000000000000'' = rd_to_string (RDec 1000000000000 0)"
  "lit ''999999999999.99999999'' = rd_to_string (RDec 99999999999999999999 8)"
  by (simp_all add: rd_to_string_def lit_def nat_digits.simps frac_digits_numeral)

lemma tenth_not_int: "(1 :: rat) / 10 \<notin> \<int>"
proof
  assume "(1 :: rat) / 10 \<in> \<int>"
  then obtain k where "(1 :: rat) / 10 = of_int k"
    by (auto elim: Ints_cases)
  then have "(1 :: rat) = of_int (10 * k)"
    by simp
  then have "1 = 10 * k"
    using of_int_eq_1_iff by metis
  then show False
    by presburger
qed

context wire_contract
begin

lemma from_literal:
  assumes "lit s = rd_to_string (RDec m k)" and "\<bar>m\<bar> < 2 ^ 96" and "k \<le> 28"
  obtains a where "dec_from_str S (lit s) = Some a" "d_mantissa C a = m" "d_scale C a = k" "dval C a = of_int m / 10 ^ k"
  using from_str_plain [OF assms(2,3)] unfolding assms(1) [symmetric] by (auto simp: dval_def)

lemma fine_test: "amount_finer_than_storage_precision_is_rejected C S"
proof -
  obtain a where a: "dec_from_str S (lit ''0.000000001'') = Some a" "dval C a = of_int 1 / 10 ^ 9"
    by (rule from_literal [OF literals(8)]) simp_all
  have "dval C a * 10 ^ 8 = 1 / 10"
    unfolding a(2) by simp
  then have "dval C a * 10 ^ 8 \<notin> \<int>"
    using tenth_not_int by (metis (no_types))
  with a(1) show ?thesis
    by (simp add: amount_finer_than_storage_precision_is_rejected_def usd_eur money_new_spec)
qed

lemma padded_test: "trailing_zeros_beyond_precision_are_normalized_not_rejected C S"
proof -
  obtain a where a: "dec_from_str S (lit ''1.5000000000'') = Some a" "dval C a = of_int 15000000000 / 10 ^ 10"
    by (rule from_literal [OF literals(7)]) simp_all
  obtain b where b: "dec_from_str S (lit ''1.5'') = Some b" "dval C b = of_int 15 / 10 ^ 1"
    by (rule from_literal [OF literals(6)]) simp_all
  have "storable (dval C a)"
    by (simp add: a storable_def)
  then obtain m where m: "money_new C a (Currency (lit ''USD'')) = Ok m"
    using money_new_Ok_iff by blast
  then show ?thesis
    using a b money_new_OkD(1) [OF m]
    by (simp add: trailing_zeros_beyond_precision_are_normalized_not_rejected_def usd_eur eq_val)
qed

lemma magnitude_test: "magnitude_beyond_storage_range_is_rejected C S"
proof -
  obtain a where a: "dec_from_str S (lit ''1000000000000'') = Some a" "dval C a = of_int 1000000000000 / 10 ^ 0"
    by (rule from_literal [OF literals(9)]) simp_all
  obtain b where b: "dec_from_str S (lit ''999999999999.99999999'') = Some b"
    "d_scale C b = 8" "dval C b = of_int 99999999999999999999 / 10 ^ 8"
    by (rule from_literal [OF literals(10)]) simp_all
  then have "dval C b * 10 ^ 8 \<in> \<int>"
    using val_multiple [of b 8] by simp
  then show ?thesis
    using a b by (simp add: magnitude_beyond_storage_range_is_rejected_def usd_eur money_new_spec)
qed

lemma cross_currency_test: "cross_currency_arithmetic_is_an_error_not_a_number C"
proof -
  have "storable (dval C (d_from_i64 C 10))"
    by (simp add: from_i64_val storable_def)
  then obtain a b where ab: "money_new C (d_from_i64 C 10) (Currency (lit ''USD'')) = Ok a"
    "money_new C (d_from_i64 C 10) (Currency (lit ''EUR'')) = Ok b"
    using money_new_Ok_iff by blast
  then have "m_currency a = Currency (lit ''USD'')" "m_currency b = Currency (lit ''EUR'')"
    using money_new_OkD(2) by blast+
  with ab show ?thesis
    by (simp add: cross_currency_arithmetic_is_an_error_not_a_number_def usd_eur checked_add_def checked_lt_def
        require_same_currency_def)
qed

text \<open>A literal of scale at most eight below the bound is an amount as it stands.\<close>

lemma literal_money:
  assumes "lit s = rd_to_string (RDec m k)" and "\<bar>m\<bar> < 10 ^ 12" and "k \<le> 8"
  obtains a where "dec_from_str S (lit s) = Some a" "d_mantissa C a = m" "d_scale C a = k" "dval C a = of_int m / 10 ^ k"
    "money_new C a c = Ok \<lparr>m_amount = a, m_currency = c\<rparr>" "money_ok C \<lparr>m_amount = a, m_currency = c\<rparr>"
proof -
  obtain a where a: "dec_from_str S (lit s) = Some a" "d_mantissa C a = m" "d_scale C a = k" "dval C a = of_int m / 10 ^ k"
    by (rule from_literal [OF assms(1)]) (use assms(2,3) in simp_all)
  have "\<bar>dval C a\<bar> \<le> of_int \<bar>m\<bar>"
    by (simp add: a abs_divide divide_le_eq mult_le_cancel_left1)
  also have "\<dots> < of_int (10 ^ 12)"
    using assms(2) of_int_less_iff by blast
  finally have ok: "money_ok C \<lparr>m_amount = a, m_currency = c\<rparr>"
    using a(3) assms(3) by (simp add: money_ok_def MAX_SCALE_def)
  show thesis
    using that [OF a _ ok] money_ok_new [OF ok] by simp
qed

lemma canonical_test: "canonical_form_ignores_trailing_zeros C S"
proof -
  let ?usd = "Currency (lit ''USD'')"
  obtain a where a: "dec_from_str S (lit ''10'') = Some a" "dval C a = of_int 10 / 10 ^ 0"
    "money_new C a ?usd = Ok \<lparr>m_amount = a, m_currency = ?usd\<rparr>"
    by (rule literal_money [OF literals(1), where c = ?usd]) simp_all
  obtain b where b: "dec_from_str S (lit ''10.00'') = Some b" "dval C b = of_int 1000 / 10 ^ 2"
    "money_new C b ?usd = Ok \<lparr>m_amount = b, m_currency = ?usd\<rparr>"
    by (rule literal_money [OF literals(3), where c = ?usd]) simp_all
  show ?thesis
    using a b by (simp add: canonical_form_ignores_trailing_zeros_def usd_eur canonical_eq_iff)
qed

lemma serialize_test: "amount_serializes_as_a_string_never_a_json_number C S"
proof -
  let ?usd = "Currency (lit ''USD'')"
  obtain a where a: "dec_from_str S (lit ''10.25'') = Some a" "d_mantissa C a = 1025" "d_scale C a = 2"
    "money_new C a ?usd = Ok \<lparr>m_amount = a, m_currency = ?usd\<rparr>"
    by (rule literal_money [OF literals(5), where c = ?usd]) simp_all
  then have "d_to_string C a = lit ''10.25''"
    using show_decimal [of a] literals(5) by simp
  with a show ?thesis
    by (simp add: amount_serializes_as_a_string_never_a_json_number_def usd_eur money_ser_def currency_to_string_def)
qed

text \<open>The requests of the tests: what \<open>intent\<close> returns for a literal amount.\<close>

lemma literal_intent:
  assumes "lit s = rd_to_string (RDec m k)" and "\<bar>m\<bar> < 10 ^ 12" and "k \<le> 8"
  obtains i where "\<And>descr. intent C S s descr = Some (i\<lparr>intent_description := lit descr\<rparr>)"
    "from_account_id i = 1" "to_account_id i = 2" "dval C (m_amount (intent_amount i)) = of_int m / 10 ^ k"
    "m_currency (intent_amount i) = Currency (lit ''USD'')" "money_ok C (intent_amount i)"
proof -
  let ?usd = "Currency (lit ''USD'')"
  obtain a where a: "dec_from_str S (lit s) = Some a" "dval C a = of_int m / 10 ^ k"
    "money_new C a ?usd = Ok \<lparr>m_amount = a, m_currency = ?usd\<rparr>" "money_ok C \<lparr>m_amount = a, m_currency = ?usd\<rparr>"
    by (rule literal_money [OF assms, where c = ?usd])
  show thesis
    by (rule that [of "\<lparr>from_account_id = 1, to_account_id = 2,
          intent_amount = \<lparr>m_amount = a, m_currency = ?usd\<rparr>, intent_description = []\<rparr>"])
      (simp_all add: intent_def a usd_eur)
qed

lemma stable_hash_test: "request_hash_is_stable_across_equivalent_amount_spellings C S"
proof -
  obtain i where i: "\<And>descr. intent C S ''10'' descr = Some (i\<lparr>intent_description := lit descr\<rparr>)"
    "from_account_id i = 1" "to_account_id i = 2" "dval C (m_amount (intent_amount i)) = of_int 10 / 10 ^ 0"
    "m_currency (intent_amount i) = Currency (lit ''USD'')"
    by (rule literal_intent [OF literals(1)]) simp_all
  obtain j where j: "\<And>descr. intent C S ''10.00'' descr = Some (j\<lparr>intent_description := lit descr\<rparr>)"
    "from_account_id j = 1" "to_account_id j = 2" "dval C (m_amount (intent_amount j)) = of_int 1000 / 10 ^ 2"
    "m_currency (intent_amount j) = Currency (lit ''USD'')"
    by (rule literal_intent [OF literals(3)]) simp_all
  have "canonical C (intent_amount i) = canonical C (intent_amount j)"
    using i j by (simp add: canonical_eq_iff)
  then show ?thesis
    using i j by (simp add: request_hash_is_stable_across_equivalent_amount_spellings_def request_hash_def request_payload_def)
qed

text \<open>Among requests whose encodings the hash keeps apart, equal fingerprints mean the same request.\<close>

lemma hash_eq_iff:
  assumes "inj_on (sha256 C) (request_payload C ` I)" and "i \<in> I" and "j \<in> I"
    and "well_formed_intent C i" and "well_formed_intent C j"
  shows "request_hash C i = request_hash C j \<longleftrightarrow> same_request C i j"
  using assms request_payload_eq_iff by (metis imageI inj_on_eq_iff request_hash_def)

lemma changed_hash_tests:
  assumes inj: "inj_on (sha256 C) (request_payload C ` set (hashed_intents C S))"
  shows "request_hash_changes_with_any_field C S"
    and "field_tags_prevent_boundary_confusion_between_adjacent_fields C S"
proof -
  obtain i where i: "\<And>descr. intent C S ''10'' descr = Some (i\<lparr>intent_description := lit descr\<rparr>)"
    "from_account_id i = 1" "to_account_id i = 2" "dval C (m_amount (intent_amount i)) = of_int 10 / 10 ^ 0"
    "m_currency (intent_amount i) = Currency (lit ''USD'')" "money_ok C (intent_amount i)"
    by (rule literal_intent [OF literals(1)]) simp_all
  obtain j where j: "\<And>descr. intent C S ''10.01'' descr = Some (j\<lparr>intent_description := lit descr\<rparr>)"
    "dval C (m_amount (intent_amount j)) = of_int 1001 / 10 ^ 2"
    "m_currency (intent_amount j) = Currency (lit ''USD'')" "money_ok C (intent_amount j)"
    by (rule literal_intent [OF literals(4)]) simp_all
  have usd: "lit ''USD'' \<in> set ISO_4217"
    by (simp add: ISO_4217_def)
  have valid: "valid_str (lit descr)" for descr
    by (auto simp: list_all_iff is_scalar_def dest: lit_bound)
  have wf: "well_formed_intent C x" if "x \<in> set (hashed_intents C S)" for x
    using that by (auto simp: hashed_intents_def map_filter_simps well_formed_intent_def i j usd valid)
  note eq = hash_eq_iff [OF inj _ _ wf wf]
  show "request_hash_changes_with_any_field C S"
    by (simp add: request_hash_changes_with_any_field_def i j eq hashed_intents_def map_filter_simps same_request_def)
  let ?abc = "lit ''abc''" and ?split = "lit (''ab'' @ newline @ ''description=c'')"
  have "i\<lparr>intent_description := ?abc\<rparr> \<in> set (hashed_intents C S)"
    "i\<lparr>intent_description := ?split\<rparr> \<in> set (hashed_intents C S)"
    by (simp_all add: hashed_intents_def map_filter_simps i j)
  moreover have "?abc \<noteq> ?split"
    by (simp add: lit_def newline_def)
  ultimately show "field_tags_prevent_boundary_confusion_between_adjacent_fields C S"
    using eq by (simp add: field_tags_prevent_boundary_confusion_between_adjacent_fields_def i same_request_def)
qed

lemma literal_entry:
  assumes "lit s = rd_to_string (RDec m k)" and "\<bar>m\<bar> < 10 ^ 12" and "k \<le> 8"
  obtains e where "test_entry C S ids now n dir s = Some e" "entry_direction e = dir" "money_ok C (entry_amount e)"
    "dval C (m_amount (entry_amount e)) = of_int m / 10 ^ k" "m_currency (entry_amount e) = Currency (lit ''USD'')"
proof -
  let ?usd = "Currency (lit ''USD'')"
  obtain a where "dec_from_str S (lit s) = Some a" "dval C a = of_int m / 10 ^ k"
    "money_new C a ?usd = Ok \<lparr>m_amount = a, m_currency = ?usd\<rparr>" "money_ok C \<lparr>m_amount = a, m_currency = ?usd\<rparr>"
    by (rule literal_money [OF assms, where c = ?usd])
  then show thesis
    using that by (simp add: test_entry_def usd_eur)
qed

lemma balanced_test: "balanced_detects_unbalanced_postings C S ids now"
proof -
  have ten: "\<exists>e. test_entry C S ids now n dir ''10'' = Some e \<and> entry_direction e = dir \<and> money_ok C (entry_amount e) \<and>
      dval C (m_amount (entry_amount e)) = 10 \<and> m_currency (entry_amount e) = Currency (lit ''USD'')" for n dir
    by (rule literal_entry [OF literals(1), of ids now n dir]) auto
  obtain e1 e2 e3 e5 where e: "test_entry C S ids now 1 Debit ''10'' = Some e1" "test_entry C S ids now 2 Credit ''10'' = Some e2"
    "test_entry C S ids now 3 Debit ''10'' = Some e3" "test_entry C S ids now 5 Debit ''10'' = Some e5"
    and tens: "\<forall>e \<in> {e1, e2, e3, e5}. money_ok C (entry_amount e) \<and> dval C (m_amount (entry_amount e)) = 10 \<and>
      m_currency (entry_amount e) = Currency (lit ''USD'')"
    and dirs: "entry_direction e1 = Debit" "entry_direction e2 = Credit" "entry_direction e3 = Debit"
      "entry_direction e5 = Debit"
    using ten [of 1 Debit] ten [of 2 Credit] ten [of 3 Debit] ten [of 5 Debit] by auto
  obtain e4 where e4: "test_entry C S ids now 4 Credit ''9'' = Some e4" "entry_direction e4 = Credit"
    "money_ok C (entry_amount e4)" "dval C (m_amount (entry_amount e4)) = of_int 9 / 10 ^ 0"
    "m_currency (entry_amount e4) = Currency (lit ''USD'')"
    by (rule literal_entry [OF literals(2), of ids now 4 Credit]) simp_all
  have spec: "is_balanced C \<lparr>td_transaction = t, td_entries = es\<rparr> = Ok (balanced_entries C es)"
    if "\<forall>e \<in> set es. money_ok C (entry_amount e)" "length es \<le> 2" for t es
    using that is_balanced_spec [of "\<lparr>td_transaction = t, td_entries = es\<rparr>"] by simp
  show ?thesis
    using tens dirs e4
    by (simp add: balanced_detects_unbalanced_postings_def e [simplified] e4(1) spec balanced_entries_def entry_value_def)
qed

lemma json_amount_test: "amount_must_be_a_json_string_not_a_number C S"
proof -
  obtain a where a: "dec_from_str S (lit ''10.25'') = Some a" "d_mantissa C a = 1025" "d_scale C a = 2"
    by (rule from_literal [OF literals(5)]) simp_all
  have number: "dec_de S (JNum (lit ''10.25'')) = None"
    using dec_de_only [of "JNum (lit ''10.25'')"] by (cases "dec_de S (JNum (lit ''10.25''))") auto
  have "currency_de (JStr (lit ''USD'')) = Some (Currency (lit ''USD''))"
    using usd_eur(1) by (simp add: currency_de_def usd_def)
  moreover have "d_to_string C a = lit ''10.25''"
    using show_decimal [of a] a literals(5) by simp
  ultimately show ?thesis
    using a number
    by (simp add: amount_must_be_a_json_string_not_a_number_def request_json_def transfer_request_de_def wire_simps
        field_defs uuid_literals uuid_de_str dec_de_str)
qed

end


context header_contract
begin

lemma blank_key_test: "missing_or_blank_idempotency_key_is_rejected to_str"
proof -
  have "to_str (bstr ''   '') = Some [32, 32, 32]"
    by (simp add: to_str_iff bstr_def)
  then show ?thesis
    by (simp add: missing_or_blank_idempotency_key_is_rejected_def extract_idempotency_key_def trim_def is_whitespace_def)
qed

lemma trimmed_key_test: "idempotency_key_is_trimmed_and_length_bounded to_str"
proof -
  let ?long = "replicate (MAX_IDEMPOTENCY_KEY_LEN + 1) (CHR ''k'')"
  have "to_str (bstr ''  abc  '') = Some (map unat (bstr ''  abc  ''))"
    by (simp add: to_str_iff bstr_def)
  moreover have "trim (map unat (bstr ''  abc  '')) = lit ''abc''"
    by (simp add: trim_def is_whitespace_def bstr_def lit_def)
  moreover have "length (utf8 (lit ''abc'')) \<le> MAX_IDEMPOTENCY_KEY_LEN"
    using utf8_ascii_length [of "lit ''abc''"] by (simp add: lit_def MAX_IDEMPOTENCY_KEY_LEN_def)
  ultimately have "extract_idempotency_key to_str [(''idempotency-key'', bstr ''  abc  '')] = Ok (lit ''abc'')"
    by (simp add: extract_idempotency_key_def lit_def)
  moreover have "to_str (bstr ?long) = Some (replicate (MAX_IDEMPOTENCY_KEY_LEN + 1) 107)"
    by (simp add: to_str_iff bstr_def)
  moreover have "trim (replicate (Suc n) 107) = replicate (Suc n) 107" for n
    by (simp add: trim_def is_whitespace_def replicate_append_same)
  moreover have "length (utf8 (replicate n 107)) = n" for n
    using utf8_ascii_length [of "replicate n 107"] by simp
  ultimately show ?thesis
    by (simp add: idempotency_key_is_trimmed_and_length_bounded_def extract_idempotency_key_def del: replicate_Suc)
qed

end


section \<open>The reference hash\<close>

lemma ref_intents:
  "hashed_intents ref_crates ref_wire =
     (let i = (\<lambda>from to m k descr. \<lparr>from_account_id = from, to_account_id = to,
            intent_amount = \<lparr>m_amount = RDec m k, m_currency = Currency (lit ''USD'')\<rparr>, intent_description = lit descr\<rparr>) in
      [i 1 2 10 0 ''rent'', i 1 2 1001 2 ''rent'', i 1 2 10 0 ''rent '', i 2 1 10 0 ''rent'', i 1 2 10 0 ''abc'',
       i 1 2 10 0 (''ab'' @ newline @ ''description=c'')])"
proof -
  have parsed: "rd_parse (lit ''10'') = Some (RDec 10 0)" "rd_parse (lit ''10.01'') = Some (RDec 1001 2)"
    by (simp_all only: literals rd_parse_shown)
  have new: "money_new ref_crates (RDec 10 0) c = Ok \<lparr>m_amount = RDec 10 0, m_currency = c\<rparr>"
    "money_new ref_crates (RDec 1001 2) c = Ok \<lparr>m_amount = RDec 1001 2, m_currency = c\<rparr>" for c
    using ref.money_ok_new [of "\<lparr>m_amount = RDec 10 0, m_currency = c\<rparr>"]
      ref.money_ok_new [of "\<lparr>m_amount = RDec 1001 2, m_currency = c\<rparr>"]
    by (simp_all add: money_ok_def dval_ref MAX_SCALE_def)
  show ?thesis
    by (simp add: hashed_intents_def intent_def map_filter_simps parsed new usd_eur)
qed

lemma be12: "be_bytes 1 = [0,0,0,0,0,0,0,0,0,0,0,0,0,0,0,1]" "be_bytes 2 = [0,0,0,0,0,0,0,0,0,0,0,0,0,0,0,2]"
  by code_simp+

text \<open>
  The reference hash keeps the compared requests apart already in its last two bytes.
\<close>

definition mix16 :: "byte list \<Rightarrow> 16 word" where
  "mix16 bs = foldl (\<lambda>h b. h * 257 + ucast b + 1) 0 bs"

lemma mix_bytes_16: "of_nat (mix_bytes bs) = mix16 bs"
proof (induction bs rule: rev_induct)
  case (snoc b bs)
  have wrap: "(of_nat (n mod 2 ^ 256) :: 16 word) = of_nat n" for n
  proof -
    have "n mod 2 ^ 256 mod 2 ^ 16 = n mod (2 :: nat) ^ 16"
      by (rule mod_mod_cancel) (simp add: le_imp_power_dvd)
    then show ?thesis
      by (simp add: word_of_nat_eq_iff take_bit_eq_mod)
  qed
  have "(of_nat (mix_bytes (bs @ [b])) :: 16 word) = of_nat (mix_bytes bs * 257 + unat b + 1)"
    by (simp only: mix_bytes_def foldl_append foldl.simps wrap)
  then show ?case
    using snoc by (simp add: mix16_def)
qed (simp add: mix_bytes_def mix16_def)

lemma mix256_eqD:
  assumes "mix256 xs = mix256 ys"
  shows "mix16 xs = mix16 ys"
proof -
  have "(of_nat (mix_bytes xs div 256 ^ i) :: byte) = of_nat (mix_bytes ys div 256 ^ i)" if "i < 32" for i
    using assms that by (simp add: mix256_def Let_def)
  from this [of 0] this [of 1] have "mix_bytes xs mod 256 = mix_bytes ys mod 256"
    "mix_bytes xs div 256 mod 256 = mix_bytes ys div 256 mod 256"
    by (simp_all add: word_of_nat_eq_iff take_bit_eq_mod)
  then have "mix_bytes xs mod (256 * 256) = mix_bytes ys mod (256 * 256)"
    by (simp only: mod_mult2_eq)
  then have "(of_nat (mix_bytes xs) :: 16 word) = of_nat (mix_bytes ys)"
    by (simp add: word_of_nat_eq_iff take_bit_eq_mod)
  then show ?thesis
    by (simp add: mix_bytes_16)
qed



lemma mix16_append: "mix16 (xs @ ys) = foldl (\<lambda>h b. h * 257 + ucast b + 1) (mix16 xs) ys"
  by (simp add: mix16_def)

text \<open>The encoding up to the amount, for the two orders of the accounts.\<close>

lemma mix16_prefix:
  "mix16 (bstr (''ledger-rs/transfer/v1'' @ newline) @ bstr ''from='' @ be_bytes 1 @ bstr (newline @ ''to='') @ be_bytes 2 @
     bstr (newline @ ''amount='')) = 8249"
  "mix16 (bstr (''ledger-rs/transfer/v1'' @ newline) @ bstr ''from='' @ be_bytes 2 @ bstr (newline @ ''to='') @ be_bytes 1 @
     bstr (newline @ ''amount='')) = 13369"
  by (simp_all add: mix16_def be12 bstr_def newline_def)


lemma usd_bytes:
  "utf8 (canonical ref_crates \<lparr>m_amount = RDec 10 0, m_currency = Currency (lit ''USD'')\<rparr>) = bstr ''10 USD''"
  "utf8 (canonical ref_crates \<lparr>m_amount = RDec 1001 2, m_currency = Currency (lit ''USD'')\<rparr>) = bstr ''10.01 USD''"
  by (simp_all add: canonical_def rd_normalize_def numeral_2_eq_2 currency_to_string_def rd_to_string_def lit_def
      nat_digits.simps frac_digits_numeral utf8_def utf8_nats_def bstr_def)

lemma kept_apart:
  "inj_on (sha256 ref_crates) (request_payload ref_crates ` set (hashed_intents ref_crates ref_wire))"
proof -
  let ?to = "bstr (newline @ ''to='')" and ?amount = "bstr (newline @ ''amount='')"
  have mixed: "mix16 (request_payload ref_crates i) =
      foldl (\<lambda>h b. h * 257 + ucast b + 1) (mix16 (bstr (''ledger-rs/transfer/v1'' @ newline) @ bstr ''from='' @
        be_bytes (from_account_id i) @ ?to @ be_bytes (to_account_id i) @ ?amount))
      (utf8 (canonical ref_crates (intent_amount i)) @ bstr (newline @ ''description='') @ utf8 (intent_description i) @ bstr newline)" for i
    by (simp add: request_payload_def flip: mix16_append)
  have descr: "utf8 (lit ''rent'') = bstr ''rent''" "utf8 (lit ''rent '') = bstr ''rent ''" "utf8 (lit ''abc'') = bstr ''abc''"
    "utf8 (lit (''ab'' @ newline @ ''description=c'')) = bstr (''ab'' @ newline @ ''description=c'')"
    by (simp_all add: utf8_def utf8_nats_def bstr_def lit_def newline_def)
  have "map (mix16 \<circ> request_payload ref_crates) (hashed_intents ref_crates ref_wire) = [8812, 4606, 42125, 13932, 31960, 2256]"
    by (simp only: ref_intents Let_def list.map comp_apply mixed transfer_intent.simps mix16_prefix usd_bytes descr)
      (simp add: bstr_def newline_def)
  then have "distinct (map (mix16 \<circ> request_payload ref_crates) (hashed_intents ref_crates ref_wire))"
    by simp
  then have "inj_on mix16 (request_payload ref_crates ` set (hashed_intents ref_crates ref_wire))"
    unfolding distinct_map by (blast intro: inj_on_imageI)
  then show ?thesis
    using mix256_eqD unfolding inj_on_def ref_crates_simps by blast
qed

section \<open>Properties\<close>

text \<open>
  All twenty-two unit tests of the source pass on the model, for every decimal type, JSON library and
  header map that meet their contracts, as long as the hash does not confuse the requests that the
  tests compare.
\<close>

lemma unit_tests_pass:
  assumes "wire_contract C S" and "header_contract to_str"
    and "inj_on (sha256 C) (request_payload C ` set (hashed_intents C S))"
  shows "list_all (\<lambda>test. test) (unit_tests C S to_str addr ids now)"
proof -
  note money_tests = wire_contract.fine_test wire_contract.padded_test wire_contract.magnitude_test
    wire_contract.cross_currency_test wire_contract.canonical_test wire_contract.serialize_test
  note domain_tests = wire_contract.stable_hash_test wire_contract.balanced_test wire_contract.json_amount_test
  note key_tests = header_contract.blank_key_test header_contract.trimmed_key_test
  show ?thesis
    by (simp add: unit_tests_def redaction_tests validation_tests table_test currency_test
        money_tests [OF assms(1)] domain_tests [OF assms(1)] key_tests [OF assms(2)]
        wire_contract.changed_hash_tests [OF assms(1,3)])
qed

lemma unit_tests_pass_example:
  "list_all (\<lambda>test. test) (unit_tests ref_crates ref_wire ascii_to_str (0 :: nat) of_nat int)"
  by (rule unit_tests_pass [OF ref_wire.wire_contract_axioms ascii.header_contract_axioms kept_apart])

end
