(* ===== verification/Property_Test_Passes.thy ===== *)
theory Property_Test_Passes
  imports Property_Tests Conformance
begin

text \<open>
  The property test passes for every sequence of transfers. The invariant \<open>case_inv\<close> says where the test is
  after \<open>k\<close> calls of \<open>execute\<close>: the ledger is in order, the calls to come have unused identifiers and keys, the
  accounts of the case are open, and no balance has moved further than \<open>k\<close> transfers can move it, so that
  none can overflow its column.
\<close>

section \<open>Where the test is\<close>

definition call_key :: "'d test_case \<Rightarrow> nat \<Rightarrow> str" where
  "call_key T j = (if j < ACCOUNTS then open_key T j else op_key T (j - ACCOUNTS))"

definition entry_ids_of :: "attempt \<Rightarrow> uuid set" where
  "entry_ids_of ev = {at_credit_id ev, at_debit_id ev}"

text \<open>The identifiers of the first \<open>n\<close> calls are pairwise different, and their transaction ids ascend.\<close>

definition calls_apart :: "'d test_case \<Rightarrow> nat \<Rightarrow> bool" where
  "calls_apart T n \<longleftrightarrow> (\<forall>j < n. \<forall>i < j.
     at_txn_id (tc_calls T i 0) \<noteq> at_txn_id (tc_calls T j 0) \<and> at_xid (tc_calls T i 0) < at_xid (tc_calls T j 0) \<and>
     entry_ids_of (tc_calls T i 0) \<inter> entry_ids_of (tc_calls T j 0) = {})"

definition undisturbed :: "attempt \<Rightarrow> bool" where
  "undisturbed ev \<longleftrightarrow> no_fault ev \<and> (\<forall>d. at_race ev d = d)"

text \<open>A call that can create its transaction in \<open>d\<close>.\<close>

definition usable_call :: "'d test_case \<Rightarrow> nat \<Rightarrow> db \<Rightarrow> bool" where
  "usable_call T j d \<longleftrightarrow> undisturbed (tc_calls T j 0) \<and>
     transaction_row d (at_txn_id (tc_calls T j 0)) = None \<and> fresh_entry_ids (tc_calls T j 0) d \<and>
     key_row d (call_key T j) = None"

definition usd_account :: "db \<Rightarrow> bool \<Rightarrow> uuid \<Rightarrow> bool" where
  "usd_account d allows i \<longleftrightarrow>
     (\<exists>r. account_row d i = Some r \<and> a_currency r = lit ''USD'' \<and> a_allows_negative_balance r = allows)"

definition pairs_of_entries :: "db \<Rightarrow> bool" where
  "pairs_of_entries d \<longleftrightarrow> (\<forall>e \<in> set (entries d). length (entries_of d (e_transaction_id e)) = 2)"

definition most_units :: int where
  "most_units = 50000 * 10 ^ 6"

definition case_inv :: "'d test_case \<Rightarrow> nat \<Rightarrow> uuid \<Rightarrow> uuid list \<Rightarrow> nat \<Rightarrow> db \<Rightarrow> bool" where
  "case_inv T n funding as k d \<longleftrightarrow>
     (\<exists>x. ledger_inv x d \<and> (\<forall>j. k \<le> j \<and> j < n \<longrightarrow> x \<le> at_xid (tc_calls T j 0))) \<and>
     pairs_of_entries d \<and> (\<forall>j. k \<le> j \<and> j < n \<longrightarrow> usable_call T j d) \<and>
     usd_account d True funding \<and> (\<forall>a \<in> set as. usd_account d False a) \<and>
     (\<forall>a \<in> insert funding (set as). \<bar>balance_of d a\<bar> \<le> int k * most_units)"

text \<open>A transfer the test makes.\<close>

definition case_transfer :: "'d crates \<Rightarrow> uuid \<Rightarrow> uuid list \<Rightarrow> 'd transfer_intent \<Rightarrow> bool" where
  "case_transfer C funding as req \<longleftrightarrow>
     money_ok C (intent_amount req) \<and> m_currency (intent_amount req) = Currency (lit ''USD'') \<and>
     0 < intent_units C req \<and> intent_units C req \<le> most_units \<and> text_ok (intent_description req) \<and>
     from_account_id req \<in> insert funding (set as) \<and> to_account_id req \<in> set as"

text \<open>\<open>Decimal::new\<close>.\<close>

definition decimal_new_ok :: "'d crates \<Rightarrow> 'd test_case \<Rightarrow> bool" where
  "decimal_new_ok D T \<longleftrightarrow> (\<forall>n k. \<bar>n\<bar> < 2 ^ 63 \<and> k \<le> 28 \<longrightarrow>
     d_mantissa D (tc_decimal_new T n k) = n \<and> d_scale D (tc_decimal_new T n k) = k)"

lemma case_inv_skip: "case_inv T n funding as k d \<Longrightarrow> case_inv T n funding as (Suc k) d"
proof -
  assume inv: "case_inv T n funding as k d"
  have "int k * most_units \<le> int (Suc k) * most_units"
    by (simp add: most_units_def)
  then show ?thesis
    using inv unfolding case_inv_def by (meson Suc_leD order_trans)
qed

section \<open>Keys\<close>

lemma nat_digits_inject [simp]: "nat_digits i = nat_digits j \<longleftrightarrow> i = j"
  using read_nat_digits by metis

lemma call_key_inject: "call_key T i = call_key T j \<longleftrightarrow> i = j"
  by (auto simp: call_key_def open_key_def op_key_def lit_def ACCOUNTS_def)

lemma set_hex_digits: "set (hex_digits k n) \<subseteq> {48..<103}"
  by (induction k arbitrary: n) auto

lemma nat_digits_text [simp]: "text_ok (nat_digits n)"
  using set_nat_digits [of n] by (force simp: text_ok_def)

lemma case_text_ok [simp]: "text_ok (case_text T)"
  using set_hex_digits [of 32 "unat (tc_case T)"] by (force simp: text_ok_def case_text_def)

lemma text_ok_append [simp]: "text_ok (s @ t) \<longleftrightarrow> text_ok s \<and> text_ok t"
  by (auto simp: text_ok_def)

lemma case_texts_ok:
  "text_ok (call_key T j)" "text_ok (lit ''opening balance '')" "text_ok (lit ''op '')"
  by (simp_all add: call_key_def open_key_def op_key_def) (simp_all add: text_ok_def lit_def)

section \<open>One call\<close>

lemma post_usd_account:
  assumes "from_account_id req \<noteq> to_account_id req"
  shows "usd_account (apply_writes (post_writes C ev key req d) d) allows i \<longleftrightarrow> usd_account d allows i"
  using post_account_row [OF assms, of C ev key d i] by (auto simp: usd_account_def)

lemma post_balance:
  assumes "from_account_id req \<noteq> to_account_id req" and "0 \<le> intent_units C req"
  shows "\<bar>balance_of (apply_writes (post_writes C ev key req d) d) i\<bar> \<le> \<bar>balance_of d i\<bar> + intent_units C req"
  using post_account_row [OF assms(1), of C ev key d i] assms(2)
  by (auto simp: balance_of_def split: option.splits)

lemma post_pairs:
  assumes "constraints d" and "transaction_row d (at_txn_id ev) = None" and "pairs_of_entries d"
  shows "pairs_of_entries (apply_writes (post_writes C ev key req d) d)"
proof -
  let ?d = "apply_writes (post_writes C ev key req d) d"
  have "length (entries_of ?d (e_transaction_id e)) = 2" if "e \<in> set (entries ?d)" for e
  proof (cases "e_transaction_id e = at_txn_id ev")
    case True
    then show ?thesis
      using entries_of_post(1) [OF assms(1,2), of C key req] by simp
  next
    case False
    then have "e \<in> set (entries d)"
      using that by (auto simp: post_tables credit_posting_def debit_posting_def posting_def)
    then show ?thesis
      using entries_of_post(2) [OF assms(1,2) False, of C key req] assms(3) by (simp add: pairs_of_entries_def)
  qed
  then show ?thesis
    by (simp add: pairs_of_entries_def)
qed

lemma post_usable:
  assumes "calls_apart T n" and "k < j" and "j < n" and "usable_call T j d"
  shows "usable_call T j (apply_writes (post_writes C (tc_calls T k 0) (call_key T k) req d) d)"
proof -
  have "at_txn_id (tc_calls T k 0) \<noteq> at_txn_id (tc_calls T j 0)"
    "entry_ids_of (tc_calls T k 0) \<inter> entry_ids_of (tc_calls T j 0) = {}"
    using assms(1-3) by (auto simp: calls_apart_def)
  moreover have "call_key T k \<noteq> call_key T j"
    using assms(2) by (simp add: call_key_inject)
  ultimately show ?thesis
    using assms(4)
    by (auto simp: usable_call_def transaction_row_def key_row_def fresh_entry_ids_def post_tables
        claim_row_def credit_posting_def debit_posting_def posting_def entry_ids_of_def row_None)
qed

text \<open>What a landed transfer leaves for its replay.\<close>

definition recorded :: "'d crates \<Rightarrow> str \<Rightarrow> 'd transfer_intent \<Rightarrow> uuid \<Rightarrow> db \<Rightarrow> bool" where
  "recorded C key req t d \<longleftrightarrow>
     (\<exists>r. key_row d key = Some r \<and> t_request_hash r = request_hash C req \<and> t_id r = t)"

text \<open>Each operation that \<open>apply\<close> reports is recorded under its key.\<close>

definition all_recorded :: "'d crates \<Rightarrow> 'd test_case \<Rightarrow> uuid list \<Rightarrow> test_op list \<Rightarrow> (nat \<times> uuid) list \<Rightarrow> db \<Rightarrow> bool" where
  "all_recorded D T as ops applied d \<longleftrightarrow> (\<forall>(j, t) \<in> set applied. \<exists>m. j < length ops \<and>
     test_money D T (op_minor_units (ops ! j)) = Some m \<and> recorded D (op_key T j) (op_intent m as j (ops ! j)) t d)"

lemma recorded_grows: "recorded C key req t d \<Longrightarrow> grows d d' \<Longrightarrow> recorded C key req t d'"
  unfolding recorded_def using grows_key_row by blast

lemma case_constraints: "case_inv T n funding as k d \<Longrightarrow> constraints d"
  by (auto simp: case_inv_def ledger_inv_constraints)

context crate_contracts
begin

lemma undisturbed_execute:
  assumes "constraints d" and "undisturbed (evs 0)" and "money_ok C (intent_amount req)"
  shows "map_prod summary id (execute C evs key req d) = transfer_spec C (evs 0) key req d"
  unfolding execute_def
  by (rule execute_from_calm) (use assms in \<open>simp_all add: undisturbed_def\<close>)

text \<open>A transfer of the test can only fail for lack of money: no balance comes near its bound.\<close>

lemma case_check:
  assumes "case_inv T n funding as k d" and "k < 10 ^ 9" and "case_transfer C funding as req"
  shows "intent_check C req d = None \<or>
    intent_check C req d = Some (InsufficientFunds (from_account_id req)) \<and> from_account_id req \<noteq> funding"
proof -
  obtain f where f: "account_row d (from_account_id req) = Some f" "a_currency f = lit ''USD''"
    "from_account_id req = funding \<longrightarrow> a_allows_negative_balance f"
    using assms(1,3) unfolding case_inv_def case_transfer_def usd_account_def
    by (cases "from_account_id req = funding") blast+
  obtain g where g: "account_row d (to_account_id req) = Some g" "a_currency g = lit ''USD''"
    using assms(1,3) by (auto simp: case_inv_def case_transfer_def usd_account_def)
  have "\<bar>balance_of d (from_account_id req)\<bar> \<le> int k * most_units" "\<bar>balance_of d (to_account_id req)\<bar> \<le> int k * most_units"
    using assms(1,3) by (auto simp: case_inv_def case_transfer_def)
  moreover have "0 < intent_units C req" "intent_units C req \<le> most_units"
    using assms(3) by (simp_all add: case_transfer_def)
  moreover have "int k * most_units + most_units < 10 ^ 20"
    using assms(2) by (simp add: most_units_def)
  ultimately have "\<bar>a_balance f - intent_units C req\<bar> < 10 ^ 20" "\<bar>a_balance g + intent_units C req\<bar> < 10 ^ 20"
    using f(1) g(1) by (simp_all add: balance_of_def)
  then show ?thesis
    using f g assms(3) by (auto simp: intent_check_def transfer_check_def case_transfer_def)
qed

lemma case_post:
  assumes inv: "case_inv T n funding as k d" and "calls_apart T n" and "k < n" and req: "case_transfer C funding as req"
    and acc: "accepts C (tc_calls T k 0) (call_key T k) req d"
  shows "case_inv T n funding as (Suc k) (apply_writes (post_writes C (tc_calls T k 0) (call_key T k) req d) d)"
    and "grows d (apply_writes (post_writes C (tc_calls T k 0) (call_key T k) req d) d)"
proof -
  let ?ev = "tc_calls T k 0"
  let ?d = "apply_writes (post_writes C ?ev (call_key T k) req d) d"
  obtain x where x: "ledger_inv x d" "x \<le> at_xid ?ev"
    using inv assms(3) by (auto simp: case_inv_def)
  note post = post_ledger_inv [OF ledger_inv_mono [OF x] _ acc]
  have "Suc (at_xid ?ev) \<le> at_xid (tc_calls T j 0)" if "Suc k \<le> j" "j < n" for j
    using assms(2) that by (simp add: calls_apart_def Suc_le_eq)
  moreover have "ledger_inv (Suc (at_xid ?ev)) ?d"
    using post(1) req by (simp add: case_transfer_def)
  moreover have "pairs_of_entries ?d"
    by (rule post_pairs [OF case_constraints [OF inv]]) (use inv acc in \<open>simp_all add: case_inv_def accepts_def\<close>)
  moreover have "usable_call T j ?d" if "Suc k \<le> j" "j < n" for j
    by (rule post_usable [OF assms(2)]) (use inv that in \<open>simp_all add: case_inv_def\<close>)
  moreover have "\<bar>balance_of ?d a\<bar> \<le> int (Suc k) * most_units" if "a \<in> insert funding (set as)" for a
    using post_balance [of req C ?ev "call_key T k" d a] acc req inv that
    by (fastforce simp: accepts_def case_transfer_def case_inv_def algebra_simps)
  ultimately show "case_inv T n funding as (Suc k) ?d"
    using inv acc post_usd_account [of req C] by (auto simp: case_inv_def accepts_def)
  show "grows d ?d"
    using post(2) req by (simp add: case_transfer_def)
qed

text \<open>
  The \<open>k\<close>-th call: it lands, with one more transaction and two more entries, or it is one of the refusals the
  test expects and nothing changes. A transfer out of the funding account lands.
\<close>

lemma case_call:
  assumes inv: "case_inv T n funding as k d" and "calls_apart T n" and "k < n" and "n \<le> 10 ^ 9"
    and req: "case_transfer C funding as req"
  obtains (landed) res d' where "execute C (tc_calls T k) (call_key T k) req d = (Ok res, d')"
      "case_inv T n funding as (Suc k) d'" "grows d d'" "length (entries d') = length (entries d) + 2"
      "recorded C (call_key T k) req (txn_id (td_transaction (res_detail res))) d'"
  | (refused) e where "execute C (tc_calls T k) (call_key T k) req d = (Err e, d)"
      "e = SelfTransfer \<or> (\<exists>a. e = InsufficientFunds a)" "from_account_id req = funding \<Longrightarrow> to_account_id req = funding"
proof -
  let ?ev = "tc_calls T k 0" and ?key = "call_key T k"
  have use: "usable_call T k d"
    using inv assms(3) by (simp add: case_inv_def)
  have run: "map_prod summary id (execute C (tc_calls T k) ?key req d) = transfer_spec C ?ev ?key req d"
    by (rule undisturbed_execute [OF case_constraints [OF inv]])
       (use use req in \<open>simp_all add: usable_call_def case_transfer_def\<close>)
  have spec: "transfer_spec C ?ev ?key req d =
      (if from_account_id req = to_account_id req then (Err SelfTransfer, d)
       else case intent_check C req d of Some e \<Rightarrow> (Err e, d)
         | None \<Rightarrow> (Ok (Created, at_txn_id ?ev), apply_writes (post_writes C ?ev ?key req d) d))"
    using use req
    by (simp add: case_texts_ok transfer_spec_def usable_call_def undisturbed_def case_transfer_def Let_def)
  obtain r d' where ex: "execute C (tc_calls T k) ?key req d = (r, d')"
    by fastforce
  consider "from_account_id req = to_account_id req"
    | "from_account_id req \<noteq> to_account_id req" "intent_check C req d = Some (InsufficientFunds (from_account_id req))"
      "from_account_id req \<noteq> funding"
    | "from_account_id req \<noteq> to_account_id req" "intent_check C req d = None"
    using case_check [OF inv _ req] assms(3,4) by fastforce
  then show thesis
  proof cases
    case 1
    then show thesis
      using run spec ex by (cases r) (auto intro: refused)
  next
    case 2
    then show thesis
      using run spec ex by (cases r) (auto intro: refused)
  next
    case 3
    then have acc: "accepts C ?ev ?key req d"
      using use req by (simp add: accepts_def usable_call_def case_transfer_def)
    obtain res where r: "r = Ok res" "txn_id (td_transaction (res_detail res)) = at_txn_id ?ev"
      and d': "d' = apply_writes (post_writes C ?ev ?key req d) d"
      using run spec ex 3 by (cases r) auto
    have "recorded C ?key req (at_txn_id ?ev) d'"
      using acc by (simp add: recorded_def d' key_row_def post_tables row_append accepts_def claim_row_def)
    then show thesis
      using landed [of res d'] ex r d' case_post [OF inv assms(2,3) req acc] by (simp add: post_tables)
  qed
qed

section \<open>The loops\<close>

lemma test_money_Some:
  assumes "decimal_new_ok C T" and "0 < n" and "n < 50000"
  obtains m where "test_money C T n = Some m" "money_ok C m" "m_currency m = Currency (lit ''USD'')"
    "units (dval C (m_amount m)) = n * 10 ^ 6"
proof -
  let ?a = "tc_decimal_new T n 2" and ?usd = "Currency (lit ''USD'')"
  let ?m = "\<lparr>m_amount = ?a, m_currency = ?usd\<rparr>"
  have a: "d_mantissa C ?a = n" "d_scale C ?a = 2"
    using assms by (simp_all add: decimal_new_ok_def)
  then have val: "dval C ?a = of_int n / 100"
    by (simp add: dval_def)
  have "(of_int n :: rat) < 50000"
    using assms(3) by simp
  then have ok: "money_ok C ?m"
    using a(2) assms(2) by (simp add: money_ok_def val MAX_SCALE_def)
  moreover have "units (dval C ?a) = n * 10 ^ 6"
  proof -
    have "dval C ?a * 10 ^ 8 = of_int (n * 10 ^ 6)"
      by (simp add: val)
    then show ?thesis
      unfolding units_def by (simp only: floor_of_int)
  qed
  ultimately show thesis
    using that [of ?m] money_ok_new [OF ok] by (simp add: test_money_def usd_eur)
qed

lemma open_accounts_land:
  assumes "calls_apart T n" and "n \<le> 10 ^ 9" and "ACCOUNTS \<le> n" and "decimal_new_ok C T" and "length as = ACCOUNTS"
    and "funding \<notin> set as"
  shows "case_inv T n funding as i d \<Longrightarrow> list_all (\<lambda>u. 0 \<le> u \<and> u < 50000) os \<Longrightarrow> i + length os = ACCOUNTS \<Longrightarrow>
    \<exists>k d'. open_accounts C T funding as i os d = Some (k, d') \<and> case_inv T n funding as ACCOUNTS d' \<and> grows d d' \<and>
      length (entries d') = length (entries d) + 2 * k"
proof (induction os arbitrary: i d)
  case Nil
  then show ?case by simp
next
  case (Cons a os)
  have IH: "\<exists>k d''. open_accounts C T funding as (Suc i) os d' = Some (k, d'') \<and> case_inv T n funding as ACCOUNTS d'' \<and>
      grows d' d'' \<and> length (entries d'') = length (entries d') + 2 * k"
    if "case_inv T n funding as (Suc i) d'" for d'
    using Cons.IH [OF that] Cons.prems(2,3) by simp
  show ?case
  proof (cases "a = 0")
    case True
    then show ?thesis
      using IH [OF case_inv_skip [OF Cons.prems(1)]] by simp
  next
    case False
    then obtain m where m: "test_money C T a = Some m" "money_ok C m" "m_currency m = Currency (lit ''USD'')"
      "units (dval C (m_amount m)) = a * 10 ^ 6"
      using test_money_Some [OF assms(4), of a] Cons.prems(2) by auto
    have i: "i < length as" "i < n"
      using Cons.prems(3) assms(3,5) by simp_all
    then have "as ! i \<in> set as"
      by simp
    then have req: "case_transfer C funding as (opening_intent m funding as i)"
      using m Cons.prems(2) False case_texts_ok(2)
      by (simp add: case_transfer_def opening_intent_def intent_units_def most_units_def)
    have key: "call_key T i = open_key T i"
      using i(1) assms(5) by (simp add: call_key_def)
    show ?thesis
    proof (rule case_call [OF Cons.prems(1) assms(1) i(2) assms(2) req])
      fix res d'
      assume "execute C (tc_calls T i) (call_key T i) (opening_intent m funding as i) d = (Ok res, d')"
        "case_inv T n funding as (Suc i) d'" "grows d d'" "length (entries d') = length (entries d) + 2"
      then show ?thesis
        using IH [of d'] m(1) i(1) False key by (auto intro: grows_trans)
    next
      fix e
      assume "from_account_id (opening_intent m funding as i) = funding \<Longrightarrow> to_account_id (opening_intent m funding as i) = funding"
      then show ?thesis
        using assms(6) \<open>as ! i \<in> set as\<close> by (simp add: opening_intent_def)
    qed
  qed
qed

lemma op_transfer:
  assumes "op_generated p" and "length as = ACCOUNTS" and "decimal_new_ok C T"
  obtains m where "test_money C T (op_minor_units p) = Some m" "case_transfer C funding as (op_intent m as i p)"
proof -
  obtain m where m: "test_money C T (op_minor_units p) = Some m" "money_ok C m" "m_currency m = Currency (lit ''USD'')"
    "units (dval C (m_amount m)) = op_minor_units p * 10 ^ 6"
    using test_money_Some [OF assms(3), of "op_minor_units p"] assms(1) by (auto simp: op_generated_def)
  then have "case_transfer C funding as (op_intent m as i p)"
    using assms(1,2) case_texts_ok(3)
    by (simp add: case_transfer_def op_intent_def intent_units_def op_generated_def most_units_def)
  with m(1) show thesis
    by (rule that)
qed

lemma apply_ops_expected:
  assumes "calls_apart T n" and "n \<le> 10 ^ 9" and "ACCOUNTS + length ops \<le> n" and "decimal_new_ok C T"
    and "length as = ACCOUNTS" and "list_all op_generated ops"
  shows "case_inv T n funding as (ACCOUNTS + i) d \<Longrightarrow> i \<le> length ops \<Longrightarrow>
    \<exists>applied d'. apply_ops C T as i (drop i ops) d = Some (applied, d') \<and>
      case_inv T n funding as (ACCOUNTS + length ops) d' \<and> grows d d' \<and> i + length applied \<le> length ops \<and>
      length (entries d') = length (entries d) + 2 * length applied \<and> all_recorded C T as ops applied d'"
proof (induction "length ops - i" arbitrary: i d)
  case 0
  then show ?case by (auto simp: all_recorded_def)
next
  case (Suc l)
  then have i: "i < length ops" "ACCOUNTS + i < n"
    using assms(3) by simp_all
  let ?p = "ops ! i"
  have p: "op_generated ?p" "drop i ops = ?p # drop (Suc i) ops"
    using i assms(6) by (simp_all add: list_all_length Cons_nth_drop_Suc)
  have IH: "\<exists>applied d''. apply_ops C T as (Suc i) (drop (Suc i) ops) d' = Some (applied, d'') \<and>
      case_inv T n funding as (ACCOUNTS + length ops) d'' \<and> grows d' d'' \<and> Suc i + length applied \<le> length ops \<and>
      length (entries d'') = length (entries d') + 2 * length applied \<and> all_recorded C T as ops applied d''"
    if "case_inv T n funding as (Suc (ACCOUNTS + i)) d'" for d'
    using Suc.hyps(1) [of "Suc i" d'] Suc.hyps(2) that i by simp
  obtain m where m: "test_money C T (op_minor_units ?p) = Some m" "case_transfer C funding as (op_intent m as i ?p)"
    by (rule op_transfer [OF p(1) assms(5,4)])
  have key: "call_key T (ACCOUNTS + i) = op_key T i"
    by (simp add: call_key_def)
  have range: "op_from ?p < length as" "op_to ?p < length as"
    using p(1) assms(5) by (simp_all add: op_generated_def)
  show ?case
  proof (rule case_call [OF Suc.prems(1) assms(1) i(2) assms(2) m(2)])
    fix res :: "'d transfer_result" and d'
    let ?t = "txn_id (td_transaction (res_detail res))"
    assume run: "execute C (tc_calls T (ACCOUNTS + i)) (call_key T (ACCOUNTS + i)) (op_intent m as i ?p) d = (Ok res, d')"
      "case_inv T n funding as (Suc (ACCOUNTS + i)) d'" "grows d d'" "length (entries d') = length (entries d) + 2"
      and rec: "recorded C (call_key T (ACCOUNTS + i)) (op_intent m as i ?p) ?t d'"
    obtain applied d'' where rest: "apply_ops C T as (Suc i) (drop (Suc i) ops) d' = Some (applied, d'')"
      "case_inv T n funding as (ACCOUNTS + length ops) d''" "grows d' d''" "Suc i + length applied \<le> length ops"
      "length (entries d'') = length (entries d') + 2 * length applied" "all_recorded C T as ops applied d''"
      using IH [OF run(2)] by blast
    have "apply_ops C T as i (drop i ops) d = Some ((i, ?t) # applied, d'')"
      using run(1) rest(1) m(1) range key p(2) by simp
    moreover have "all_recorded C T as ops ((i, ?t) # applied) d''"
      using rest(6) m(1) i(1) recorded_grows [OF rec rest(3)] key by (auto simp: all_recorded_def)
    ultimately show ?thesis
      using rest(2,4,5) run(4) grows_trans [OF run(3) rest(3)] by fastforce
  next
    fix e
    assume "execute C (tc_calls T (ACCOUNTS + i)) (call_key T (ACCOUNTS + i)) (op_intent m as i ?p) d = (Err e, d)"
      "e = SelfTransfer \<or> (\<exists>a. e = InsufficientFunds a)"
    then have "apply_ops C T as i (drop i ops) d = apply_ops C T as (Suc i) (drop (Suc i) ops) d"
      using m(1) range key p(2) by auto
    then show ?thesis
      using IH [OF case_inv_skip [OF Suc.prems(1)]] by fastforce
  qed
qed

lemma replay_ops_unchanged:
  assumes "constraints d" and "decimal_new_ok C T" and "length as = ACCOUNTS" and "list_all op_generated ops"
  shows "all_recorded C T as ops applied d \<Longrightarrow> \<forall>j < k + length applied. undisturbed (tc_calls T j 0) \<Longrightarrow>
    replay_ops C T as ops k applied d = Some d"
proof (induction applied arbitrary: k)
  case (Cons jt applied)
  obtain j t where jt: "jt = (j, t)"
    by fastforce
  obtain m where m: "j < length ops" "test_money C T (op_minor_units (ops ! j)) = Some m"
    "recorded C (op_key T j) (op_intent m as j (ops ! j)) t d"
    using Cons.prems(1) by (auto simp: all_recorded_def jt)
  have "op_generated (ops ! j)"
    using assms(4) m(1) by (simp add: list_all_length)
  then obtain m' where "test_money C T (op_minor_units (ops ! j)) = Some m'"
    "case_transfer C 0 as (op_intent m' as j (ops ! j))"
    by (rule op_transfer [OF _ assms(3,2)])
  with m(2) have "money_ok C (intent_amount (op_intent m as j (ops ! j)))"
    by (simp add: case_transfer_def)
  moreover have "undisturbed (tc_calls T k 0)"
    using Cons.prems(2) by simp
  ultimately have "map_prod summary id (execute C (tc_calls T k) (op_key T j) (op_intent m as j (ops ! j)) d) =
      (Ok (Replayed, t), d)"
    using undisturbed_execute [OF assms(1), of "tc_calls T k"] m(3)
    by (auto simp: recorded_def transfer_spec_def replay_spec_def)
  then obtain res where "execute C (tc_calls T k) (op_key T j) (op_intent m as j (ops ! j)) d = (Ok res, d)"
    "res_outcome res = Replayed" "txn_id (td_transaction (res_detail res)) = t"
    by (cases "execute C (tc_calls T k) (op_key T j) (op_intent m as j (ops ! j)) d")
       (metis summary.elims Pair_inject Pair_inject map_prod_simp id_apply result.inject(1) result.distinct(1,3))
  moreover have "replay_ops C T as ops (Suc k) applied d = Some d"
    using Cons.IH [of "Suc k"] Cons.prems by (simp add: all_recorded_def)
  ultimately show ?case
    using m(2) by (simp add: jt)
qed simp

section \<open>The assertions hold\<close>

lemma account_checks:
  assumes inv: "ledger_inv x d" and "usd_account d False i"
  shows "unwrap (accounts_get C NoFault i d) (\<lambda>account. let balance = m_amount (account_balance account) in
    d_ge C balance (d_zero C) \<and> d_eq C balance (d_of_numeric C (derived_balance d i)))"
proof -
  have cons: "constraints d"
    by (rule ledger_inv_constraints [OF inv])
  obtain r where r: "account_row d i = Some r" "\<not> a_allows_negative_balance r"
    using assms(2) by (auto simp: usd_account_def)
  then obtain a where a: "accounts_get C NoFault i d = Ok a" "represents C a r"
    using accounts_get_spec(2) [OF cons] by blast
  have "r \<in> set (accounts d)" "a_id r = i"
    using r(1) row_Some [of a_id "accounts d" i r] by (simp_all add: account_row_def)
  then have "account_ok r" "a_balance r = derived_balance d i"
    using cons inv by (auto simp: constraints_def ledger_inv_def)
  then show ?thesis
    using a r(2) by (auto simp: represents_def Let_def vals of_numeric_val account_ok_def accounts_check_def
        split: if_splits)
qed

lemma transaction_checks:
  assumes inv: "ledger_inv x d" and "pairs_of_entries d" and t: "t \<in> set (transactions d)"
  shows "unwrap (transactions_get C NoFault NoFault (t_id t) d) (\<lambda>detail. is_balanced C detail = Ok True)"
proof -
  have cons: "constraints d" and schema: "schema_inv x d"
    using inv by (simp_all add: ledger_inv_def schema_inv_def)
  have row: "transaction_row d (t_id t) = Some t"
    using cons t by (simp add: constraints_def transaction_row_def row_unique)
  have some: "entries_of d (t_id t) \<noteq> []"
    using inv t by (simp add: ledger_inv_def)
  then obtain e where "e \<in> set (entries d)" "e_transaction_id e = t_id t"
    using entries_of_eq_Nil by blast
  then have "length (entries_of d (t_id t)) = 2"
    using assms(2) unfolding pairs_of_entries_def by metis
  moreover obtain td where "transactions_get C NoFault NoFault (t_id t) d = Ok td"
    using transactions_get_spec(2) [OF cons row] by blast
  ultimately show ?thesis
    using transactions_get_balanced [OF schema row some] by simp
qed

lemma assertions_hold:
  assumes inv: "ledger_inv x d" and "pairs_of_entries d" and "\<forall>a \<in> set as. usd_account d False a"
  shows "assert_invariants_hold d" and "assert_invariants_independently C as d" and "assert_entries_are_well_formed d"
proof -
  have cons: "constraints d" and schema: "schema_inv x d"
    using inv by (simp_all add: ledger_inv_def schema_inv_def)
  show "assert_invariants_hold d"
    using ledger_inv_sweep [OF inv]
    by (cases "ledger_check_invariants d")
       (auto simp: assert_invariants_hold_def check_invariants_def sweep_passes_def list_all_iff unwrap_def
          ledger_check_invariants_def result_simps)
  show "assert_invariants_independently C as d"
    using schema_inv_global_zero [OF schema] balances_sum_zero [OF inv] account_checks [OF inv]
      transaction_checks [OF inv assms(2)] assms(3)
    by (simp add: assert_invariants_independently_def list_all_iff)
  show "assert_entries_are_well_formed d"
    using assms(2) cons
    by (auto simp: assert_entries_are_well_formed_def pairs_of_entries_def entry_transactions_def filter_empty_conv
        constraints_def distinct_remdups_id)
qed

end

section \<open>Opening the accounts\<close>

text \<open>An account of the case as it is opened.\<close>

definition opened :: "db \<Rightarrow> bool \<Rightarrow> uuid \<Rightarrow> bool" where
  "opened d allows i \<longleftrightarrow> (\<exists>r. account_row d i = Some r \<and> a_currency r = lit ''USD'' \<and>
     a_allows_negative_balance r = allows \<and> a_balance r = 0)"

definition account_ids :: "'d test_case \<Rightarrow> nat \<Rightarrow> uuid" where
  "account_ids T k = rq_id (tc_env T k)"

text \<open>The ledger before account \<open>k\<close> is opened, for a case with \<open>n\<close> calls.\<close>

definition opening_inv :: "'d test_case \<Rightarrow> nat \<Rightarrow> nat \<Rightarrow> db \<Rightarrow> bool" where
  "opening_inv T n k d \<longleftrightarrow>
     (\<exists>x. ledger_inv x d \<and> (\<forall>j < n. x \<le> at_xid (tc_calls T j 0))) \<and> pairs_of_entries d \<and>
     (\<forall>j < n. usable_call T j d) \<and> inj_on (account_ids T) {..ACCOUNTS} \<and>
     (\<forall>j. k \<le> j \<and> j \<le> ACCOUNTS \<longrightarrow> rq_fault (tc_env T j) = NoFault \<and> account_row d (account_ids T j) = None)"

lemma account_ids_differ:
  assumes "opening_inv T n k d" and "i < j" and "j \<le> ACCOUNTS"
  shows "account_ids T i \<noteq> account_ids T j"
proof -
  have "inj_on (account_ids T) {..ACCOUNTS}"
    using assms(1) by (simp add: opening_inv_def)
  then show ?thesis
    using assms(2,3) by (simp add: inj_on_eq_iff)
qed

lemma trim_not_Nil: "c \<in> set s \<Longrightarrow> \<not> is_whitespace c \<Longrightarrow> trim s \<noteq> []"
  unfolding trim_def by (metis dropWhile_eq_Nil_conv rev_is_Nil_conv set_rev dropWhile_eq_self_iff hd_rev last_rev
      dropWhile_hd hd_in_set)

lemma length_hex_digits [simp]: "length (hex_digits k n) = k"
  by (induction k arbitrary: n) auto

context crate_contracts
begin

lemma create_account_opens:
  assumes "opening_inv T n k d" and "k \<le> ACCOUNTS" and "text_ok name" and "length name \<le> 255" and "trim name \<noteq> []"
  obtains d' where "create_account C to_str T k name allows d = Some (account_ids T k, d')"
    "opening_inv T n (Suc k) d'" "opened d' allows (account_ids T k)" "\<And>b i. opened d b i \<Longrightarrow> opened d' b i"
    "entries d' = entries d" "transactions d' = transactions d"
proof -
  have calm: "rq_fault (tc_env T k) = NoFault" "account_row d (account_ids T k) = None"
    using assms(1,2) by (simp_all add: opening_inv_def)
  obtain x where x: "ledger_inv x d" "\<forall>j < n. x \<le> at_xid (tc_calls T j 0)"
    using assms(1) by (auto simp: opening_inv_def)
  let ?create = "accounts_create C NoFault (rq_now (tc_env T k)) (account_ids T k) (trim name) (Currency (lit ''USD'')) allows d"
  have "0 \<notin> set (trim name)" "length (trim name) \<le> 255"
    using assms(3,4) set_trim [of name] length_trim [of name] by (auto simp: text_ok_def)
  then obtain a r where new: "?create = (Ok a, d\<lparr>accounts := accounts d @ [r]\<rparr>)" "represents C a r"
    "a_id r = account_ids T k" "a_currency r = lit ''USD''" "a_balance r = 0" "a_allows_negative_balance r = allows"
    using accounts_create_Ok [OF ledger_inv_constraints [OF x(1)] calm(2), of "trim name" "Currency (lit ''USD'')"
        "rq_now (tc_env T k)" allows] assms(5)
    by (auto simp: Suc_le_eq ISO_4217_def)
  let ?d = "d\<lparr>accounts := accounts d @ [r]\<rparr>"
  have "create_account C to_str T k name allows d = Some (account_ids T k, ?d)"
    using new assms(5) \<open>length (trim name) \<le> 255\<close> calm(1)
    by (simp add: create_account_def usd_eur http_accounts_create_def MAX_NAME_LEN_def Let_def account_ids_def
        represents_def)
  moreover have "ledger_inv x ?d"
    by (rule accounts_create_ledger_inv [OF x(1) new(1)])
  moreover have rows: "account_row ?d i = (case account_row d i of None \<Rightarrow> if a_id r = i then Some r else None | Some q \<Rightarrow> Some q)" for i
    by (simp add: account_row_def row_append split: option.split)
  moreover have "pairs_of_entries ?d = pairs_of_entries d" "usable_call T j ?d = usable_call T j d" for j
    by (simp_all add: pairs_of_entries_def entries_of_def usable_call_def transaction_row_def fresh_entry_ids_def key_row_def)
  moreover have "account_ids T k \<noteq> account_ids T j" if "Suc k \<le> j" "j \<le> ACCOUNTS" for j
    using account_ids_differ [OF assms(1), of k j] that by simp
  ultimately show thesis
    using assms(1) x(2) new(3-6) calm(2)
    by (intro that [of ?d]) (auto simp: opening_inv_def opened_def rows)
qed

lemma case_names:
  "text_ok (funding_name T)" "length (funding_name T) \<le> 255" "trim (funding_name T) \<noteq> []"
  "i < ACCOUNTS \<Longrightarrow> text_ok (account_name_of T i) \<and> length (account_name_of T i) \<le> 255 \<and> trim (account_name_of T i) \<noteq> []"
proof -
  have texts: "text_ok (lit ''funding-'')" "text_ok (lit ''account-'')" "text_ok (lit ''-'')" "length (case_text T) = 32"
    by (simp_all add: text_ok_def lit_def case_text_def)
  show "text_ok (funding_name T)"
    by (simp add: funding_name_def texts)
  show "length (funding_name T) \<le> 255"
    by (simp add: funding_name_def texts lit_def)
  show "trim (funding_name T) \<noteq> []"
    by (rule trim_not_Nil [of 102]) (simp_all add: funding_name_def lit_def is_whitespace_def)
  assume "i < ACCOUNTS"
  then have "length (nat_digits i) = 1"
    by (subst nat_digits.simps) (simp add: ACCOUNTS_def)
  then have "length (account_name_of T i) \<le> 255"
    by (simp add: account_name_of_def texts lit_def)
  moreover have "trim (account_name_of T i) \<noteq> []"
    by (rule trim_not_Nil [of 97]) (simp_all add: account_name_of_def lit_def is_whitespace_def)
  ultimately show "text_ok (account_name_of T i) \<and> length (account_name_of T i) \<le> 255 \<and> trim (account_name_of T i) \<noteq> []"
    by (simp add: account_name_of_def texts)
qed

lemma create_accounts_open:
  "opening_inv T n (Suc i) d \<Longrightarrow> i + l = ACCOUNTS \<Longrightarrow>
   \<exists>d'. create_accounts C to_str T i l d = Some (map (account_ids T) [Suc i..<Suc ACCOUNTS], d') \<and>
     opening_inv T n (Suc ACCOUNTS) d' \<and> (\<forall>j. i < j \<and> j \<le> ACCOUNTS \<longrightarrow> opened d' False (account_ids T j)) \<and>
     (\<forall>b a. opened d b a \<longrightarrow> opened d' b a) \<and> entries d' = entries d \<and> transactions d' = transactions d"
proof (induction l arbitrary: i d)
  case (Suc l)
  then have i: "i < ACCOUNTS" "Suc i \<le> ACCOUNTS"
    by simp_all
  obtain d1 where d1: "create_account C to_str T (Suc i) (account_name_of T i) False d = Some (account_ids T (Suc i), d1)"
    "opening_inv T n (Suc (Suc i)) d1" "opened d1 False (account_ids T (Suc i))" "\<And>b a. opened d b a \<Longrightarrow> opened d1 b a"
    "entries d1 = entries d" "transactions d1 = transactions d"
    using create_account_opens [OF Suc.prems(1) i(2)] case_names(4) [OF i(1)] by blast
  obtain d2 where d2: "create_accounts C to_str T (Suc i) l d1 = Some (map (account_ids T) [Suc (Suc i)..<Suc ACCOUNTS], d2)"
    "opening_inv T n (Suc ACCOUNTS) d2" "\<forall>j. Suc i < j \<and> j \<le> ACCOUNTS \<longrightarrow> opened d2 False (account_ids T j)"
    "\<forall>b a. opened d1 b a \<longrightarrow> opened d2 b a" "entries d2 = entries d1" "transactions d2 = transactions d1"
    using Suc.IH [OF d1(2)] Suc.prems(2) by auto
  have "opened d2 False (account_ids T j)" if "i < j" "j \<le> ACCOUNTS" for j
    using that d1(3) d2(3,4) by (cases "j = Suc i") auto
  moreover have "[Suc i..<Suc ACCOUNTS] = Suc i # [Suc (Suc i)..<Suc ACCOUNTS]"
    using i by (simp add: upt_conv_Cons)
  ultimately show ?case
    using d1 d2 by (auto simp del: upt_Suc)
qed auto

lemma opening_case_inv:
  assumes "opening_inv T n (Suc ACCOUNTS) d" and "opened d True funding" and "\<forall>a \<in> set as. opened d False a"
  shows "case_inv T n funding as 0 d"
  using assms by (fastforce simp: opening_inv_def case_inv_def opened_def usd_account_def balance_of_def)

end

section \<open>Properties\<close>

text \<open>
  A case that can run on the ledger \<open>d\<close>: the clock, the transaction ids and the generators of identifiers
  are as they should be, nothing fails, and no key of the case is in use.
\<close>

definition fresh_case :: "'d crates \<Rightarrow> 'd test_case \<Rightarrow> nat \<Rightarrow> db \<Rightarrow> bool" where
  "fresh_case C T m d \<longleftrightarrow> decimal_new_ok C T \<and> opening_inv T (ACCOUNTS + m) 0 d \<and> calls_apart T (ACCOUNTS + m) \<and>
     (\<forall>j < ACCOUNTS + 2 * m. undisturbed (tc_calls T j 0))"

lemma case_opened:
  assumes "crate_contracts C" and start: "opening_inv T n 0 d"
  obtains as d1 d2 where "create_account C to_str T 0 (funding_name T) True d = Some (account_ids T 0, d1)"
    "create_accounts C to_str T 0 ACCOUNTS d1 = Some (as, d2)" "length as = ACCOUNTS" "account_ids T 0 \<notin> set as"
    "case_inv T n (account_ids T 0) as 0 d2" "entries d2 = entries d" "transactions d2 = transactions d"
proof -
  define as where "as = map (account_ids T) [Suc 0..<Suc ACCOUNTS]"
  have ids: "\<exists>j. a = account_ids T j \<and> 0 < j \<and> j \<le> ACCOUNTS" if "a \<in> set as" for a
    using that unfolding as_def by (auto simp del: upt_Suc)
  have funding: "account_ids T 0 \<notin> set as"
    using ids [of "account_ids T 0"] account_ids_differ [OF start, of 0] by auto
  obtain d1 where d1: "create_account C to_str T 0 (funding_name T) True d = Some (account_ids T 0, d1)"
    "opening_inv T n (Suc 0) d1" "opened d1 True (account_ids T 0)" "entries d1 = entries d" "transactions d1 = transactions d"
    using crate_contracts.create_account_opens [OF assms(1) start _ crate_contracts.case_names(1-3) [OF assms(1)]]
    by (metis le0)
  obtain d2 where d2: "create_accounts C to_str T 0 ACCOUNTS d1 = Some (as, d2)" "opening_inv T n (Suc ACCOUNTS) d2"
    "\<forall>j. 0 < j \<and> j \<le> ACCOUNTS \<longrightarrow> opened d2 False (account_ids T j)" "opened d2 True (account_ids T 0)"
    "entries d2 = entries d" "transactions d2 = transactions d"
    using crate_contracts.create_accounts_open [OF assms(1) d1(2) add_0, of to_str] d1(3-5) unfolding as_def by metis
  have "case_inv T n (account_ids T 0) as 0 d2"
    by (rule crate_contracts.opening_case_inv [OF assms(1) d2(2,4)]) (use ids d2(3) in blast)
  then show thesis
    using that [OF d1(1) d2(1) _ funding] d2(5,6) by (simp add: as_def)
qed

text \<open>
  C14: the property test of the repository passes for every input. On any ledger of the service, for all
  opening balances and any sequence of up to a hundred million operations within the ranges of its
  generators: each transfer lands or is refused for insufficient funds or for naming one account twice, the
  sweep and the independent checks pass afterwards, every landed transfer has added exactly two entries,
  and replaying the landed ones returns the original transactions and writes nothing.
\<close>

theorem property_test_passes:
  assumes "crate_contracts C" and "fresh_case C T (length ops) d" and "openings_generated openings"
    and "list_all op_generated ops" and "length ops \<le> 10 ^ 8"
  shows "random_transfer_sequences_preserve_every_invariant C to_str T openings ops d"
proof -
  let ?n = "ACCOUNTS + length ops"
  have new: "decimal_new_ok C T" and start: "opening_inv T ?n 0 d" and apart: "calls_apart T ?n"
    and calm: "\<forall>j < ACCOUNTS + 2 * length ops. undisturbed (tc_calls T j 0)"
    using assms(2) by (simp_all add: fresh_case_def)
  have n: "?n \<le> 10 ^ 9" "ACCOUNTS \<le> ?n"
    using assms(5) by (simp_all add: ACCOUNTS_def)
  obtain as d1 d2 where created: "create_account C to_str T 0 (funding_name T) True d = Some (account_ids T 0, d1)"
    "create_accounts C to_str T 0 ACCOUNTS d1 = Some (as, d2)"
    and as: "length as = ACCOUNTS" "account_ids T 0 \<notin> set as" "case_inv T ?n (account_ids T 0) as 0 d2"
    and d2: "entries d2 = entries d" "transactions d2 = transactions d"
    by (rule case_opened [OF assms(1) start])
  obtain k d3 where d3: "open_accounts C T (account_ids T 0) as 0 openings d2 = Some (k, d3)"
    "case_inv T ?n (account_ids T 0) as ACCOUNTS d3" "grows d2 d3" "length (entries d3) = length (entries d2) + 2 * k"
    using crate_contracts.open_accounts_land [OF assms(1) apart n new as, of openings] assms(3)
    by (auto simp: openings_generated_def)
  obtain applied d4 where d4: "apply_ops C T as 0 ops d3 = Some (applied, d4)" "case_inv T ?n (account_ids T 0) as ?n d4"
    "grows d3 d4" "length applied \<le> length ops" "length (entries d4) = length (entries d3) + 2 * length applied"
    "all_recorded C T as ops applied d4"
    using crate_contracts.apply_ops_expected [OF assms(1) apart n(1) order_refl new as(1) assms(4), of "account_ids T 0" 0 d3] d3(2)
    by auto
  have replays: "replay_ops C T as ops ?n applied d4 = Some d4"
    by (rule crate_contracts.replay_ops_unchanged [OF assms(1) case_constraints [OF d4(2)] new as(1) assms(4) d4(6)])
       (use calm d4(4) in auto)
  obtain x where "ledger_inv x d4" "pairs_of_entries d4" "\<forall>a \<in> set as. usd_account d4 False a"
    using d4(2) unfolding case_inv_def by blast
  note checks = crate_contracts.assertions_hold [OF assms(1) this]
  have "length (transactions d) \<le> length (transactions d4)"
    using d2(2) grows_trans [OF d3(3) d4(3)] by (auto simp: grows_def extends_def)
  then show ?thesis
    using created d2(1) d3(1,4) d4(1,5) replays checks
    by (simp add: random_transfer_sequences_preserve_every_invariant_def Let_def)
qed

text \<open>A case on the empty ledger: the second transfer finds too little money left.\<close>

definition sample_case :: "rdec test_case" where
  "sample_case =
     \<lparr>tc_case = 77,
      tc_env = (\<lambda>k. \<lparr>rq_now = 0, rq_id = of_nat k, rq_fault = NoFault, rq_fault2 = NoFault,
        rq_attempts = sample_ev (\<lambda>_. NoFault)\<rparr>),
      tc_calls = (\<lambda>k _. \<lparr>at_now = int k, at_xid = k, at_txn_id = of_nat k, at_credit_id = of_nat (2 * k),
        at_debit_id = of_nat (2 * k + 1), at_fault = (\<lambda>_. NoFault), at_race = (\<lambda>d. d)\<rparr>),
      tc_decimal_new = RDec\<rparr>"

definition sample_ops :: "test_op list" where
  "sample_ops = [\<lparr>op_from = 0, op_to = 1, op_minor_units = 60\<rparr>, \<lparr>op_from = 0, op_to = 1, op_minor_units = 60\<rparr>]"

lemma small_words_differ: "i < j \<Longrightarrow> j < 100 \<Longrightarrow> (of_nat i :: 128 word) \<noteq> of_nat j"
  by (simp add: word_of_nat_eq_iff take_bit_nat_eq_self)

lemma sample_case_apart: "calls_apart sample_case (ACCOUNTS + length sample_ops)"
proof -
  have "entry_ids_of (tc_calls sample_case i 0) \<inter> entry_ids_of (tc_calls sample_case j 0) = {}" if "i < j" "j < 6" for i j
    using that small_words_differ [of "2 * i" "2 * j"] small_words_differ [of "2 * i" "2 * j + 1"]
      small_words_differ [of "2 * i + 1" "2 * j"] small_words_differ [of "2 * i + 1" "2 * j + 1"]
    by (simp add: entry_ids_of_def sample_case_def)
  then show ?thesis
    using small_words_differ by (auto simp: calls_apart_def ACCOUNTS_def sample_ops_def) (simp_all add: sample_case_def)
qed

lemma sample_case_opening: "opening_inv sample_case (ACCOUNTS + length sample_ops) 0 empty_db"
proof -
  have "inj_on (account_ids sample_case) {..ACCOUNTS}"
    by (auto simp: inj_on_def account_ids_def sample_case_def ACCOUNTS_def word_of_nat_eq_iff take_bit_nat_eq_self)
  then show ?thesis
    using ledger_inv_empty [of 0]
    by (auto simp: opening_inv_def pairs_of_entries_def usable_call_def undisturbed_def no_fault_def sample_case_def
        fresh_entry_ids_def transaction_row_def key_row_def account_row_def empty_db_def)
qed

theorem property_test_passes_witness:
  "random_transfer_sequences_preserve_every_invariant ref_crates ascii_to_str sample_case [100, 0, 7, 0] sample_ops empty_db"
proof (rule property_test_passes [OF ref.crate_contracts_axioms])
  show "fresh_case ref_crates sample_case (length sample_ops) empty_db"
    using sample_case_apart sample_case_opening
    by (simp add: fresh_case_def decimal_new_ok_def sample_case_def undisturbed_def no_fault_def)
qed (simp_all add: openings_generated_def op_generated_def sample_ops_def ACCOUNTS_def)

end
